(* ===== verification/Prelude.thy ===== *)
theory Prelude
  imports Main "HOL-Library.Word"
begin

unbundle bit_operations_syntax

text \<open>
  Shared vocabulary of the development: the C integer types of \<^verbatim>\<open>src/lib/types.h\<close>, the
  failures a kernel function can end in, the result type that carries them, the loop
  combinators for the counted loops of the source, and generic lemmas on words, lists and
  intervals.

  \<^item> unsigned types are machine words (\<open>u64\<close> is \<open>64 word\<close>), so their arithmetic wraps;
  \<^item> \<open>s64\<close> is \<open>int\<close>; where an operation on caller-supplied values can leave the
    range of the type, the model goes through \<open>s64_chk\<close>, whose failure is the undefined
    behaviour of signed overflow;
  \<^item> a failed \<^verbatim>\<open>assert\<close> (\<^verbatim>\<open>src/lib/macros.h\<close>) logs and shuts the machine
    down: it is the value \<open>Inl (Panic e)\<close>, with \<open>e\<close> the asserted expression;
  \<^item> reading or writing an array outside its bounds is \<open>Inl OutOfBounds\<close>.
\<close>

section \<open>Machine types\<close>

type_synonym u64 = "64 word"
type_synonym u32 = "32 word"
type_synonym u16 = "16 word"
type_synonym u8 = "8 word"
type_synonym s64 = int

section \<open>Failures and results\<close>

datatype failure =
    Panic string     \<comment> \<open>a failed \<^verbatim>\<open>assert\<close>, with the asserted expression\<close>
  | OutOfBounds      \<comment> \<open>an access outside an array or buffer\<close>
  | SignedOverflow   \<comment> \<open>signed arithmetic outside the range of \<^verbatim>\<open>s64\<close>\<close>
  | Deadlock         \<comment> \<open>spinning on a lock that nobody will release\<close>
  | Shutdown int     \<comment> \<open>\<^verbatim>\<open>exit(code)\<close>\<close>

type_synonym 'a result = "failure + 'a"

named_theorems result_simps "rules for results and their sequencing"

definition bindR :: "'a result \<Rightarrow> ('a \<Rightarrow> 'b result) \<Rightarrow> 'b result" where
  "bindR m f = (case m of Inl e \<Rightarrow> Inl e | Inr x \<Rightarrow> f x)"

definition assertR :: "bool \<Rightarrow> string \<Rightarrow> unit result" where
  "assertR P e = (if P then Inr () else Inl (Panic e))"

definition s64_ok :: "int \<Rightarrow> bool" where
  "s64_ok x \<longleftrightarrow> - (2 ^ 63) \<le> x \<and> x < 2 ^ 63"

definition s64_chk :: "int \<Rightarrow> s64 result" where
  "s64_chk x = (if s64_ok x then Inr x else Inl SignedOverflow)"

definition idxR :: "'a list \<Rightarrow> int \<Rightarrow> 'a result" where
  "idxR xs i = (if 0 \<le> i \<and> i < int (length xs) then Inr (xs ! nat i) else Inl OutOfBounds)"

definition updR :: "'a list \<Rightarrow> int \<Rightarrow> 'a \<Rightarrow> 'a list result" where
  "updR xs i v = (if 0 \<le> i \<and> i < int (length xs) then Inr (xs[nat i := v]) else Inl OutOfBounds)"

lemma bindR_Inr [simp]: "bindR (Inr x) f = f x"
  by (simp add: bindR_def)

lemma bindR_Inl [simp]: "bindR (Inl e) f = Inl e"
  by (simp add: bindR_def)

lemma bindR_eq_Inr [result_simps]: "bindR m f = Inr y \<longleftrightarrow> (\<exists>x. m = Inr x \<and> f x = Inr y)"
  by (cases m) auto

lemma bindR_eq_Inl [result_simps]:
  "bindR m f = Inl e \<longleftrightarrow> m = Inl e \<or> (\<exists>x. m = Inr x \<and> f x = Inl e)"
  by (cases m) auto

lemma bindR_cong [fundef_cong]:
  "m = m' \<Longrightarrow> (\<And>x. m' = Inr x \<Longrightarrow> f x = g x) \<Longrightarrow> bindR m f = bindR m' g"
  by (cases m') auto

lemma bindR_assoc: "bindR (bindR m f) g = bindR m (\<lambda>x. bindR (f x) g)"
  by (cases m) auto

lemma assertR_True [simp]: "P \<Longrightarrow> assertR P e = Inr ()"
  by (simp add: assertR_def)

lemma assertR_False [simp]: "\<not> P \<Longrightarrow> assertR P e = Inl (Panic e)"
  by (simp add: assertR_def)

lemma assertR_eq_Inr [result_simps]: "assertR P e = Inr u \<longleftrightarrow> P"
  by (simp add: assertR_def)

lemma s64_chk_ok [simp]: "s64_ok x \<Longrightarrow> s64_chk x = Inr x"
  by (simp add: s64_chk_def)

lemma s64_chk_eq_Inr [result_simps]: "s64_chk x = Inr y \<longleftrightarrow> s64_ok x \<and> y = x"
  by (auto simp: s64_chk_def)

lemma s64_okI: "0 \<le> x \<Longrightarrow> x < 2 ^ 63 \<Longrightarrow> s64_ok x"
  by (simp add: s64_ok_def)

lemma idxR_in [simp]: "0 \<le> i \<Longrightarrow> i < int (length xs) \<Longrightarrow> idxR xs i = Inr (xs ! nat i)"
  by (simp add: idxR_def)

lemma updR_in [simp]: "0 \<le> i \<Longrightarrow> i < int (length xs) \<Longrightarrow> updR xs i v = Inr (xs[nat i := v])"
  by (simp add: updR_def)

lemma idxR_eq_Inr [result_simps]:
  "idxR xs i = Inr v \<longleftrightarrow> 0 \<le> i \<and> i < int (length xs) \<and> v = xs ! nat i"
  by (auto simp: idxR_def)

lemma updR_eq_Inr [result_simps]:
  "updR xs i v = Inr ys \<longleftrightarrow> 0 \<le> i \<and> i < int (length xs) \<and> ys = xs[nat i := v]"
  by (auto simp: updR_def)

text \<open>
  A function with a loop that need not end has a result of type \<open>'a result option\<close>, where \<open>None\<close> is
  not returning; \<open>bindP\<close> sequences such functions.
\<close>

definition bindP :: "'a result option \<Rightarrow> ('a \<Rightarrow> 'b result option) \<Rightarrow> 'b result option" where
  "bindP m f = (case m of None \<Rightarrow> None | Some (Inl e) \<Rightarrow> Some (Inl e) | Some (Inr x) \<Rightarrow> f x)"

lemma bindP_simps [simp]:
  "bindP None f = None" "bindP (Some (Inl e)) f = Some (Inl e)" "bindP (Some (Inr x)) f = f x"
  by (simp_all add: bindP_def)

lemma bindP_assoc: "bindP (bindP m f) g = bindP m (\<lambda>x. bindP (f x) g)"
  by (auto simp: bindP_def split: option.splits sum.splits)

lemma bindP_Inr_eq: "bindP m f = Some (Inr y) \<longleftrightarrow> (\<exists>x. m = Some (Inr x) \<and> f x = Some (Inr y))"
  by (auto simp: bindP_def split: option.splits sum.splits)

section \<open>Counted loops\<close>

text \<open>
  \<open>for_s64 b e body s\<close> is \<^verbatim>\<open>for (s64 i = b; i < e; i++) s = body(i, s);\<close>.
  \<open>for_ret b e body\<close> is the same loop with a body that may return early from the
  enclosing function: \<open>Some r\<close> is \<^verbatim>\<open>return r\<close>, \<open>None\<close> falls through.
\<close>

function for_s64 :: "s64 \<Rightarrow> s64 \<Rightarrow> (s64 \<Rightarrow> 's \<Rightarrow> 's result) \<Rightarrow> 's \<Rightarrow> 's result" where
  "for_s64 i e body s =
     (if i < e then bindR (body i s) (for_s64 (i + 1) e body) else Inr s)"
  by pat_completeness auto
termination
  by (relation "measure (\<lambda>(i, e, body, s). nat (e - i))") auto

function for_ret :: "s64 \<Rightarrow> s64 \<Rightarrow> (s64 \<Rightarrow> 'r option result) \<Rightarrow> 'r option result" where
  "for_ret i e body =
     (if i < e
      then bindR (body i)
             (\<lambda>r. case r of Some x \<Rightarrow> Inr (Some x) | None \<Rightarrow> for_ret (i + 1) e body)
      else Inr None)"
  by pat_completeness auto
termination
  by (relation "measure (\<lambda>(i, e, body). nat (e - i))") auto

declare for_s64.simps [simp del] for_ret.simps [simp del]

lemma for_s64_done [simp]: "e \<le> i \<Longrightarrow> for_s64 i e body s = Inr s"
  by (simp add: for_s64.simps)

lemma for_s64_step:
  "i < e \<Longrightarrow> for_s64 i e body s = bindR (body i s) (for_s64 (i + 1) e body)"
  by (simp add: for_s64.simps)

lemma for_ret_done [simp]: "e \<le> i \<Longrightarrow> for_ret i e body = Inr None"
  by (simp add: for_ret.simps)

lemma for_s64_rule:
  assumes "b \<le> e" and "I b s"
    and step: "\<And>i s. b \<le> i \<Longrightarrow> i < e \<Longrightarrow> I i s \<Longrightarrow> \<exists>s'. body i s = Inr s' \<and> I (i + 1) s'"
  shows "\<exists>s'. for_s64 b e body s = Inr s' \<and> I e s'"
proof -
  have "\<exists>s'. for_s64 j e body t = Inr s' \<and> I e s'"
    if "b \<le> j" "j \<le> e" "I j t" for j t
    using that
  proof (induction "nat (e - j)" arbitrary: j t)
    case 0
    then show ?case by auto
  next
    case (Suc n)
    then have "j < e" by linarith
    with Suc.prems step obtain t' where "body j t = Inr t'" and "I (j + 1) t'" by blast
    with Suc \<open>j < e\<close> show ?case by (auto simp: for_s64_step)
  qed
  with assms show ?thesis by blast
qed

lemma for_ret_eq:
  assumes "\<And>i. b \<le> i \<Longrightarrow> i < e \<Longrightarrow> body i = Inr (if P i then Some r else None)"
  shows "for_ret b e body = Inr (if \<exists>i. b \<le> i \<and> i < e \<and> P i then Some r else None)"
  using assms
proof (induction b e body rule: for_ret.induct)
  case (1 b e body)
  show ?case
  proof (cases "b < e \<and> \<not> P b")
    case True
    then have "for_ret (b + 1) e body
        = Inr (if \<exists>i. b + 1 \<le> i \<and> i < e \<and> P i then Some r else None)"
      using 1 by simp
    moreover have "(\<exists>i. b + 1 \<le> i \<and> i < e \<and> P i) \<longleftrightarrow> (\<exists>i. b \<le> i \<and> i < e \<and> P i)"
      using True by (metis add.commute add_le_cancel_left le_less zless_add1_eq add1_zle_eq)
    ultimately show ?thesis
      using True "1.prems"[of b] by (simp add: for_ret.simps [of b e body])
  next
    case False
    then show ?thesis
      using "1.prems"[of b] by (auto simp: for_ret.simps [of b e body])
  qed
qed

section \<open>Words\<close>

lemma and_not_mask_eq: "x AND NOT (mask k) = push_bit k (drop_bit k x)" for x :: "'a::len word"
  by (rule bit_word_eqI) (auto simp: bit_simps)

lemma and_not_mask_int: "x AND NOT (mask k) = push_bit k (drop_bit k x)" for x :: int
  by (rule bit_eqI) (auto simp: bit_simps)

lemma unat_and_not_mask:
  "unat (x AND NOT (mask k)) = unat x div 2 ^ k * 2 ^ k" for x :: "'a::len word"
proof -
  have "unat x div 2 ^ k * 2 ^ k < 2 ^ LENGTH('a)"
    by (meson div_times_less_eq_dividend le_less_trans unsigned_less)
  moreover have "unat (x AND NOT (mask k)) = take_bit LENGTH('a) (push_bit k (drop_bit k (unat x)))"
    by (simp only: and_not_mask_eq unsigned_push_bit_eq unat_drop_bit_eq)
  ultimately show ?thesis
    by (simp add: push_bit_eq_mult drop_bit_eq_div take_bit_nat_eq_self)
qed

lemma uint_and_not_mask:
  "uint (x AND NOT (mask k)) = uint x div 2 ^ k * 2 ^ k" for x :: "'a::len word"
proof -
  have "int (unat (x AND NOT (mask k))) = int (unat x) div 2 ^ k * 2 ^ k"
    by (simp only: unat_and_not_mask of_nat_mult of_nat_div of_nat_power of_nat_numeral)
  then show ?thesis by simp
qed

lemma sint_eq_uint_small: "uint x < 2 ^ 63 \<Longrightarrow> sint x = uint x" for x :: u64
  by (simp add: sint_uint signed_take_bit_int_eq_self_iff order_trans [OF _ uint_ge_0])

lemma uint_word_of_int_small: "0 \<le> i \<Longrightarrow> i < 2 ^ 64 \<Longrightarrow> uint (word_of_int i :: u64) = i"
  by (simp add: unsigned_of_int take_bit_int_eq_self)

lemma unat_of_nat_small: "n < 2 ^ 64 \<Longrightarrow> unat (of_nat n :: u64) = n"
  by (simp add: unsigned_of_nat take_bit_nat_eq_self)

end
