(* ===== verification/Align.thy ===== *)
theory Align
  imports Prelude
begin

text \<open>
  The arithmetic helpers of \<^verbatim>\<open>src/lib/basics.h\<close>: the macros \<^verbatim>\<open>min\<close>,
  \<^verbatim>\<open>align_up\<close>, \<^verbatim>\<open>align_down\<close> and \<^verbatim>\<open>is_aligned\<close>, and
  \<^verbatim>\<open>smallest_greater_power2\<close>. The compiler builtins they call
  (\<^verbatim>\<open>__builtin_popcountl\<close>, \<^verbatim>\<open>__builtin_clzl\<close>,
  \<^verbatim>\<open>__builtin_align_up\<close> and its relatives) are defined from their documented bit-level
  meaning. A signed argument is cast with \<open>U64\<close>, which is the two's complement
  conversion of C.
\<close>

abbreviation U64 :: "s64 \<Rightarrow> u64" where
  "U64 i \<equiv> word_of_int i"

abbreviation S64 :: "u64 \<Rightarrow> s64" where
  "S64 w \<equiv> sint w"

definition builtin_popcountl :: "u64 \<Rightarrow> s64" where
  "builtin_popcountl w = int (length (filter (bit w) [0..<64]))"

definition builtin_clzl :: "u64 \<Rightarrow> s64" where
  "builtin_clzl w = int (length (takeWhile (\<lambda>i. \<not> bit w i) (rev [0..<64])))"

definition min_s64 :: "s64 \<Rightarrow> s64 \<Rightarrow> s64" where
  "min_s64 x y = (if x > y then y else x)"

definition max_u64 :: "u64 \<Rightarrow> u64 \<Rightarrow> u64" where
  "max_u64 x y = (if x > y then x else y)"

definition align_up :: "u64 \<Rightarrow> u64 \<Rightarrow> u64 result" where
  "align_up value M_align =
     bindR (assertR (M_align \<noteq> 0 \<and> builtin_popcountl M_align = 1) ''alignment wasn't a power of 2'')
       (\<lambda>_. Inr ((value + (M_align - 1)) AND NOT (M_align - 1)))"

definition align_down :: "u64 \<Rightarrow> u64 \<Rightarrow> u64 result" where
  "align_down value M_align =
     bindR (assertR (M_align \<noteq> 0 \<and> builtin_popcountl M_align = 1) ''alignment wasn't a power of 2'')
       (\<lambda>_. Inr (value AND NOT (M_align - 1)))"

definition is_aligned :: "u64 \<Rightarrow> u64 \<Rightarrow> bool result" where
  "is_aligned value M_align =
     bindR (assertR (M_align \<noteq> 0 \<and> builtin_popcountl M_align = 1) ''alignment wasn't a power of 2'')
       (\<lambda>_. Inr (value AND (M_align - 1) = 0))"

definition smallest_greater_power2 :: "s64 \<Rightarrow> s64 result" where
  "smallest_greater_power2 v =
     bindR (assertR (v \<ge> 0) ''_value >= 0'') (\<lambda>_.
       let value = U64 v in
       if value \<le> 1 then Inr 0 else Inr (64 - builtin_clzl (value - 1)))"

section \<open>Powers of two\<close>

lemma filter_bit_eq_card:
  "length (filter (bit w) [0..<64]) = card {i. i < 64 \<and> bit w i}" for w :: u64
proof -
  have "length (filter (bit w) [0..<64]) = card (set (filter (bit w) [0..<64]))"
    by (metis distinct_card distinct_filter distinct_upt)
  then show ?thesis by (simp add: conj_commute)
qed

lemma word_eq_pow2_iff: "w = 2 ^ k \<longleftrightarrow> (\<forall>i<64. bit w i \<longleftrightarrow> i = k)" if "k < 64" for w :: u64
  using that by (auto simp: bit_simps intro: bit_word_eqI)

lemma popcountl_eq_1_iff: "builtin_popcountl w = 1 \<longleftrightarrow> (\<exists>k<64. w = 2 ^ k)"
proof
  assume "builtin_popcountl w = 1"
  then have "card {i. i < 64 \<and> bit w i} = 1"
    by (simp add: builtin_popcountl_def filter_bit_eq_card)
  then obtain k where "{i. i < 64 \<and> bit w i} = {k}" by (auto simp: card_1_singleton_iff)
  then have "k < 64" "\<forall>i<64. bit w i \<longleftrightarrow> i = k" by auto
  then show "\<exists>k<64. w = 2 ^ k" using word_eq_pow2_iff by blast
next
  assume "\<exists>k<64. w = 2 ^ k"
  then obtain k where "k < 64" "\<forall>i<64. bit w i \<longleftrightarrow> i = k" using word_eq_pow2_iff by blast
  then have "{i. i < 64 \<and> bit w i} = {k}" by auto
  then show "builtin_popcountl w = 1"
    by (simp add: builtin_popcountl_def filter_bit_eq_card)
qed

lemma popcountl_pow2: "k < 64 \<Longrightarrow> builtin_popcountl (2 ^ k) = 1"
  using popcountl_eq_1_iff by auto

lemma align_up_pow2 [simp]:
  "k < 64 \<Longrightarrow> align_up v (2 ^ k) = Inr ((v + mask k) AND NOT (mask k))"
  by (simp add: align_up_def popcountl_pow2 mask_eq_exp_minus_1)

lemma align_down_pow2 [simp]: "k < 64 \<Longrightarrow> align_down v (2 ^ k) = Inr (v AND NOT (mask k))"
  by (simp add: align_down_def popcountl_pow2 mask_eq_exp_minus_1)

lemma is_aligned_pow2 [simp]:
  "k < 64 \<Longrightarrow> is_aligned v (2 ^ k) = Inr (2 ^ k dvd uint v)"
  by (simp add: is_aligned_def popcountl_pow2 and_mask_dvd flip: mask_eq_exp_minus_1)

lemma uint_add_mask:
  "uint v + 2 ^ k \<le> 2 ^ 64 \<Longrightarrow> uint (v + mask k) = uint v + (2 ^ k - 1)" for v :: u64
proof -
  assume a: "uint v + 2 ^ k \<le> 2 ^ 64"
  then have "(2 :: int) ^ k \<le> 2 ^ 64" using uint_ge_0 [of v] by linarith
  then have "k \<le> 64" by (simp only: power_increasing_iff)
  then have m: "uint (mask k :: u64) = 2 ^ k - 1"
    by (simp only: uint_mask_eq) (simp add: min_def mask_eq_exp_minus_1)
  then show ?thesis
    using a by (subst uint_add_lem [THEN iffD1]) auto
qed

lemma uint_align_up:
  fixes v :: u64
  assumes "uint v + 2 ^ k \<le> 2 ^ 64"
  shows "uint ((v + mask k) AND NOT (mask k)) = (uint v + 2 ^ k - 1) div 2 ^ k * 2 ^ k"
  using uint_add_mask [OF assms] by (simp only: uint_and_not_mask add_diff_eq)

section \<open>Leading zeros\<close>

text \<open>
  \<open>sig_bits w n\<close> is the number of significant bits among the lowest \<open>n\<close> bits: the
  scan of \<^verbatim>\<open>__builtin_clzl\<close> from the top, restricted to a prefix of the scan.
\<close>

definition sig_bits :: "u64 \<Rightarrow> nat \<Rightarrow> nat" where
  "sig_bits w n = n - length (takeWhile (\<lambda>i. \<not> bit w i) (rev [0..<n]))"

lemma scan_le: "length (takeWhile P (rev [0..<n])) \<le> n"
  using length_takeWhile_le [of P "rev [0..<n]"] by simp

lemma sig_bits_Suc: "sig_bits w (Suc n) = (if bit w n then Suc n else sig_bits w n)"
  using scan_le [of "\<lambda>i. \<not> bit w i" n] by (simp add: sig_bits_def)

lemma clzl_eq_sig_bits: "64 - builtin_clzl w = int (sig_bits w 64)"
  using scan_le [of "\<lambda>i. \<not> bit w i" 64] by (simp add: builtin_clzl_def sig_bits_def of_nat_diff)

lemma sig_bits_above: "sig_bits w n \<le> i \<Longrightarrow> i < n \<Longrightarrow> \<not> bit w i"
  by (induction n) (auto simp: sig_bits_Suc less_Suc_eq split: if_splits)

lemma sig_bits_top: "sig_bits w n = Suc m \<Longrightarrow> bit w m"
  by (induction n) (auto simp: sig_bits_Suc sig_bits_def split: if_splits)

lemma bit_imp_exp_le: "bit w m \<Longrightarrow> 2 ^ m \<le> unat w" for w :: u64
proof -
  assume "bit w m"
  then have "odd (unat w div 2 ^ m)" by (simp add: bit_unsigned_iff flip: bit_iff_odd)
  then have "unat w div 2 ^ m \<noteq> 0" by (metis even_zero)
  then show ?thesis by (meson div_less not_less)
qed

lemma unat_less_sig_bits: "unat w < 2 ^ sig_bits w 64"
proof -
  have "bit w i \<Longrightarrow> i < 64 \<Longrightarrow> i < sig_bits w 64" for i
    using sig_bits_above not_le by blast
  then have "take_bit (sig_bits w 64) w = w"
    by (intro bit_word_eqI) (auto simp: bit_simps)
  then show ?thesis by (metis take_bit_nat_less_exp unsigned_take_bit_eq)
qed

lemma sig_bits_le_iff: "sig_bits w 64 \<le> j \<longleftrightarrow> unat w < 2 ^ j"
proof
  assume "sig_bits w 64 \<le> j"
  then show "unat w < 2 ^ j"
    using unat_less_sig_bits [of w] by (meson one_le_numeral order_less_le_trans power_increasing)
next
  assume a: "unat w < 2 ^ j"
  show "sig_bits w 64 \<le> j"
  proof (cases "sig_bits w 64")
    case (Suc m)
    then have "2 ^ m \<le> unat w" by (intro bit_imp_exp_le sig_bits_top)
    then have "m < j" using a by (meson le_less_trans nat_power_less_imp_less zero_less_numeral)
    with Suc show ?thesis by simp
  qed simp
qed

lemma smallest_greater_power2_sig:
  assumes "1 < v" and "v < 2 ^ 63"
  shows "smallest_greater_power2 v = Inr (int (sig_bits (U64 v - 1) 64))"
    and "unat (U64 v - 1) = nat v - 1"
proof -
  have u: "uint (U64 v) = v" using assms by (intro uint_word_of_int_small) auto
  have "\<not> U64 v \<le> 1" using u assms by (simp add: word_le_def)
  then show "smallest_greater_power2 v = Inr (int (sig_bits (U64 v - 1) 64))"
    using assms by (simp add: smallest_greater_power2_def clzl_eq_sig_bits)
  have "(1 :: u64) \<le> U64 v" using u assms by (simp add: word_le_def)
  then have "uint (U64 v - 1) = v - 1" using u by (simp add: uint_minus_simple_alt)
  then show "unat (U64 v - 1) = nat v - 1" by (simp add: unat_eq_nat_uint nat_diff_distrib')
qed

lemma smallest_greater_power2_iff:
  assumes "0 < v" and "v < 2 ^ 63"
  shows "\<exists>k. smallest_greater_power2 v = Inr (int k) \<and> (\<forall>j. k \<le> j \<longleftrightarrow> v \<le> 2 ^ j)"
proof (cases "v = 1")
  case True
  then show ?thesis by (intro exI [of _ 0]) (simp add: smallest_greater_power2_def)
next
  case False
  then have v: "1 < v" using assms by simp
  have "nat v - 1 < 2 ^ j \<longleftrightarrow> v \<le> 2 ^ j" for j
  proof -
    have "nat v - 1 < 2 ^ j \<longleftrightarrow> int (nat v - 1) < int (2 ^ j)" by (simp only: of_nat_less_iff)
    also have "\<dots> \<longleftrightarrow> v - 1 < 2 ^ j" using v by (simp add: of_nat_diff)
    finally show ?thesis by linarith
  qed
  then show ?thesis
    using smallest_greater_power2_sig [OF v assms(2)] by (simp add: sig_bits_le_iff)
qed

section \<open>Correctness of rounding\<close>

lemma align_up_least:
  assumes "k < 64" and "uint v + 2 ^ k \<le> 2 ^ 64"
  shows "\<exists>r. align_up v (2 ^ k) = Inr r \<and> 2 ^ k dvd uint r \<and> uint v \<le> uint r
           \<and> uint r < uint v + 2 ^ k"
proof -
  let ?r = "(v + mask k) AND NOT (mask k)"
  let ?n = "uint v + 2 ^ k - 1"
  have r: "uint ?r = ?n div 2 ^ k * 2 ^ k" using assms(2) by (rule uint_align_up)
  have "?n = ?n div 2 ^ k * 2 ^ k + ?n mod 2 ^ k" by (rule div_mult_mod_eq [symmetric])
  moreover have "0 \<le> ?n mod 2 ^ k" "?n mod 2 ^ k < 2 ^ k" by simp_all
  ultimately have "uint v \<le> uint ?r \<and> uint ?r < uint v + 2 ^ k" unfolding r by linarith
  with assms(1) r show ?thesis by simp
qed

lemma align_down_greatest:
  assumes "k < 64"
  shows "\<exists>r. align_down v (2 ^ k) = Inr r \<and> 2 ^ k dvd uint r \<and> uint r \<le> uint v
           \<and> uint v < uint r + 2 ^ k"
proof -
  have "uint v div 2 ^ k * 2 ^ k + uint v mod 2 ^ k = uint v" by (rule div_mult_mod_eq)
  moreover have "0 \<le> uint v mod 2 ^ k" "uint v mod 2 ^ k < 2 ^ k" by simp_all
  ultimately have "uint v div 2 ^ k * 2 ^ k \<le> uint v \<and> uint v < uint v div 2 ^ k * 2 ^ k + 2 ^ k"
    by linarith
  then show ?thesis using assms by (simp add: uint_and_not_mask)
qed

text \<open>
  Rounding to a power of two gives the next multiple in either direction: \<^verbatim>\<open>align_up\<close>
  the least multiple not below the value (when it fits in 64 bits), \<^verbatim>\<open>align_down\<close> the greatest
  not above it, and \<^verbatim>\<open>is_aligned\<close> decides divisibility.
\<close>

theorem align_correct:
  assumes "k < 64" "uint v + 2 ^ k \<le> 2 ^ 64"
  shows "(\<exists>r. align_up v (2 ^ k) = Inr r \<and> 2 ^ k dvd uint r \<and> uint v \<le> uint r \<and> uint r < uint v + 2 ^ k)
       \<and> (\<exists>r. align_down v (2 ^ k) = Inr r \<and> 2 ^ k dvd uint r \<and> uint r \<le> uint v \<and> uint v < uint r + 2 ^ k)
       \<and> is_aligned v (2 ^ k) = Inr (2 ^ k dvd uint v)"
  using align_up_least [OF assms] align_down_greatest [OF assms(1), of v] is_aligned_pow2 [OF assms(1), of v]
  by blast

theorem align_correct_witness:
  "(\<exists>r. align_up 5000 (2 ^ 12) = Inr r \<and> 2 ^ 12 dvd uint r \<and> 5000 \<le> uint r \<and> uint r < 5000 + 2 ^ 12)
     \<and> is_aligned 5000 (2 ^ 12) = Inr False"
  using align_correct [of 12 5000] by simp

text \<open>
  Every alignment that is not a power of two, zero included, is refused by all three macros.
\<close>

theorem align_refuses_other_alignments:
  assumes "\<nexists>k. k < 64 \<and> a = 2 ^ k"
  shows "align_up v a = Inl (Panic ''alignment wasn't a power of 2'')
       \<and> align_down v a = Inl (Panic ''alignment wasn't a power of 2'')
       \<and> is_aligned v a = Inl (Panic ''alignment wasn't a power of 2'')"
  using assms popcountl_eq_1_iff [of a]
  by (auto simp: align_up_def align_down_def is_aligned_def)

theorem align_refuses_other_alignments_witness:
  "align_up 7 0 = Inl (Panic ''alignment wasn't a power of 2'')"
proof -
  have "\<nexists>k. k < 64 \<and> (0 :: u64) = 2 ^ k" by (auto simp: word_eq_pow2_iff)
  then show ?thesis using align_refuses_other_alignments [of 0 7] by simp
qed

text \<open>
  C26. \<^verbatim>\<open>smallest_greater_power2\<close> returns the least exponent whose power of two is not below
  the value.
\<close>

theorem smallest_greater_power2_correct:
  assumes "0 < v" "v < 2 ^ 63"
  shows "\<exists>k. smallest_greater_power2 v = Inr (int k) \<and> v \<le> 2 ^ k \<and> (\<forall>j<k. 2 ^ j < v)"
  using smallest_greater_power2_iff [OF assms] by (metis leD le_refl not_le)

theorem smallest_greater_power2_correct_witness:
  "\<exists>k. smallest_greater_power2 513 = Inr (int k) \<and> (513 :: int) \<le> 2 ^ k \<and> (\<forall>j<k. 2 ^ j < (513 :: int))"
  using smallest_greater_power2_correct [of 513] by simp

end
