(* ===== verification/Bit_Set.thy ===== *)
theory Bit_Set
  imports Align
begin

text \<open>
  The bit set of \<^verbatim>\<open>src/lib/bitset.h\<close>: an array of 64-bit words and a number of bits.
  The range operations work word by word in the aligned middle of the range and bit by bit
  at its ends; the theorems say that they agree with the set of bits, \<open>bits_of\<close>. The
  locale \<open>bit_set\<close> is the interface the page allocator relies on; it is interpreted on
  the functions below.
\<close>

record BitSet =
  bs_data :: "u64 list"
  bs_count :: s64

definition BitSet__from_raw :: "u64 list \<Rightarrow> s64 \<Rightarrow> BitSet" where
  "BitSet__from_raw data count = \<lparr>bs_data = data, bs_count = count\<rparr>"

definition BitSet__get :: "BitSet \<Rightarrow> s64 \<Rightarrow> bool result" where
  "BitSet__get bits idx =
     bindR (assertR (0 \<le> idx) ''0 <= idx'') (\<lambda>_.
     bindR (assertR (idx < bs_count bits) ''idx < bits.count'') (\<lambda>_.
     bindR (idxR (bs_data bits) (idx div 64)) (\<lambda>v.
     Inr (0 \<noteq> (push_bit (nat (idx mod 64)) 1 AND v)))))"

definition check_range :: "BitSet \<Rightarrow> s64 \<Rightarrow> s64 \<Rightarrow> unit result" where
  "check_range bits begin end =
     bindR (assertR (0 \<le> begin) ''0 <= begin'') (\<lambda>_.
     bindR (assertR (begin \<le> end) ''begin <= end'') (\<lambda>_.
     assertR (end \<le> bs_count bits) ''end <= bits.count''))"

definition fast_range :: "s64 \<Rightarrow> s64 \<Rightarrow> (s64 \<times> s64) result" where
  "fast_range begin end =
     bindR (align_up (U64 begin) 64) (\<lambda>fast_begin.
     bindR (align_down (U64 end) 64) (\<lambda>fast_end.
     Inr (S64 fast_begin, S64 fast_end)))"

definition count_bits_loop :: "BitSet \<Rightarrow> s64 \<Rightarrow> s64 \<Rightarrow> s64 \<Rightarrow> s64 result" where
  "count_bits_loop bits b e count =
     for_s64 b e (\<lambda>i count. bindR (BitSet__get bits i) (\<lambda>v. Inr (if v then count + 1 else count))) count"

definition BitSet__get_count :: "BitSet \<Rightarrow> s64 \<Rightarrow> s64 \<Rightarrow> s64 result" where
  "BitSet__get_count bits begin end =
     bindR (check_range bits begin end) (\<lambda>_.
     bindR (fast_range begin end) (\<lambda>(fast_begin, fast_end).
     if fast_begin \<ge> fast_end then count_bits_loop bits begin end 0
     else
       bindR (count_bits_loop bits begin fast_begin 0) (\<lambda>count.
       bindR (for_s64 (fast_begin div 64) (fast_end div 64)
                (\<lambda>i count. bindR (idxR (bs_data bits) i)
                  (\<lambda>w. Inr (count + builtin_popcountl w))) count) (\<lambda>count.
       count_bits_loop bits fast_end end count))))"

definition scan_loop :: "BitSet \<Rightarrow> bool \<Rightarrow> s64 \<Rightarrow> s64 \<Rightarrow> bool option result" where
  "scan_loop bits v b e =
     for_ret b e (\<lambda>i. bindR (BitSet__get bits i) (\<lambda>x. Inr (if x = v then Some v else None)))"

definition BitSet__get_all :: "BitSet \<Rightarrow> s64 \<Rightarrow> s64 \<Rightarrow> bool result" where
  "BitSet__get_all bits begin end =
     bindR (check_range bits begin end) (\<lambda>_.
     bindR (fast_range begin end) (\<lambda>(fast_begin, fast_end).
     if fast_begin \<ge> fast_end
     then bindR (scan_loop bits False begin end) (\<lambda>r. Inr (r = None))
     else
       bindR (scan_loop bits False begin fast_begin) (\<lambda>r. if r \<noteq> None then Inr False else
       bindR (for_ret (fast_begin div 64) (fast_end div 64)
                (\<lambda>i. bindR (idxR (bs_data bits) i)
                  (\<lambda>w. Inr (if w \<noteq> NOT 0 then Some False else None)))) (\<lambda>r.
       if r \<noteq> None then Inr False else
       bindR (scan_loop bits False fast_end end) (\<lambda>r. Inr (r = None))))))"

definition BitSet__get_any :: "BitSet \<Rightarrow> s64 \<Rightarrow> s64 \<Rightarrow> bool result" where
  "BitSet__get_any bits begin end =
     bindR (check_range bits begin end) (\<lambda>_.
     bindR (fast_range begin end) (\<lambda>(fast_begin, fast_end).
     if fast_begin \<ge> fast_end
     then bindR (scan_loop bits True begin end) (\<lambda>r. Inr (r \<noteq> None))
     else
       bindR (scan_loop bits True begin fast_begin) (\<lambda>r. if r \<noteq> None then Inr True else
       bindR (for_ret (fast_begin div 64) (fast_end div 64)
                (\<lambda>i. bindR (idxR (bs_data bits) i)
                  (\<lambda>w. Inr (if w \<noteq> 0 then Some True else None)))) (\<lambda>r.
       if r \<noteq> None then Inr True else
       bindR (scan_loop bits True fast_end end) (\<lambda>r. Inr (r \<noteq> None))))))"

definition BitSet__set :: "BitSet \<Rightarrow> s64 \<Rightarrow> bool \<Rightarrow> BitSet result" where
  "BitSet__set bits idx value =
     bindR (assertR (0 \<le> idx) ''0 <= idx'') (\<lambda>_.
     bindR (assertR (idx < bs_count bits) ''idx < bits.count'') (\<lambda>_.
     bindR (idxR (bs_data bits) (idx div 64)) (\<lambda>v.
     let bit_offset = nat (idx mod 64);
         v' = (if value then v OR push_bit bit_offset 1 else v AND NOT (push_bit bit_offset 1))
     in bindR (updR (bs_data bits) (idx div 64) v') (\<lambda>d. Inr (bits\<lparr>bs_data := d\<rparr>)))))"

definition store_word :: "bool \<Rightarrow> s64 \<Rightarrow> BitSet \<Rightarrow> BitSet result" where
  "store_word value i bits =
     bindR (updR (bs_data bits) i 0) (\<lambda>d.
     bindR (if value then bindR (idxR d i) (\<lambda>w. updR d i (NOT w)) else Inr d) (\<lambda>d.
     Inr (bits\<lparr>bs_data := d\<rparr>)))"

function set_all_loop :: "bool \<Rightarrow> s64 \<Rightarrow> s64 \<Rightarrow> BitSet \<Rightarrow> BitSet result" where
  "set_all_loop value i idx bits =
     (if idx < bs_count bits
      then bindR (store_word value i bits) (set_all_loop value (i + 1) (idx + 64))
      else Inr bits)"
  by pat_completeness auto
termination
  by (relation "measure (\<lambda>(v, i, idx, bits). nat (bs_count bits - idx))")
    (auto simp: store_word_def result_simps)

declare set_all_loop.simps [simp del]

definition BitSet__set_all :: "BitSet \<Rightarrow> bool \<Rightarrow> BitSet result" where
  "BitSet__set_all bits value = set_all_loop value 0 0 bits"

definition BitSet__set_range :: "BitSet \<Rightarrow> s64 \<Rightarrow> s64 \<Rightarrow> bool \<Rightarrow> BitSet result" where
  "BitSet__set_range bits begin end value =
     bindR (check_range bits begin end) (\<lambda>_.
     bindR (fast_range begin end) (\<lambda>(fast_begin, fast_end).
     if fast_begin \<ge> fast_end then for_s64 begin end (\<lambda>i bits. BitSet__set bits i value) bits
     else
       bindR (for_s64 begin fast_begin (\<lambda>i bits. BitSet__set bits i value) bits) (\<lambda>bits.
       bindR (for_s64 (fast_begin div 64) (fast_end div 64) (store_word value) bits) (\<lambda>bits.
       for_s64 fast_end end (\<lambda>i bits. BitSet__set bits i value) bits))))"

section \<open>Bits of the array\<close>

definition test :: "u64 list \<Rightarrow> int \<Rightarrow> bool" where
  "test d i = bit (d ! nat (i div 64)) (nat (i mod 64))"

definition bits_of :: "BitSet \<Rightarrow> int set" where
  "bits_of bits = {i. 0 \<le> i \<and> i < bs_count bits \<and> test (bs_data bits) i}"

definition bs_wf :: "BitSet \<Rightarrow> bool" where
  "bs_wf bits \<longleftrightarrow> 0 \<le> bs_count bits \<and> bs_count bits \<le> 64 * int (length (bs_data bits))
     \<and> bs_count bits \<le> 2 ^ 62"

lemma bit_test_and: "(push_bit n 1 AND v \<noteq> 0) \<longleftrightarrow> bit v n" if "n < 64" for v :: u64
proof -
  have "push_bit n 1 AND v = (if bit v n then push_bit n 1 else 0)"
    by (rule bit_word_eqI) (auto simp: bit_simps)
  then show ?thesis using that by (simp add: push_bit_of_1)
qed

lemma word_index_less:
  "bs_wf bits \<Longrightarrow> 0 \<le> i \<Longrightarrow> i < bs_count bits \<Longrightarrow> nat (i div 64) < length (bs_data bits)"
  unfolding bs_wf_def by linarith

lemma BitSet_get [simp]:
  assumes "bs_wf bits" "0 \<le> i" "i < bs_count bits"
  shows "BitSet__get bits i = Inr (i \<in> bits_of bits)"
proof -
  have "i div 64 < int (length (bs_data bits))" using word_index_less [OF assms] assms by linarith
  moreover have "nat (i mod 64) < 64" by simp
  ultimately show ?thesis
    using assms bit_test_and [of "nat (i mod 64)"]
    by (simp add: BitSet__get_def bits_of_def test_def eq_commute [of 0])
qed

lemma test_upd:
  assumes "0 \<le> i" "0 \<le> k" "nat (k div 64) < length d"
  shows "test (d[nat (k div 64) := w]) i =
           (if i div 64 = k div 64 then bit w (nat (i mod 64)) else test d i)"
proof (cases "i div 64 = k div 64")
  case False
  then have "nat (k div 64) \<noteq> nat (i div 64)" using assms by (simp add: eq_nat_nat_iff pos_imp_zdiv_nonneg_iff)
  with False show ?thesis by (simp add: test_def)
qed (use assms in \<open>simp add: test_def\<close>)

lemma div_mod_64_eq: "i = k \<longleftrightarrow> i div 64 = k div 64 \<and> i mod 64 = k mod 64" for i k :: int
  by (metis div_mult_mod_eq)

lemma BitSet_set:
  assumes "bs_wf bits" "0 \<le> k" "k < bs_count bits"
  shows "\<exists>bits'. BitSet__set bits k v = Inr bits' \<and> bs_wf bits'
           \<and> bs_count bits' = bs_count bits \<and> length (bs_data bits') = length (bs_data bits)
           \<and> bits_of bits' = (if v then insert k (bits_of bits) else bits_of bits - {k})"
proof -
  define w where "w = bs_data bits ! nat (k div 64)"
  define w' where "w' = (if v then w OR push_bit (nat (k mod 64)) 1
                         else w AND NOT (push_bit (nat (k mod 64)) 1))"
  define bits' where "bits' = bits\<lparr>bs_data := (bs_data bits)[nat (k div 64) := w']\<rparr>"
  have idx: "nat (k div 64) < length (bs_data bits)" by (rule word_index_less [OF assms])
  then have "k div 64 < int (length (bs_data bits))" using assms by linarith
  then have "BitSet__set bits k v = Inr bits'"
    using assms by (simp add: BitSet__set_def Let_def bits'_def w'_def w_def)
  moreover have "bs_wf bits'" using assms by (simp add: bits'_def bs_wf_def)
  moreover have "test (bs_data bits') i = (if i = k then v else test (bs_data bits) i)"
    if "0 \<le> i" for i
  proof (cases "i div 64 = k div 64")
    case True
    then have "i = k \<longleftrightarrow> nat (i mod 64) = nat (k mod 64)"
      using div_mod_64_eq [of i k] by (simp add: eq_nat_nat_iff)
    moreover have "nat (i mod 64) < 64" by simp
    ultimately have "bit w' (nat (i mod 64)) = (if i = k then v else bit w (nat (i mod 64)))"
      by (auto simp: w'_def bit_simps)
    with True that idx assms show ?thesis
      by (simp add: bits'_def test_upd) (simp add: test_def w_def)
  next
    case False
    with that idx assms show ?thesis by (auto simp: bits'_def test_upd)
  qed
  then have "bits_of bits' = (if v then insert k (bits_of bits) else bits_of bits - {k})"
    using assms by (auto simp: bits_of_def bits'_def split: if_splits)
  ultimately show ?thesis by (auto simp: bits'_def)
qed

lemma store_word:
  assumes "bs_wf bits" "0 \<le> n" "n < int (length (bs_data bits))"
  shows "\<exists>bits'. store_word v n bits = Inr bits' \<and> bs_wf bits'
           \<and> bs_count bits' = bs_count bits \<and> length (bs_data bits') = length (bs_data bits)
           \<and> bits_of bits' = (if v then bits_of bits \<union> {i. i div 64 = n \<and> 0 \<le> i \<and> i < bs_count bits}
                              else bits_of bits - {i. i div 64 = n})"
proof -
  let ?w = "if v then NOT 0 else 0 :: u64"
  define bits' where "bits' = bits\<lparr>bs_data := (bs_data bits)[nat n := ?w]\<rparr>"
  have run: "store_word v n bits = Inr bits'"
    using assms by (auto simp: store_word_def bits'_def)
  have "test (bs_data bits') i = (if i div 64 = n then v else test (bs_data bits) i)"
    if "0 \<le> i" for i
  proof -
    have "nat (i mod 64) < 64" by simp
    then have "bit ?w (nat (i mod 64)) = v" by (simp add: bit_simps)
    then show ?thesis
      using test_upd [of i "64 * n" "bs_data bits" ?w] that assms by (simp add: bits'_def)
  qed
  then have "bits_of bits' = (if v then bits_of bits \<union> {i. i div 64 = n \<and> 0 \<le> i \<and> i < bs_count bits}
                              else bits_of bits - {i. i div 64 = n})"
    by (auto simp: bits_of_def bits'_def split: if_splits)
  with run assms show ?thesis by (auto simp: bits'_def bs_wf_def)
qed

section \<open>Ranges\<close>

lemma sint_align_64:
  assumes "0 \<le> b" "b \<le> 2 ^ 62"
  shows "align_up (U64 b) 64 = Inr ((U64 b + mask 6) AND NOT (mask 6))"
    and "S64 ((U64 b + mask 6) AND NOT (mask 6)) = (b + 63) div 64 * 64"
    and "align_down (U64 b) 64 = Inr (U64 b AND NOT (mask 6))"
    and "S64 (U64 b AND NOT (mask 6)) = b div 64 * 64"
proof -
  have u: "uint (U64 b) = b" using assms by (intro uint_word_of_int_small) auto
  show "align_up (U64 b) 64 = Inr ((U64 b + mask 6) AND NOT (mask 6))"
    using align_up_pow2 [of 6 "U64 b"] by simp
  show "align_down (U64 b) 64 = Inr (U64 b AND NOT (mask 6))"
    using align_down_pow2 [of 6 "U64 b"] by simp
  have 1: "uint ((U64 b + mask 6) AND NOT (mask 6)) = (b + 63) div 64 * 64"
    using uint_align_up [of "U64 b" 6] u assms by simp
  have "(b + 63) div 64 * 64 < 2 ^ 63" using assms by simp
  with 1 show "S64 ((U64 b + mask 6) AND NOT (mask 6)) = (b + 63) div 64 * 64"
    using sint_eq_uint_small [of "(U64 b + mask 6) AND NOT (mask 6)"] by (simp only:)
  have 2: "uint (U64 b AND NOT (mask 6)) = b div 64 * 64"
    using uint_and_not_mask [of "U64 b" 6] u by simp
  have "b div 64 * 64 < 2 ^ 63" using assms by simp
  with 2 show "S64 (U64 b AND NOT (mask 6)) = b div 64 * 64"
    using sint_eq_uint_small [of "U64 b AND NOT (mask 6)"] by (simp only:)
qed

lemma fast_range_eq:
  "0 \<le> b \<Longrightarrow> b \<le> e \<Longrightarrow> e \<le> 2 ^ 62 \<Longrightarrow>
   fast_range b e = Inr ((b + 63) div 64 * 64, e div 64 * 64)"
  by (simp add: fast_range_def sint_align_64)

lemma check_range_ok:
  "0 \<le> b \<Longrightarrow> b \<le> e \<Longrightarrow> e \<le> bs_count bits \<Longrightarrow> check_range bits b e = Inr ()"
  by (simp add: check_range_def)

lemma fast_bounds:
  fixes b e :: int
  assumes "(b + 63) div 64 * 64 < e div 64 * 64"
  shows "b \<le> (b + 63) div 64 * 64" and "e div 64 * 64 \<le> e"
  using assms by linarith+

definition hit :: "BitSet \<Rightarrow> bool \<Rightarrow> int \<Rightarrow> int \<Rightarrow> bool" where
  "hit bits v b e \<longleftrightarrow> (\<exists>i. b \<le> i \<and> i < e \<and> (i \<in> bits_of bits) = v)"

lemma scan_loop_eq:
  assumes "bs_wf bits" "0 \<le> b" "e \<le> bs_count bits"
  shows "scan_loop bits v b e = Inr (if hit bits v b e then Some v else None)"
  unfolding scan_loop_def hit_def by (rule for_ret_eq) (use assms in simp)

lemma not_full_iff: "w \<noteq> NOT 0 \<longleftrightarrow> (\<exists>j<64. \<not> bit w j)" for w :: u64
proof -
  have "w = NOT 0" if "\<forall>j<64. bit w j"
    using that by (intro bit_word_eqI) (auto simp: bit_simps)
  then show ?thesis by (auto simp: bit_simps)
qed

lemma not_zero_iff: "w \<noteq> 0 \<longleftrightarrow> (\<exists>j<64. bit w j)" for w :: u64
  by (auto intro: bit_word_eqI)

lemma word_ranges_ex:
  assumes "64 dvd fb" "64 dvd fe"
  shows "(\<exists>i. fb div 64 \<le> i \<and> i < fe div 64 \<and> (\<exists>j<64. Q (64 * i + int j)))
           \<longleftrightarrow> (\<exists>k. fb \<le> k \<and> k < fe \<and> Q k)" (is "?L \<longleftrightarrow> ?R")
proof
  assume ?L
  then obtain i j where "fb div 64 \<le> i" "i < fe div 64" "j < 64" "Q (64 * i + int j)" by blast
  moreover from this assms have "fb \<le> 64 * i + int j" "64 * i + int j < fe" by auto
  ultimately show ?R by blast
next
  assume ?R
  then obtain k where k: "fb \<le> k" "k < fe" "Q k" by blast
  have "fb div 64 \<le> k div 64" using k by (intro zdiv_mono1) auto
  moreover have "k div 64 < fe div 64" using k assms by auto
  moreover have "nat (k mod 64) < 64" "64 * (k div 64) + int (nat (k mod 64)) = k" by simp_all
  ultimately show ?L using k(3) by metis
qed

lemma test_in_word: "0 \<le> i \<Longrightarrow> j < 64 \<Longrightarrow> test d (64 * i + int j) = bit (d ! nat i) j"
  by (simp add: test_def nat_mod_distrib)

lemma word_scan_eq:
  assumes wf: "bs_wf bits" and "0 \<le> fb" "64 dvd fb" "64 dvd fe" "fe \<le> bs_count bits"
    and P: "\<And>w :: u64. P w \<longleftrightarrow> (\<exists>j<64. bit w j = v)"
  shows "for_ret (fb div 64) (fe div 64)
           (\<lambda>i. bindR (idxR (bs_data bits) i) (\<lambda>w. Inr (if P w then Some v else None)))
         = Inr (if hit bits v fb fe then Some v else None)" (is "?loop = _")
proof -
  let ?d = "bs_data bits"
  have in_range: "0 \<le> i \<and> i < int (length ?d)" if "fb div 64 \<le> i" "i < fe div 64" for i
    using that assms unfolding bs_wf_def by linarith
  have "?loop = Inr (if \<exists>i. fb div 64 \<le> i \<and> i < fe div 64 \<and> P (?d ! nat i) then Some v else None)"
    by (rule for_ret_eq) (use in_range in simp)
  also have "(\<exists>i. fb div 64 \<le> i \<and> i < fe div 64 \<and> P (?d ! nat i))
      \<longleftrightarrow> (\<exists>i. fb div 64 \<le> i \<and> i < fe div 64 \<and> (\<exists>j<64. test ?d (64 * i + int j) = v))"
  proof (intro ex_cong1 conj_cong refl)
    fix i assume "fb div 64 \<le> i" "i < fe div 64"
    then have "0 \<le> i" using in_range by blast
    then show "P (?d ! nat i) \<longleftrightarrow> (\<exists>j<64. test ?d (64 * i + int j) = v)"
      by (auto simp: P test_in_word)
  qed
  also have "\<dots> \<longleftrightarrow> (\<exists>k. fb \<le> k \<and> k < fe \<and> test ?d k = v)"
    using assms by (intro word_ranges_ex) auto
  also have "\<dots> \<longleftrightarrow> hit bits v fb fe"
    unfolding hit_def
  proof (intro ex_cong1 conj_cong refl)
    fix k assume "fb \<le> k" "k < fe"
    then have "0 \<le> k" "k < bs_count bits" using assms(2,5) by linarith+
    then show "test ?d k = v \<longleftrightarrow> (k \<in> bits_of bits) = v" by (simp add: bits_of_def)
  qed
  finally show ?thesis .
qed

lemma hit_split:
  "b \<le> m \<Longrightarrow> m \<le> n \<Longrightarrow> n \<le> e \<Longrightarrow>
   hit bits v b e \<longleftrightarrow> hit bits v b m \<or> hit bits v m n \<or> hit bits v n e"
  unfolding hit_def by (meson dual_order.trans leI less_le_trans)

text \<open>The facts the range operations share: the checks pass, and the aligned middle is in range.\<close>

lemma range_setup:
  assumes "bs_wf bits" "0 \<le> b" "b \<le> e" "e \<le> bs_count bits"
  shows "check_range bits b e = Inr ()"
    and "fast_range b e = Inr ((b + 63) div 64 * 64, e div 64 * 64)"
  using assms by (auto simp: check_range_ok fast_range_eq bs_wf_def)

lemma middle_scan:
  assumes "bs_wf bits" "0 \<le> b" "e \<le> bs_count bits"
    and "(b + 63) div 64 * 64 < e div 64 * 64"
    and "\<And>w :: u64. P w \<longleftrightarrow> (\<exists>j<64. bit w j = v)"
  shows "for_ret ((b + 63) div 64 * 64 div 64) (e div 64 * 64 div 64)
           (\<lambda>i. bindR (idxR (bs_data bits) i) (\<lambda>w. Inr (if P w then Some v else None)))
         = Inr (if hit bits v ((b + 63) div 64 * 64) (e div 64 * 64) then Some v else None)"
  using assms fast_bounds [of b e] by (intro word_scan_eq) auto

lemma BitSet_get_all:
  assumes "bs_wf bits" "0 \<le> b" "b \<le> e" "e \<le> bs_count bits"
  shows "BitSet__get_all bits b e = Inr ({b..<e} \<subseteq> bits_of bits)"
proof -
  let ?fb = "(b + 63) div 64 * 64" and ?fe = "e div 64 * 64"
  have "BitSet__get_all bits b e = Inr (\<not> hit bits False b e)"
  proof (cases "?fb \<ge> ?fe")
    case True
    with assms show ?thesis by (auto simp: BitSet__get_all_def range_setup scan_loop_eq)
  next
    case False
    then have le: "b \<le> ?fb" "?fb \<le> ?fe" "?fe \<le> e" using fast_bounds [of b e] by auto
    have "for_ret (?fb div 64) (?fe div 64)
        (\<lambda>i. bindR (idxR (bs_data bits) i) (\<lambda>w. Inr (if w \<noteq> NOT 0 then Some False else None)))
      = Inr (if hit bits False ?fb ?fe then Some False else None)"
      using False assms by (intro middle_scan) (simp_all only: not_full_iff not_le simp_thms)
    then show ?thesis
      using False assms le hit_split [OF le, of bits False]
      by (auto simp: BitSet__get_all_def range_setup scan_loop_eq)
  qed
  then show ?thesis by (auto simp: subset_iff hit_def)
qed

lemma BitSet_get_any:
  assumes "bs_wf bits" "0 \<le> b" "b \<le> e" "e \<le> bs_count bits"
  shows "BitSet__get_any bits b e = Inr ({b..<e} \<inter> bits_of bits \<noteq> {})"
proof -
  let ?fb = "(b + 63) div 64 * 64" and ?fe = "e div 64 * 64"
  have "BitSet__get_any bits b e = Inr (hit bits True b e)"
  proof (cases "?fb \<ge> ?fe")
    case True
    with assms show ?thesis by (auto simp: BitSet__get_any_def range_setup scan_loop_eq)
  next
    case False
    then have le: "b \<le> ?fb" "?fb \<le> ?fe" "?fe \<le> e" using fast_bounds [of b e] by auto
    have "for_ret (?fb div 64) (?fe div 64)
        (\<lambda>i. bindR (idxR (bs_data bits) i) (\<lambda>w. Inr (if w \<noteq> 0 then Some True else None)))
      = Inr (if hit bits True ?fb ?fe then Some True else None)"
      using False assms by (intro middle_scan) (auto simp: not_zero_iff)
    then show ?thesis
      using False assms le hit_split [OF le, of bits True]
      by (auto simp: BitSet__get_any_def range_setup scan_loop_eq)
  qed
  then show ?thesis by (auto simp: hit_def)
qed

section \<open>Counting\<close>

lemma finite_bits_of [simp]: "finite (bits_of bits)"
  by (rule finite_subset [of _ "{0..<bs_count bits}"]) (auto simp: bits_of_def)

definition ones :: "BitSet \<Rightarrow> int \<Rightarrow> int \<Rightarrow> int" where
  "ones bits b e = int (card (bits_of bits \<inter> {b..<e}))"

lemma ones_split: "b \<le> m \<Longrightarrow> m \<le> e \<Longrightarrow> ones bits b e = ones bits b m + ones bits m e"
proof -
  assume a: "b \<le> m" "m \<le> e"
  then have "bits_of bits \<inter> {b..<e} = (bits_of bits \<inter> {b..<m}) \<union> (bits_of bits \<inter> {m..<e})" by auto
  moreover have "(bits_of bits \<inter> {b..<m}) \<inter> (bits_of bits \<inter> {m..<e}) = {}" by auto
  ultimately show ?thesis by (simp add: ones_def card_Un_disjoint)
qed

lemma ones_step: "ones bits i (i + 1) = (if i \<in> bits_of bits then 1 else 0)"
proof -
  have "{i..<i + 1} = {i}" by auto
  then show ?thesis by (simp add: ones_def)
qed

lemma ones_empty [simp]: "ones bits b b = 0"
  by (simp add: ones_def)

lemma count_bits_loop_eq:
  assumes "bs_wf bits" "0 \<le> b" "b \<le> e" "e \<le> bs_count bits"
  shows "count_bits_loop bits b e c = Inr (c + ones bits b e)"
proof -
  have "\<exists>r. count_bits_loop bits b e c = Inr r \<and> r = c + ones bits b e"
    unfolding count_bits_loop_def
  proof (rule for_s64_rule [where I = "\<lambda>i r. r = c + ones bits b i"])
    fix i r assume "b \<le> i" "i < e" "r = c + ones bits b i"
    then show "\<exists>r'. bindR (BitSet__get bits i) (\<lambda>v. Inr (if v then r + 1 else r)) = Inr r'
                 \<and> r' = c + ones bits b (i + 1)"
      using assms ones_split [of b i "i + 1" bits] by (simp add: ones_step)
  qed (use assms in simp_all)
  then show ?thesis by auto
qed

lemma popcountl_ones:
  assumes "bs_wf bits" "0 \<le> i" "64 * i + 64 \<le> bs_count bits"
  shows "builtin_popcountl (bs_data bits ! nat i) = ones bits (64 * i) (64 * i + 64)"
proof -
  let ?w = "bs_data bits ! nat i"
  have "bits_of bits \<inter> {64 * i..<64 * i + 64} = (\<lambda>j. 64 * i + int j) ` {j. j < 64 \<and> bit ?w j}"
  proof (intro set_eqI iffI)
    fix k assume k: "k \<in> bits_of bits \<inter> {64 * i..<64 * i + 64}"
    define j where "j = nat (k - 64 * i)"
    with k have j: "k = 64 * i + int j" "j < 64" by auto
    with k assms have "bit ?w j" by (auto simp: bits_of_def test_in_word)
    with j show "k \<in> (\<lambda>j. 64 * i + int j) ` {j. j < 64 \<and> bit ?w j}" by blast
  qed (use assms in \<open>auto simp: bits_of_def test_in_word\<close>)
  then show ?thesis
    by (simp add: ones_def builtin_popcountl_def filter_bit_eq_card card_image inj_on_def)
qed

lemma BitSet_get_count:
  assumes "bs_wf bits" "0 \<le> b" "b \<le> e" "e \<le> bs_count bits"
  shows "BitSet__get_count bits b e = Inr (int (card (bits_of bits \<inter> {b..<e})))"
proof -
  let ?fb = "(b + 63) div 64 * 64" and ?fe = "e div 64 * 64"
  let ?words = "\<lambda>c. for_s64 (?fb div 64) (?fe div 64)
      (\<lambda>i count. bindR (idxR (bs_data bits) i) (\<lambda>w. Inr (count + builtin_popcountl w))) c"
  have "BitSet__get_count bits b e = Inr (ones bits b e)"
  proof (cases "?fb \<ge> ?fe")
    case True
    with assms show ?thesis by (simp add: BitSet__get_count_def range_setup count_bits_loop_eq)
  next
    case False
    then have le: "b \<le> ?fb" "?fb \<le> ?fe" "?fe \<le> e" using fast_bounds [of b e] by auto
    have step: "ones bits ?fb (64 * i) + builtin_popcountl (bs_data bits ! nat i)
        = ones bits ?fb (64 * (i + 1)) \<and> 0 \<le> i \<and> i < int (length (bs_data bits))"
      if "?fb div 64 \<le> i" "i < ?fe div 64" for i
    proof -
      have "0 \<le> i" "64 * i + 64 \<le> bs_count bits" "?fb \<le> 64 * i"
        using that le assms by auto
      then show ?thesis
        using ones_split [of ?fb "64 * i" "64 * i + 64" bits] popcountl_ones [OF assms(1)] assms(1)
        by (auto simp: bs_wf_def algebra_simps)
    qed
    have "\<exists>r. ?words c = Inr r \<and> r = c + ones bits ?fb (64 * (?fe div 64))" for c
    proof (rule for_s64_rule [where I = "\<lambda>i r. r = c + ones bits ?fb (64 * i)"])
      fix i r assume "?fb div 64 \<le> i" "i < ?fe div 64" "r = c + ones bits ?fb (64 * i)"
      then show "\<exists>r'. bindR (idxR (bs_data bits) i) (\<lambda>w. Inr (r + builtin_popcountl w)) = Inr r'
          \<and> r' = c + ones bits ?fb (64 * (i + 1))"
        using step [of i] by simp
    qed (use False in \<open>simp_all add: mult.commute\<close>)
    then have "?words c = Inr (c + ones bits ?fb ?fe)" for c by (auto simp: mult.commute)
    then show ?thesis
      using False assms le ones_split [of b ?fb e bits] ones_split [of ?fb ?fe e bits]
      by (simp add: BitSet__get_count_def range_setup count_bits_loop_eq)
  qed
  then show ?thesis by (simp add: ones_def)
qed

section \<open>Storing ranges\<close>

definition put :: "bool \<Rightarrow> int set \<Rightarrow> int set \<Rightarrow> int set" where
  "put v X Y = (if v then Y \<union> X else Y - X)"

lemma put_put: "put v X (put v X' Y) = put v (X' \<union> X) Y"
  by (auto simp: put_def)

lemma put_empty [simp]: "put v {} Y = Y"
  by (simp add: put_def)

definition same_shape :: "BitSet \<Rightarrow> BitSet \<Rightarrow> bool" where
  "same_shape bits bits' \<longleftrightarrow> bs_wf bits' \<and> bs_count bits' = bs_count bits
     \<and> length (bs_data bits') = length (bs_data bits)"

lemma set_loop_eq:
  assumes "bs_wf bits" "0 \<le> b" "b \<le> e" "e \<le> bs_count bits"
  shows "\<exists>bits'. for_s64 b e (\<lambda>i bits. BitSet__set bits i v) bits = Inr bits'
           \<and> same_shape bits bits' \<and> bits_of bits' = put v {b..<e} (bits_of bits)"
proof (rule for_s64_rule [where I = "\<lambda>i bits'. same_shape bits bits'
         \<and> bits_of bits' = put v {b..<i} (bits_of bits)"])
  fix i t assume i: "b \<le> i" "i < e"
    and t: "same_shape bits t \<and> bits_of t = put v {b..<i} (bits_of bits)"
  have "{b..<i + 1} = insert i {b..<i}" using i by auto
  then show "\<exists>t'. BitSet__set t i v = Inr t' \<and> same_shape bits t'
               \<and> bits_of t' = put v {b..<i + 1} (bits_of bits)"
    using t i assms BitSet_set [of t i v] by (auto simp: same_shape_def put_def)
qed (use assms in \<open>auto simp: same_shape_def\<close>)

lemma word_block: "0 \<le> n \<Longrightarrow> {i. i div 64 = n} = {64 * n..<64 * n + 64}" for n :: int
  by auto

lemma store_loop_eq:
  assumes "bs_wf bits" "0 \<le> m" "m \<le> n" "64 * n \<le> bs_count bits"
  shows "\<exists>bits'. for_s64 m n (store_word v) bits = Inr bits'
           \<and> same_shape bits bits' \<and> bits_of bits' = put v {64 * m..<64 * n} (bits_of bits)"
proof (rule for_s64_rule [where I = "\<lambda>i bits'. same_shape bits bits'
         \<and> bits_of bits' = put v {64 * m..<64 * i} (bits_of bits)"])
  fix i t assume i: "m \<le> i" "i < n"
    and t: "same_shape bits t \<and> bits_of t = put v {64 * m..<64 * i} (bits_of bits)"
  have len: "i < int (length (bs_data t))" using i t assms by (auto simp: same_shape_def bs_wf_def)
  have "{64 * m..<64 * (i + 1)} = {64 * m..<64 * i} \<union> {j. j div 64 = i}"
    using i assms by (subst word_block) auto
  moreover have "{j. j div 64 = i \<and> 0 \<le> j \<and> j < bs_count t} = {j. j div 64 = i}"
    using i t assms by (auto simp: same_shape_def)
  ultimately show "\<exists>t'. store_word v i t = Inr t' \<and> same_shape bits t'
               \<and> bits_of t' = put v {64 * m..<64 * (i + 1)} (bits_of bits)"
    using t i len assms store_word [of t i v] by (auto simp: same_shape_def put_def)
qed (use assms in \<open>auto simp: same_shape_def\<close>)

lemma same_shape_trans: "same_shape a b \<Longrightarrow> same_shape b c \<Longrightarrow> same_shape a c"
  by (simp add: same_shape_def)

lemma BitSet_set_range:
  assumes "bs_wf bits" "0 \<le> b" "b \<le> e" "e \<le> bs_count bits"
  shows "\<exists>bits'. BitSet__set_range bits b e v = Inr bits' \<and> same_shape bits bits'
           \<and> bits_of bits' = put v {b..<e} (bits_of bits)"
proof -
  let ?fb = "(b + 63) div 64 * 64" and ?fe = "e div 64 * 64"
  show ?thesis
  proof (cases "?fb \<ge> ?fe")
    case True
    with assms set_loop_eq [OF assms, of v] show ?thesis
      by (simp add: BitSet__set_range_def range_setup)
  next
    case False
    then have le: "b \<le> ?fb" "?fb \<le> ?fe" "?fe \<le> e" using fast_bounds [of b e] by auto
    obtain b1 where 1: "for_s64 b ?fb (\<lambda>i bits. BitSet__set bits i v) bits = Inr b1"
      "same_shape bits b1" "bits_of b1 = put v {b..<?fb} (bits_of bits)"
      using set_loop_eq [of bits b ?fb v] assms le by auto
    obtain b2 where 2: "for_s64 (?fb div 64) (?fe div 64) (store_word v) b1 = Inr b2"
      "same_shape b1 b2" "bits_of b2 = put v {?fb..<?fe} (bits_of b1)"
      using store_loop_eq [of b1 "?fb div 64" "?fe div 64" v] 1(2) assms le
      by (auto simp: same_shape_def mult.commute)
    obtain b3 where 3: "for_s64 ?fe e (\<lambda>i bits. BitSet__set bits i v) b2 = Inr b3"
      "same_shape b2 b3" "bits_of b3 = put v {?fe..<e} (bits_of b2)"
      using set_loop_eq [of b2 ?fe e v] 1(2) 2(2) assms le by (auto simp: same_shape_def)
    have "{b..<?fb} \<union> {?fb..<?fe} \<union> {?fe..<e} = {b..<e}" using le by auto
    then have "bits_of b3 = put v {b..<e} (bits_of bits)"
      by (simp only: 1(3) 2(3) 3(3) put_put)
    then show ?thesis
      using False assms 1 2 3 by (auto simp: BitSet__set_range_def range_setup dest: same_shape_trans)
  qed
qed

lemma set_all_loop_eq:
  assumes "bs_wf bits" "0 \<le> i"
  shows "\<exists>bits'. set_all_loop v i (64 * i) bits = Inr bits' \<and> same_shape bits bits'
           \<and> bits_of bits' = put v {64 * i..<bs_count bits} (bits_of bits)"
  using assms
proof (induction "nat (bs_count bits - 64 * i)" arbitrary: i bits rule: less_induct)
  case less
  show ?case
  proof (cases "64 * i < bs_count bits")
    case True
    with less.prems have "i < int (length (bs_data bits))" by (auto simp: bs_wf_def)
    then obtain t where t: "store_word v i bits = Inr t" "bs_wf t" "bs_count t = bs_count bits"
      "length (bs_data t) = length (bs_data bits)"
      "bits_of t = (if v then bits_of bits \<union> {j. j div 64 = i \<and> 0 \<le> j \<and> j < bs_count bits}
                    else bits_of bits - {j. j div 64 = i})"
      using store_word less.prems by blast
    obtain t' where t': "set_all_loop v (i + 1) (64 * (i + 1)) t = Inr t'" "same_shape t t'"
      "bits_of t' = put v {64 * (i + 1)..<bs_count t} (bits_of t)"
      using less.hyps [of t "i + 1"] less.prems True t by auto
    have "bits_of t' = put v {64 * i..<bs_count bits} (bits_of bits)"
      using less.prems unfolding t'(3) t(3,5) put_def by (auto simp: bits_of_def)
    with True t t' show ?thesis
      by (auto simp: set_all_loop.simps [of v i] same_shape_def algebra_simps)
  next
    case False
    with less.prems show ?thesis by (simp add: set_all_loop.simps [of v i] same_shape_def)
  qed
qed

lemma BitSet_set_all:
  assumes "bs_wf bits"
  shows "\<exists>bits'. BitSet__set_all bits v = Inr bits' \<and> same_shape bits bits'
           \<and> bits_of bits' = (if v then {0..<bs_count bits} else {})"
proof -
  have "put v {0..<bs_count bits} (bits_of bits) = (if v then {0..<bs_count bits} else {})"
    by (auto simp: put_def bits_of_def)
  with set_all_loop_eq [OF assms, of 0 v] show ?thesis by (auto simp: BitSet__set_all_def)
qed

section \<open>The interface\<close>

text \<open>
  What a client of a bit set relies on: a container with a size and a set of members, whose
  operations succeed inside the size and act on the members as written. The derived facts
  are the ones the page allocator uses.
\<close>

locale bit_set =
  fixes inv :: "'b \<Rightarrow> bool"
    and size :: "'b \<Rightarrow> int"
    and members :: "'b \<Rightarrow> int set"
    and get :: "'b \<Rightarrow> int \<Rightarrow> bool result"
    and get_all :: "'b \<Rightarrow> int \<Rightarrow> int \<Rightarrow> bool result"
    and get_any :: "'b \<Rightarrow> int \<Rightarrow> int \<Rightarrow> bool result"
    and store :: "'b \<Rightarrow> int \<Rightarrow> bool \<Rightarrow> 'b result"
    and store_range :: "'b \<Rightarrow> int \<Rightarrow> int \<Rightarrow> bool \<Rightarrow> 'b result"
  assumes get: "inv b \<Longrightarrow> 0 \<le> i \<Longrightarrow> i < size b \<Longrightarrow> get b i = Inr (i \<in> members b)"
    and get_all: "inv b \<Longrightarrow> 0 \<le> l \<Longrightarrow> l \<le> u \<Longrightarrow> u \<le> size b \<Longrightarrow>
                    get_all b l u = Inr ({l..<u} \<subseteq> members b)"
    and get_any: "inv b \<Longrightarrow> 0 \<le> l \<Longrightarrow> l \<le> u \<Longrightarrow> u \<le> size b \<Longrightarrow>
                    get_any b l u = Inr ({l..<u} \<inter> members b \<noteq> {})"
    and store: "inv b \<Longrightarrow> 0 \<le> i \<Longrightarrow> i < size b \<Longrightarrow>
                  \<exists>b'. store b i v = Inr b' \<and> inv b' \<and> size b' = size b
                    \<and> members b' = put v {i} (members b)"
    and store_range: "inv b \<Longrightarrow> 0 \<le> l \<Longrightarrow> l \<le> u \<Longrightarrow> u \<le> size b \<Longrightarrow>
                  \<exists>b'. store_range b l u v = Inr b' \<and> inv b' \<and> size b' = size b
                    \<and> members b' = put v {l..<u} (members b)"
begin

lemma toggle:
  assumes "inv b" "0 \<le> i" "i < size b"
  shows "\<exists>b'. store b i (i \<notin> members b) = Inr b' \<and> inv b' \<and> size b' = size b
           \<and> (\<forall>j. j \<in> members b' \<longleftrightarrow> (if j = i then i \<notin> members b else j \<in> members b))"
  using store [OF assms, of "i \<notin> members b"] by (auto simp: put_def)

lemma range_filled:
  assumes "inv b" "0 \<le> l" "l \<le> u" "u \<le> size b" "store_range b l u True = Inr b'"
  shows "get_all b' l u = Inr True"
  using store_range [of b l u True] get_all [of b' l u] assms by (auto simp: put_def)

lemma range_cleared:
  assumes "inv b" "0 \<le> l" "l \<le> u" "u \<le> size b" "store_range b l u False = Inr b'"
  shows "get_any b' l u = Inr False"
  using store_range [of b l u False] get_any [of b' l u] assms by (auto simp: put_def)

lemma range_frame:
  assumes "inv b" "0 \<le> l" "l \<le> u" "u \<le> size b" "store_range b l u v = Inr b'"
    and "0 \<le> i" "i < size b" "i < l \<or> u \<le> i"
  shows "get b' i = get b i"
  using store_range [of b l u v] get [of b i] get [of b' i] assms by (auto simp: put_def)

end

interpretation bs: bit_set bs_wf bs_count bits_of BitSet__get BitSet__get_all BitSet__get_any
  BitSet__set BitSet__set_range
proof unfold_locales
  fix b i v assume "bs_wf b" "0 \<le> i" "i < bs_count b"
  then show "\<exists>b'. BitSet__set b i v = Inr b' \<and> bs_wf b' \<and> bs_count b' = bs_count b
               \<and> bits_of b' = put v {i} (bits_of b)"
    using BitSet_set [of b i v] by (auto simp: put_def)
next
  fix b l u v assume "bs_wf b" "0 \<le> l" "l \<le> u" "u \<le> bs_count b"
  then show "\<exists>b'. BitSet__set_range b l u v = Inr b' \<and> bs_wf b' \<and> bs_count b' = bs_count b
               \<and> bits_of b' = put v {l..<u} (bits_of b)"
    using BitSet_set_range [of b l u v] by (auto simp: same_shape_def)
qed (simp_all add: BitSet_get_all BitSet_get_any)

section \<open>Correctness of the bit set\<close>

text \<open>
  C25. Storing a value over a range sets or clears exactly the bits of that range and leaves
  every other bit, the size and the well-formedness of the set as they were, although whole
  words are stored at once in the middle of the range.
\<close>

theorem BitSet_set_range_correct:
  assumes "bs_wf b" "0 \<le> l" "l \<le> u" "u \<le> bs_count b"
  shows "\<exists>b'. BitSet__set_range b l u v = Inr b' \<and> bs_wf b' \<and> bs_count b' = bs_count b
           \<and> (\<forall>i. 0 \<le> i \<longrightarrow> i < bs_count b \<longrightarrow>
                BitSet__get b' i = (if l \<le> i \<and> i < u then Inr v else BitSet__get b i))"
proof -
  obtain b' where b': "BitSet__set_range b l u v = Inr b'" "bs_wf b'" "bs_count b' = bs_count b"
    "bits_of b' = put v {l..<u} (bits_of b)" using bs.store_range [OF assms] by blast
  then have "BitSet__get b' i = (if l \<le> i \<and> i < u then Inr v else BitSet__get b i)"
    if "0 \<le> i" "i < bs_count b" for i
    using bs.get [of b' i] bs.get [OF assms(1), of i] that by (auto simp: put_def)
  with b' show ?thesis by blast
qed

theorem BitSet_set_range_correct_witness:
  "\<exists>b'. BitSet__set_range \<lparr>bs_data = [0, 0, 0, 0], bs_count = 200\<rparr> 3 190 True = Inr b'
     \<and> BitSet__get b' 189 = Inr True \<and> BitSet__get b' 190 = Inr False"
proof -
  let ?b = "\<lparr>bs_data = [0, 0, 0, 0], bs_count = 200\<rparr>"
  have "bs_wf ?b" by (simp add: bs_wf_def)
  then obtain b' where "BitSet__set_range ?b 3 190 True = Inr b'"
    "\<forall>i. 0 \<le> i \<longrightarrow> i < bs_count ?b \<longrightarrow>
       BitSet__get b' i = (if 3 \<le> i \<and> i < 190 then Inr True else BitSet__get ?b i)"
    using BitSet_set_range_correct [of ?b 3 190 True] by auto
  moreover have "BitSet__get ?b 190 = Inr False" by (simp add: BitSet__get_def)
  ultimately show ?thesis by auto
qed

text \<open>
  The range queries agree with asking every bit: \<^verbatim>\<open>BitSet__get_all\<close> holds when every bit
  of the range is set, \<^verbatim>\<open>BitSet__get_any\<close> when one is, and \<^verbatim>\<open>BitSet__get_count\<close>
  is the number of set bits; outside the bit set all of them panic.
\<close>

theorem BitSet_range_queries_correct:
  assumes "bs_wf b"
  shows "if 0 \<le> l \<and> l \<le> u \<and> u \<le> bs_count b
         then BitSet__get_all b l u = Inr (\<forall>i\<in>{l..<u}. BitSet__get b i = Inr True)
            \<and> BitSet__get_any b l u = Inr (\<exists>i\<in>{l..<u}. BitSet__get b i = Inr True)
            \<and> BitSet__get_count b l u = Inr (int (card {i \<in> {l..<u}. BitSet__get b i = Inr True}))
         else (\<exists>m. BitSet__get_all b l u = Inl (Panic m) \<and> BitSet__get_any b l u = Inl (Panic m)
            \<and> BitSet__get_count b l u = Inl (Panic m))"
proof (cases "0 \<le> l \<and> l \<le> u \<and> u \<le> bs_count b")
  case True
  then have r: "0 \<le> l" "l \<le> u" "u \<le> bs_count b" by simp_all
  have get: "BitSet__get b i = Inr True \<longleftrightarrow> i \<in> bits_of b" if "i \<in> {l..<u}" for i
    using bs.get [OF assms, of i] that r by simp
  then have "{i \<in> {l..<u}. BitSet__get b i = Inr True} = bits_of b \<inter> {l..<u}" by auto
  then show ?thesis
    using True get BitSet_get_count [OF assms r] bs.get_all [OF assms r] bs.get_any [OF assms r] by auto
next
  case False
  then have "\<exists>m. check_range b l u = Inl (Panic m)"
    by (auto simp: check_range_def assertR_def)
  with False show ?thesis
    by (auto simp: BitSet__get_all_def BitSet__get_any_def BitSet__get_count_def)
qed

theorem BitSet_range_queries_correct_witness:
  "BitSet__get_all \<lparr>bs_data = [NOT 0, 0], bs_count = 128\<rparr> 0 65 =
     Inr (\<forall>i\<in>{0..<65}. BitSet__get \<lparr>bs_data = [NOT 0, 0], bs_count = 128\<rparr> i = Inr True)"
  using BitSet_range_queries_correct [of "\<lparr>bs_data = [NOT 0, 0], bs_count = 128\<rparr>" 0 65] by (simp add: bs_wf_def)

end
