(* ===== verification/Free_Lists.thy ===== *)
theory Free_Lists
  imports Bit_Set
begin

text \<open>
  The state of the page allocator and its free lists, from \<^verbatim>\<open>src/kern/memory.c\<close>.
  Physical memory is seen through the kernel's higher-half mapping: \<open>mem\<close> maps the
  address of an 8-byte word to its value. A free block stores its list node in its own first
  page: \<^verbatim>\<open>next\<close> at offset 0, \<^verbatim>\<open>prev\<close> at offset 8 and
  \<^verbatim>\<open>class\<close> at offset 16. The lemmas relate the doubly linked lists in memory to
  lists of page numbers and say which pages each operation writes.
\<close>

definition CLASS_COUNT :: nat where
  "CLASS_COUNT = 12"

record ClassInfo =
  freelist :: u64
  buddies :: BitSet

record BuddyInfo =
  buddy :: s64
  bitset_index :: s64

record memory =
  mem :: "u64 \<Rightarrow> u64"
  free_memory :: s64
  usable_pages :: BitSet
  free_pages :: BitSet
  classes :: "ClassInfo list"

section \<open>Addresses\<close>

definition KERNEL_SPACE_BEGIN :: u64 where
  "KERNEL_SPACE_BEGIN = 0xffff800000000000"

definition physical_address :: "u64 \<Rightarrow> u64 result" where
  "physical_address ptr =
     bindR (assertR (ptr \<ge> KERNEL_SPACE_BEGIN) ''address >= MEMORY__KERNEL_SPACE_BEGIN'')
       (\<lambda>_. Inr (ptr - KERNEL_SPACE_BEGIN))"

definition kernel_address :: "u64 \<Rightarrow> u64 result" where
  "kernel_address address =
     bindR (assertR (address < KERNEL_SPACE_BEGIN) ''address < MEMORY__KERNEL_SPACE_BEGIN'')
       (\<lambda>_. Inr (address + KERNEL_SPACE_BEGIN))"

definition kernel_ptr :: "u64 \<Rightarrow> u64 result" where
  "kernel_ptr address =
     bindR (assertR (address < KERNEL_SPACE_BEGIN) ''address < MEMORY__KERNEL_SPACE_BEGIN'')
       (\<lambda>_. Inr (address + KERNEL_SPACE_BEGIN))"

definition assert_aligned :: "s64 \<Rightarrow> nat \<Rightarrow> unit result" where
  "assert_aligned page cls =
     bindR (is_aligned (U64 page) (2 ^ cls)) (\<lambda>ok. assertR ok ''is_aligned(page, 1 << class)'')"

definition buddy_info :: "s64 \<Rightarrow> nat \<Rightarrow> BuddyInfo result" where
  "buddy_info page cls =
     bindR (assert_aligned page cls) (\<lambda>_.
     Inr \<lparr>buddy = page XOR 2 ^ cls, bitset_index = drop_bit (cls + 1) page\<rparr>)"

section \<open>List operations\<close>

definition set_freelist :: "memory \<Rightarrow> nat \<Rightarrow> u64 \<Rightarrow> memory" where
  "set_freelist s cls p = s\<lparr>classes := (classes s)[cls := (classes s ! cls)\<lparr>freelist := p\<rparr>]\<rparr>"

definition store :: "memory \<Rightarrow> u64 \<Rightarrow> u64 \<Rightarrow> memory" where
  "store s a v = s\<lparr>mem := (mem s)(a := v)\<rparr>"

definition pop_freelist :: "memory \<Rightarrow> nat \<Rightarrow> (u64 \<times> memory) result" where
  "pop_freelist s cls =
     bindR (assertR (cls < CLASS_COUNT) ''class < CLASS_COUNT'') (\<lambda>_.
     bindR (idxR (classes s) (int cls)) (\<lambda>info.
     let block = freelist info in
     bindR (assertR (block \<noteq> 0) ''block != NULL'') (\<lambda>_.
     bindR (assertR (sint (mem s (block + 16)) = int cls) ''block->class == class'') (\<lambda>_.
     bindR (assertR (mem s (block + 8) = 0) ''block->prev == NULL'') (\<lambda>_.
     let nxt = mem s block;
         s = set_freelist s cls nxt;
         s = (if nxt \<noteq> 0 then store s (nxt + 8) 0 else s)
     in Inr (block, s))))))"

definition remove_from_freelist :: "memory \<Rightarrow> s64 \<Rightarrow> nat \<Rightarrow> memory result" where
  "remove_from_freelist s page cls =
     bindR (assertR (cls < CLASS_COUNT) ''class < CLASS_COUNT'') (\<lambda>_.
     bindR (assert_aligned page cls) (\<lambda>_.
     bindR (kernel_ptr (U64 page * 4096)) (\<lambda>block.
     bindR (assertR (sint (mem s (block + 16)) = int cls) ''block->class == class'') (\<lambda>_.
     bindR (idxR (classes s) (int cls)) (\<lambda>info.
     let prev = mem s (block + 8); nxt = mem s block;
         s = (if nxt \<noteq> 0 then store s (nxt + 8) prev else s)
     in if prev \<noteq> 0 then Inr (store s prev nxt)
        else bindR (assertR (freelist info = block) ''false'') (\<lambda>_.
             Inr (set_freelist s cls nxt)))))))"

definition add_to_freelist :: "memory \<Rightarrow> s64 \<Rightarrow> nat \<Rightarrow> memory result" where
  "add_to_freelist s page cls =
     bindR (assertR (cls < CLASS_COUNT) ''class < CLASS_COUNT'') (\<lambda>_.
     bindR (assert_aligned page cls) (\<lambda>_.
     bindR (kernel_ptr (U64 page * 4096)) (\<lambda>block.
     bindR (idxR (classes s) (int cls)) (\<lambda>info.
     let s = store s (block + 16) (U64 (int cls));
         s = store s (block + 8) 0;
         s = store s block (freelist info);
         s = (if freelist info \<noteq> 0 then store s (freelist info + 8) block else s)
     in Inr (set_freelist s cls block)))))"

section \<open>Page addresses\<close>

definition page_ok :: "int \<Rightarrow> bool" where
  "page_ok x \<longleftrightarrow> 0 \<le> x \<and> x < 2 ^ 35"

definition page_ptr :: "int \<Rightarrow> u64" where
  "page_ptr x = U64 x * 4096 + KERNEL_SPACE_BEGIN"

definition page_addrs :: "int \<Rightarrow> u64 set" where
  "page_addrs x = {page_ptr x + U64 off | off. 0 \<le> off \<and> off < 4096}"

lemma page_word: "page_ok x \<Longrightarrow> U64 x * 4096 = U64 (x * 4096)"
  by simp

lemma uint_page_word: "page_ok x \<Longrightarrow> uint (U64 x * 4096) = x * 4096"
  using uint_word_of_int_small [of "x * 4096"] by (simp add: page_ok_def)

lemma page_off_eq: "page_ptr x + U64 off = U64 (x * 4096 + off + 0xffff800000000000)"
  by (simp add: page_ptr_def KERNEL_SPACE_BEGIN_def)

lemma uint_page_off:
  "page_ok x \<Longrightarrow> 0 \<le> off \<Longrightarrow> off < 4096 \<Longrightarrow>
   uint (page_ptr x + U64 off) = x * 4096 + off + 0xffff800000000000"
  unfolding page_off_eq by (rule uint_word_of_int_small) (auto simp: page_ok_def)

lemma page_off_inject:
  assumes "page_ok x" "page_ok y" "0 \<le> a" "a < 4096" "0 \<le> b" "b < 4096"
  shows "page_ptr x + U64 a = page_ptr y + U64 b \<longleftrightarrow> x = y \<and> a = b"
proof
  assume "page_ptr x + U64 a = page_ptr y + U64 b"
  then have eq: "x * 4096 + a = y * 4096 + b" using assms by (metis add_right_cancel uint_page_off)
  moreover have "(x * 4096 + a) div 4096 = x" "(y * 4096 + b) div 4096 = y" using assms by simp_all
  ultimately have "x = y" by metis
  with eq show "x = y \<and> a = b" by simp
qed simp

lemmas page_off_cases =
  page_off_inject [where a = 0 and b = 0, simplified]
  page_off_inject [where a = 0 and b = 8, simplified]
  page_off_inject [where a = 0 and b = 16, simplified]
  page_off_inject [where a = 8 and b = 0, simplified]
  page_off_inject [where a = 8 and b = 8, simplified]
  page_off_inject [where a = 8 and b = 16, simplified]
  page_off_inject [where a = 16 and b = 0, simplified]
  page_off_inject [where a = 16 and b = 8, simplified]
  page_off_inject [where a = 16 and b = 16, simplified]

lemma page_ptr_nonzero: "page_ok x \<Longrightarrow> page_ptr x \<noteq> 0"
  using uint_page_off [of x 0] by (auto simp: page_ok_def)

lemma kernel_ptr_page: "page_ok x \<Longrightarrow> kernel_ptr (U64 x * 4096) = Inr (page_ptr x)"
proof -
  assume "page_ok x"
  then have "U64 x * 4096 < KERNEL_SPACE_BEGIN"
    unfolding word_less_def uint_page_word [OF \<open>page_ok x\<close>]
    by (simp add: KERNEL_SPACE_BEGIN_def page_ok_def)
  then show ?thesis by (simp add: kernel_ptr_def page_ptr_def)
qed

lemma physical_address_page: "page_ok x \<Longrightarrow> physical_address (page_ptr x) = Inr (U64 (x * 4096))"
proof -
  assume "page_ok x"
  then have "KERNEL_SPACE_BEGIN \<le> page_ptr x"
    using uint_page_off [of x 0] by (simp add: word_le_def KERNEL_SPACE_BEGIN_def page_ok_def)
  then show ?thesis by (simp add: physical_address_def page_ptr_def)
qed

lemma page_addrs_disjoint:
  "page_ok x \<Longrightarrow> page_ok y \<Longrightarrow> x \<noteq> y \<Longrightarrow> page_addrs x \<inter> page_addrs y = {}"
  by (auto simp: page_addrs_def page_off_inject)

lemma in_page_addrs [simp]:
  "page_ptr x \<in> page_addrs x" "page_ptr x + 8 \<in> page_addrs x" "page_ptr x + 16 \<in> page_addrs x"
  unfolding page_addrs_def mem_Collect_eq
  by (rule exI [of _ 0], simp, rule exI [of _ 8], simp, rule exI [of _ 16], simp)

section \<open>Doubly linked lists in memory\<close>

text \<open>
  \<open>dseg m c pr p xs e\<close>: from pointer \<open>p\<close> the \<open>next\<close> fields run through the
  pages \<open>xs\<close> to the pointer \<open>e\<close>; the \<open>prev\<close> fields run back to \<open>pr\<close>, and
  every node has class \<open>c\<close>.
\<close>

fun dseg :: "(u64 \<Rightarrow> u64) \<Rightarrow> nat \<Rightarrow> u64 \<Rightarrow> u64 \<Rightarrow> int list \<Rightarrow> u64 \<Rightarrow> bool" where
  "dseg m c pr p [] e \<longleftrightarrow> p = e"
| "dseg m c pr p (x # xs) e \<longleftrightarrow>
     p = page_ptr x \<and> m (page_ptr x + 8) = pr \<and> sint (m (page_ptr x + 16)) = int c
     \<and> dseg m c (page_ptr x) (m (page_ptr x)) xs e"

definition lastp :: "u64 \<Rightarrow> int list \<Rightarrow> u64" where
  "lastp pr xs = (if xs = [] then pr else page_ptr (last xs))"

lemma lastp_simps [simp]: "lastp pr [] = pr" "lastp pr (x # xs) = lastp (page_ptr x) xs"
  by (auto simp: lastp_def)

lemma dseg_append: "dseg m c pr p (xs @ ys) e \<longleftrightarrow> (\<exists>q. dseg m c pr p xs q \<and> dseg m c (lastp pr xs) q ys e)"
  by (induction xs arbitrary: pr p) auto

lemma dseg_mem_cong:
  assumes "\<And>x a. x \<in> set xs \<Longrightarrow> a \<in> page_addrs x \<Longrightarrow> m' a = m a"
  shows "dseg m' c pr p xs e = dseg m c pr p xs e"
  using assms
proof (induction xs arbitrary: pr p)
  case (Cons x xs)
  have "m' a = m a" if "a \<in> page_addrs x" for a using Cons.prems [of x a] that by simp
  then have "m' (page_ptr x) = m (page_ptr x)" "m' (page_ptr x + 8) = m (page_ptr x + 8)"
    "m' (page_ptr x + 16) = m (page_ptr x + 16)" by simp_all
  moreover have "dseg m' c q r xs e = dseg m c q r xs e" for q r
    using Cons.prems by (intro Cons.IH) auto
  ultimately show ?case by simp
qed simp

lemma dseg_upd:
  assumes "\<forall>x\<in>set xs. page_ok x" "page_ok y" "y \<notin> set xs" "a \<in> page_addrs y"
  shows "dseg (m(a := v)) c pr p xs e = dseg m c pr p xs e"
proof (rule dseg_mem_cong)
  fix x b assume "x \<in> set xs" "b \<in> page_addrs x"
  then have "b \<noteq> a" using assms page_addrs_disjoint [of x y] by blast
  then show "(m(a := v)) b = m b" by simp
qed

text \<open>Storing the head's \<open>prev\<close> field, and the last node's \<open>next\<close> field.\<close>

lemma dseg_set_prev:
  assumes "dseg m c pr p xs 0" "distinct xs" "\<forall>x\<in>set xs. page_ok x"
  shows "dseg (if p \<noteq> 0 then m(p + 8 := q) else m) c q p xs 0"
proof (cases xs)
  case (Cons z zs)
  then have "dseg (m(page_ptr z + 8 := q)) c r t zs 0 = dseg m c r t zs 0" for r t
    using assms by (intro dseg_upd) auto
  with Cons assms show ?thesis by (auto simp: page_off_cases page_ptr_nonzero)
qed (use assms in simp)

lemma dseg_set_next:
  assumes "dseg m c pr p xs e" "xs \<noteq> []" "distinct xs" "\<forall>x\<in>set xs. page_ok x"
  shows "dseg (m(page_ptr (last xs) := e')) c pr p xs e'"
proof -
  obtain ys y where xs: "xs = ys @ [y]" using assms(2) by (metis rev_exhaust)
  have "dseg (m(page_ptr y := e')) c pr p ys q = dseg m c pr p ys q" for q
    using assms xs by (intro dseg_upd) auto
  with assms xs show ?thesis by (auto simp: dseg_append page_off_cases)
qed

lemma dseg_head: "dseg m c pr p xs 0 \<Longrightarrow> \<forall>x\<in>set xs. page_ok x \<Longrightarrow> p = 0 \<longleftrightarrow> xs = []"
  by (cases xs) (auto simp: page_ptr_nonzero)

text \<open>Pushing, popping and unlinking, on the memory alone.\<close>

lemma dseg_push:
  assumes "dseg m c 0 p xs 0" "distinct (y # xs)" "\<forall>x\<in>set (y # xs). page_ok x" "c < 12"
  shows "dseg ((if p \<noteq> 0 then (\<lambda>m. m(p + 8 := page_ptr y)) else id)
                (m(page_ptr y + 16 := U64 (int c), page_ptr y + 8 := 0, page_ptr y := p)))
           c 0 (page_ptr y) (y # xs) 0"
proof -
  let ?m = "m(page_ptr y + 16 := U64 (int c), page_ptr y + 8 := 0, page_ptr y := p)"
  have "dseg ?m c 0 p xs 0 = dseg m c 0 p xs 0"
  proof (rule dseg_mem_cong)
    fix x a assume "x \<in> set xs" "a \<in> page_addrs x"
    then have "a \<notin> page_addrs y" using assms page_addrs_disjoint [of x y] by auto
    then have "a \<noteq> page_ptr y" "a \<noteq> page_ptr y + 8" "a \<noteq> page_ptr y + 16" by auto
    then show "?m a = m a" by simp
  qed
  with assms(1) have m: "dseg ?m c 0 p xs 0" by simp
  have cls: "sint (U64 (int c)) = int c"
    using assms(4) uint_word_of_int_small [of "int c"] sint_eq_uint_small [of "U64 (int c)"] by simp
  have "dseg (if p \<noteq> 0 then ?m(p + 8 := page_ptr y) else ?m) c (page_ptr y) p xs 0"
    using assms by (intro dseg_set_prev [OF m]) auto
  moreover have "page_ptr y + k \<noteq> p + 8" if "p \<noteq> 0" "k = 0 \<or> k = 8 \<or> k = 16" for k
  proof -
    from \<open>p \<noteq> 0\<close> assms obtain z zs where "xs = z # zs" "p = page_ptr z" by (cases xs) auto
    with that assms show ?thesis by (auto simp: page_off_cases)
  qed
  note this [of 0, simplified] this [of 8, simplified] this [of 16, simplified]
  ultimately show ?thesis
    using assms cls by (cases "p = 0") (auto simp: page_off_cases)
qed

lemma dseg_unlink:
  fixes m :: "u64 \<Rightarrow> u64"
  assumes "dseg m c 0 p (xs @ y # zs) 0" "distinct (xs @ y # zs)" "\<forall>x\<in>set (xs @ y # zs). page_ok x"
    and "nx = m (page_ptr y)" "pv = m (page_ptr y + 8)"
    and "m1 = (if nx \<noteq> 0 then m(nx + 8 := pv) else m)"
  shows "xs = [] \<Longrightarrow> pv = 0 \<and> p = page_ptr y \<and> dseg m1 c 0 nx zs 0"
    and "xs \<noteq> [] \<Longrightarrow> pv = page_ptr (last xs) \<and> pv \<noteq> 0 \<and> dseg (m1(pv := nx)) c 0 p (xs @ zs) 0"
proof -
  from assms(1) obtain q where q: "dseg m c 0 p xs q" "q = page_ptr y"
    "pv = lastp 0 xs" "dseg m c (page_ptr y) nx zs 0"
    using assms(4,5) by (auto simp: dseg_append)
  have zs: "dseg m1 c pv nx zs 0"
    unfolding assms(6) by (rule dseg_set_prev [OF q(4)]) (use assms in auto)
  show "xs = [] \<Longrightarrow> pv = 0 \<and> p = page_ptr y \<and> dseg m1 c 0 nx zs 0"
    using q zs by simp
  assume "xs \<noteq> []"
  then have pv: "pv = page_ptr (last xs)" using q by (simp add: lastp_def)
  have l: "last xs \<in> set xs" using \<open>xs \<noteq> []\<close> by simp
  have "dseg m1 c 0 p xs q"
  proof (cases "nx = 0")
    case False
    then obtain z zs' where "zs = z # zs'" "nx = page_ptr z" using q(4) by (cases zs) auto
    moreover from this have "m1 = m(page_ptr z + 8 := pv)" using False assms(6) by simp
    ultimately show ?thesis
      using q(1) assms(2,3) by (simp only:) (subst dseg_upd [where y = z], auto)
  qed (use q assms in simp)
  then have "dseg (m1(pv := nx)) c 0 p xs nx"
    unfolding pv using \<open>xs \<noteq> []\<close> assms by (intro dseg_set_next) auto
  moreover have "dseg (m1(pv := nx)) c pv nx zs 0"
    using zs by (subst dseg_upd [where y = "last xs"]) (use l pv assms(2,3) in auto)
  ultimately have "dseg (m1(pv := nx)) c 0 p (xs @ zs) 0"
    unfolding dseg_append using \<open>xs \<noteq> []\<close> pv by (auto simp: lastp_def)
  then show "pv = page_ptr (last xs) \<and> pv \<noteq> 0 \<and> dseg (m1(pv := nx)) c 0 p (xs @ zs) 0"
    using pv l assms by (auto simp: page_ptr_nonzero)
qed

section \<open>The lists of all classes\<close>

text \<open>
  \<open>lists s fl\<close>: the free list of every class \<open>c\<close> is the list \<open>fl c\<close> of pages, and
  no page is on two lists. \<open>frame P s s'\<close>: \<open>s'\<close> differs from \<open>s\<close> only in
  list heads and in the memory of the pages \<open>P\<close>.
\<close>

definition lists :: "memory \<Rightarrow> (nat \<Rightarrow> int list) \<Rightarrow> bool" where
  "lists s fl \<longleftrightarrow> length (classes s) = CLASS_COUNT
     \<and> (\<forall>c<CLASS_COUNT. dseg (mem s) c 0 (freelist (classes s ! c)) (fl c) 0
          \<and> distinct (fl c) \<and> (\<forall>x\<in>set (fl c). page_ok x)
          \<and> (\<forall>d<CLASS_COUNT. c \<noteq> d \<longrightarrow> set (fl c) \<inter> set (fl d) = {}))"

definition heads :: "(nat \<Rightarrow> int list) \<Rightarrow> int set" where
  "heads fl = (\<Union>c<CLASS_COUNT. set (fl c))"

definition frame :: "int set \<Rightarrow> memory \<Rightarrow> memory \<Rightarrow> bool" where
  "frame P s s' \<longleftrightarrow> free_memory s' = free_memory s \<and> usable_pages s' = usable_pages s
     \<and> free_pages s' = free_pages s \<and> map buddies (classes s') = map buddies (classes s)
     \<and> (\<forall>a. (\<forall>x\<in>P. a \<notin> page_addrs x) \<longrightarrow> mem s' a = mem s a)"

lemma frame_trans: "frame P s t \<Longrightarrow> frame Q t u \<Longrightarrow> P \<union> Q \<subseteq> R \<Longrightarrow> frame R s u"
  unfolding frame_def by (auto simp: subset_iff)

lemma class_less: "c < CLASS_COUNT \<longleftrightarrow> c < 12"
  by (simp add: CLASS_COUNT_def)

lemma aligned_page:
  assumes "page_ok x" "2 ^ c dvd x" "c < CLASS_COUNT"
  shows "assert_aligned x c = Inr ()"
  using assms uint_word_of_int_small [of x]
  by (simp add: assert_aligned_def class_less page_ok_def is_aligned_pow2)

lemma lists_upd:
  assumes old: "lists s fl" and c: "c < CLASS_COUNT" and y: "\<forall>x\<in>set ys. page_ok x" "distinct ys"
    and fresh: "\<forall>d<CLASS_COUNT. d \<noteq> c \<longrightarrow> set ys \<inter> set (fl d) = {}"
    and new: "dseg (mem s') c 0 (freelist (classes s' ! c)) ys 0"
    and len: "length (classes s') = length (classes s)"
    and other: "\<And>d. d < CLASS_COUNT \<Longrightarrow> d \<noteq> c \<Longrightarrow> freelist (classes s' ! d) = freelist (classes s ! d)"
    and same: "\<And>d x a. d < CLASS_COUNT \<Longrightarrow> d \<noteq> c \<Longrightarrow> x \<in> set (fl d) \<Longrightarrow> a \<in> page_addrs x
                 \<Longrightarrow> mem s' a = mem s a"
  shows "lists s' (fl(c := ys))"
proof -
  have "dseg (mem s') d 0 (freelist (classes s' ! d)) (fl d) 0" if "d < CLASS_COUNT" "d \<noteq> c" for d
  proof -
    have "dseg (mem s') d 0 (freelist (classes s ! d)) (fl d) 0
        = dseg (mem s) d 0 (freelist (classes s ! d)) (fl d) 0"
      by (rule dseg_mem_cong) (use same that in blast)
    with that old other show ?thesis by (simp add: lists_def)
  qed
  with assms show ?thesis unfolding lists_def by auto
qed

lemma lists_classD:
  assumes "lists s fl" "c < CLASS_COUNT"
  shows "dseg (mem s) c 0 (freelist (classes s ! c)) (fl c) 0" "distinct (fl c)"
    "\<forall>x\<in>set (fl c). page_ok x" "length (classes s) = CLASS_COUNT"
    "\<And>d. d < CLASS_COUNT \<Longrightarrow> d \<noteq> c \<Longrightarrow> set (fl c) \<inter> set (fl d) = {}"
  using assms by (auto simp: lists_def)

lemma freelist_empty_iff:
  "lists s fl \<Longrightarrow> c < CLASS_COUNT \<Longrightarrow> freelist (classes s ! c) = 0 \<longleftrightarrow> fl c = []"
  using dseg_head lists_classD by blast

lemma set_freelist_simps [simp]:
  "mem (set_freelist s c p) = mem s" "free_memory (set_freelist s c p) = free_memory s"
  "usable_pages (set_freelist s c p) = usable_pages s"
  "free_pages (set_freelist s c p) = free_pages s"
  "length (classes (set_freelist s c p)) = length (classes s)"
  by (auto simp: set_freelist_def)

lemma buddies_set_freelist [simp]:
  "map buddies (classes (set_freelist s c p)) = map buddies (classes s)"
proof (cases "c < length (classes s)")
  case True
  then have "(map buddies (classes s))[c := buddies (classes s ! c)] = map buddies (classes s)"
    by (metis list_update_id nth_map)
  then show ?thesis by (simp add: set_freelist_def map_update)
qed (simp add: set_freelist_def not_less list_update_beyond)

lemma freelist_set_freelist:
  "c < length (classes s) \<Longrightarrow> d < length (classes s) \<Longrightarrow>
   freelist (classes (set_freelist s c p) ! d) = (if d = c then p else freelist (classes s ! d))"
  by (simp add: set_freelist_def)

lemma store_simps [simp]:
  "mem (store s a v) = (mem s)(a := v)" "free_memory (store s a v) = free_memory s"
  "usable_pages (store s a v) = usable_pages s" "free_pages (store s a v) = free_pages s"
  "classes (store s a v) = classes s"
  by (simp_all add: store_def)

lemma in_headsI: "c < CLASS_COUNT \<Longrightarrow> x \<in> set (fl c) \<Longrightarrow> x \<in> heads fl"
  by (auto simp: heads_def)

text \<open>A store into page \<open>y\<close> of class \<open>c\<close> is not seen by the lists of other classes.\<close>

lemma other_page:
  assumes "lists s fl" "page_ok y" "\<forall>d<CLASS_COUNT. d \<noteq> c \<longrightarrow> y \<notin> set (fl d)"
    and "d < CLASS_COUNT" "d \<noteq> c" "x \<in> set (fl d)" "a \<in> page_addrs x" "b \<in> page_addrs y"
  shows "a \<noteq> b"
  using assms page_addrs_disjoint [of x y] lists_classD(3) [of s fl d] by blast

lemma add_to_freelist_spec:
  assumes l: "lists s fl" and c: "c < CLASS_COUNT" and y: "page_ok y" "2 ^ c dvd y" "y \<notin> heads fl"
  shows "\<exists>s'. add_to_freelist s y c = Inr s' \<and> lists s' (fl(c := y # fl c))
           \<and> frame (insert y (heads fl)) s s'"
proof -
  let ?p = "freelist (classes s ! c)"
  define m where "m = (if ?p \<noteq> 0 then (\<lambda>m. m(?p + 8 := page_ptr y)) else id)
      ((mem s)(page_ptr y + 16 := U64 (int c), page_ptr y + 8 := 0, page_ptr y := ?p))"
  define s' where "s' = set_freelist (s\<lparr>mem := m\<rparr>) c (page_ptr y)"
  note cl = lists_classD [OF l c]
  have run: "add_to_freelist s y c = Inr s'"
    using c y(1,2) cl(4) aligned_page kernel_ptr_page
    by (simp add: add_to_freelist_def s'_def m_def Let_def store_def)
  have hd: "\<exists>z\<in>set (fl c). ?p = page_ptr z" if "?p \<noteq> 0"
    using cl(1) that by (cases "fl c") auto
  have touched: "m a = mem s a" if out: "a \<notin> page_addrs y" "\<forall>z\<in>set (fl c). a \<notin> page_addrs z" for a
  proof -
    have "a \<noteq> page_ptr y" "a \<noteq> page_ptr y + 8" "a \<noteq> page_ptr y + 16" using out by auto
    moreover have "a \<noteq> ?p + 8" if "?p \<noteq> 0" using hd [OF that] out by auto
    ultimately show ?thesis by (simp add: m_def)
  qed
  have "lists s' (fl(c := y # fl c))"
  proof (rule lists_upd [OF l c])
    have "y \<notin> set (fl c)" using y(3) in_headsI [OF c] by blast
    then have "dseg m c 0 (page_ptr y) (y # fl c) 0"
      unfolding m_def using cl y(1) c by (intro dseg_push) (auto simp: class_less)
    moreover have "mem s' = m" "freelist (classes s' ! c) = page_ptr y"
      using cl(4) c by (simp_all add: s'_def freelist_set_freelist)
    ultimately show "dseg (mem s') c 0 (freelist (classes s' ! c)) (y # fl c) 0" by simp
  next
    fix d x a assume dxa: "d < CLASS_COUNT" "d \<noteq> c" "x \<in> set (fl d)" "a \<in> page_addrs x"
    have "page_addrs x \<inter> page_addrs z = {}" if "z = y \<or> z \<in> set (fl c)" for z
      using that y dxa cl(3,5) lists_classD(3) [OF l dxa(1)] in_headsI
      by (intro page_addrs_disjoint) blast+
    then show "mem s' a = mem s a" using dxa(4) touched [of a] by (auto simp: s'_def)
  qed (use cl y c in \<open>auto simp: s'_def freelist_set_freelist heads_def\<close>)
  moreover have "frame (insert y (heads fl)) s s'"
    using touched in_headsI [OF c] by (auto simp: frame_def s'_def)
  ultimately show ?thesis using run by blast
qed

lemma pop_freelist_spec:
  assumes l: "lists s fl" and c: "c < CLASS_COUNT" and fl: "fl c = x # xs"
  shows "\<exists>s'. pop_freelist s c = Inr (page_ptr x, s') \<and> lists s' (fl(c := xs)) \<and> frame (heads fl) s s'"
proof -
  note cl = lists_classD [OF l c]
  let ?n = "mem s (page_ptr x)"
  define m where "m = (if ?n \<noteq> 0 then (mem s)(?n + 8 := 0) else mem s)"
  define s' where "s' = set_freelist (s\<lparr>mem := m\<rparr>) c ?n"
  have seg: "freelist (classes s ! c) = page_ptr x" "mem s (page_ptr x + 8) = 0"
    "sint (mem s (page_ptr x + 16)) = int c" "dseg (mem s) c (page_ptr x) ?n xs 0"
    using cl(1) fl by auto
  have run: "pop_freelist s c = Inr (page_ptr x, s')"
    using c cl(3,4) fl seg page_ptr_nonzero [of x]
    by (simp add: pop_freelist_def s'_def m_def Let_def store_def set_freelist_def)
  have touched: "m a = mem s a" if out: "\<forall>z\<in>set (fl c). a \<notin> page_addrs z" for a
  proof -
    have "a \<noteq> ?n + 8" if "?n \<noteq> 0"
      using seg(4) that out fl by (cases xs) auto
    then show ?thesis by (simp add: m_def)
  qed
  have "lists s' (fl(c := xs))"
  proof (rule lists_upd [OF l c])
    show "dseg (mem s') c 0 (freelist (classes s' ! c)) xs 0"
      using dseg_set_prev [OF seg(4), of 0] cl fl c
      by (simp add: s'_def m_def freelist_set_freelist)
  next
    fix d z a assume dza: "d < CLASS_COUNT" "d \<noteq> c" "z \<in> set (fl d)" "a \<in> page_addrs z"
    have "page_addrs z \<inter> page_addrs w = {}" if "w \<in> set (fl c)" for w
      using that dza cl(3,5) lists_classD(3) [OF l dza(1)] by (intro page_addrs_disjoint) blast+
    then show "mem s' a = mem s a" using dza(4) touched [of a] by (auto simp: s'_def)
  qed (use cl fl c in \<open>auto simp: s'_def freelist_set_freelist\<close>)
  moreover have "frame (heads fl) s s'"
    using touched in_headsI [OF c] by (auto simp: frame_def s'_def)
  ultimately show ?thesis using run by blast
qed

lemma remove_from_freelist_spec:
  assumes l: "lists s fl" and c: "c < CLASS_COUNT" and y: "y \<in> set (fl c)" "2 ^ c dvd y"
  shows "\<exists>s'. remove_from_freelist s y c = Inr s' \<and> lists s' (fl(c := remove1 y (fl c)))
           \<and> frame (heads fl) s s'"
proof -
  note cl = lists_classD [OF l c]
  obtain xs zs where fl: "fl c = xs @ y # zs" using y(1) by (meson split_list)
  then have ys: "remove1 y (fl c) = xs @ zs" using cl(2) by (simp add: remove1_append)
  let ?p = "freelist (classes s ! c)" and ?nx = "mem s (page_ptr y)" and ?pv = "mem s (page_ptr y + 8)"
  define m1 where "m1 = (if ?nx \<noteq> 0 then (mem s)(?nx + 8 := ?pv) else mem s)"
  have un: "xs = [] \<Longrightarrow> ?pv = 0 \<and> ?p = page_ptr y \<and> dseg m1 c 0 ?nx zs 0"
    "xs \<noteq> [] \<Longrightarrow> ?pv = page_ptr (last xs) \<and> ?pv \<noteq> 0 \<and> dseg (m1(?pv := ?nx)) c 0 ?p (xs @ zs) 0"
    using dseg_unlink [of "mem s" c ?p xs y zs ?nx ?pv m1] cl fl m1_def by auto
  define s' where "s' = (if xs = [] then set_freelist (s\<lparr>mem := m1\<rparr>) c ?nx
                         else s\<lparr>mem := m1(?pv := ?nx)\<rparr>)"
  have seg: "sint (mem s (page_ptr y + 16)) = int c" "dseg (mem s) c (page_ptr y) ?nx zs 0"
    using cl(1) fl by (auto simp: dseg_append)
  have ok: "page_ok y" using cl(3) y by blast
  have run: "remove_from_freelist s y c = Inr s'"
    using c cl(4) seg un aligned_page [OF ok y(2) c] kernel_ptr_page [OF ok]
    by (cases "xs = []")
      (auto simp: remove_from_freelist_def s'_def m1_def Let_def store_def set_freelist_def)
  have touched: "mem s' a = mem s a" if out: "\<forall>z\<in>set (fl c). a \<notin> page_addrs z" for a
  proof -
    have "a \<noteq> ?nx + 8" if "?nx \<noteq> 0"
      using seg(2) that out fl by (cases zs) auto
    moreover have "a \<noteq> ?pv" if "xs \<noteq> []"
    proof -
      have "last xs \<in> set (fl c)" using that fl by simp
      then show ?thesis using un(2) [OF that] out in_page_addrs(1) by metis
    qed
    ultimately show ?thesis by (simp add: s'_def m1_def)
  qed
  have "lists s' (fl(c := xs @ zs))"
  proof (rule lists_upd [OF l c])
    show "dseg (mem s') c 0 (freelist (classes s' ! c)) (xs @ zs) 0"
      using un cl(4) c by (auto simp: s'_def freelist_set_freelist)
  next
    fix d z a assume dza: "d < CLASS_COUNT" "d \<noteq> c" "z \<in> set (fl d)" "a \<in> page_addrs z"
    have "page_addrs z \<inter> page_addrs w = {}" if "w \<in> set (fl c)" for w
      using that dza cl(3,5) lists_classD(3) [OF l dza(1)] by (intro page_addrs_disjoint) blast+
    then show "mem s' a = mem s a" using dza(4) touched [of a] by auto
  qed (use cl fl c in \<open>auto simp: s'_def freelist_set_freelist\<close>)
  moreover have "frame (heads fl) s s'"
    using touched in_headsI [OF c] by (auto simp: frame_def s'_def)
  ultimately show ?thesis using run ys by metis
qed

end
