(* ===== verification/Buddy.thy ===== *)
theory Buddy
  imports Free_Lists
begin

text \<open>
  The buddy allocator of \<^verbatim>\<open>src/kern/memory.c\<close>: allocation with splitting
  (\<^verbatim>\<open>alloc_raw\<close>), release with merging (\<^verbatim>\<open>release_pages\<close>), the
  callers built on them and the consistency check \<^verbatim>\<open>validate_heap\<close>. The
  invariant relates the free lists, the buddy bits, the page bit sets and the byte counter
  to one set of free pages.
\<close>

record Buffer =
  buf_data :: u64
  buf_count :: s64

definition null_buffer :: Buffer where
  "null_buffer = \<lparr>buf_data = 0, buf_count = 0\<rparr>"

definition set_buddies :: "memory \<Rightarrow> nat \<Rightarrow> BitSet \<Rightarrow> memory" where
  "set_buddies s cls b = s\<lparr>classes := (classes s)[cls := (classes s ! cls)\<lparr>buddies := b\<rparr>]\<rparr>"

section \<open>Allocation\<close>

text \<open>
  \<^verbatim>\<open>RANGE(min_class, CLASS_COUNT, current)\<close> runs until \<^verbatim>\<open>current\<close> equals
  \<^verbatim>\<open>CLASS_COUNT\<close>; started above it, it reads past the array of classes.
\<close>

function find_class_up :: "memory \<Rightarrow> nat \<Rightarrow> nat option result" where
  "find_class_up s current =
     (if current = CLASS_COUNT then Inr None
      else bindR (idxR (classes s) (int current)) (\<lambda>info.
           if freelist info \<noteq> 0 then Inr (Some current) else find_class_up s (current + 1)))"
  by pat_completeness auto
termination
  by (relation "measure (\<lambda>(s, c). length (classes s) - c)") (auto simp: result_simps)

declare find_class_up.simps [simp del]

fun find_class_down :: "memory \<Rightarrow> nat \<Rightarrow> nat option result" where
  "find_class_down s 0 = Inr None"
| "find_class_down s (Suc it) =
     bindR (idxR (classes s) (int it)) (\<lambda>info.
     if freelist info \<noteq> 0 then Inr (Some it) else find_class_down s it)"

fun split_loop :: "memory \<Rightarrow> nat \<Rightarrow> s64 \<Rightarrow> s64 \<Rightarrow> memory result" where
  "split_loop s 0 remaining page = Inr s"
| "split_loop s (Suc child_class) remaining page =
     (if \<not> remaining > 0 then Inr s else
      let child_size = 2 ^ child_class in
      bindR (idxR (classes s) (int child_class)) (\<lambda>info.
      bindR (buddy_info page child_class) (\<lambda>bi.
      bindR (BitSet__get (buddies info) (bitset_index bi)) (\<lambda>b.
      bindR (assertR (\<not> b) ''!BitSet__get(info->buddies, index)'') (\<lambda>_.
      if remaining > child_size
      then split_loop s child_class (remaining - child_size) (page + child_size)
      else
        bindR (add_to_freelist s (page + child_size) child_class) (\<lambda>s.
        bindR (BitSet__set (buddies (classes s ! child_class)) (bitset_index bi) True) (\<lambda>b.
        let s = set_buddies s child_class b in
        if remaining = child_size then Inr s else split_loop s child_class remaining page)))))))"

definition clear_buddy :: "memory \<Rightarrow> nat \<Rightarrow> s64 \<Rightarrow> memory result" where
  "clear_buddy s cls begin =
     (if cls \<noteq> CLASS_COUNT - 1
      then bindR (buddy_info begin cls) (\<lambda>bi.
           bindR (idxR (classes s) (int cls)) (\<lambda>info.
           bindR (BitSet__get (buddies info) (bitset_index bi)) (\<lambda>b.
           bindR (assertR b ''BitSet__get(MemGlobals.classes[class].buddies, index)'') (\<lambda>_.
           bindR (BitSet__set (buddies info) (bitset_index bi) False) (\<lambda>b.
           Inr (set_buddies s cls b))))))
      else Inr s)"

definition alloc_block :: "memory \<Rightarrow> nat \<Rightarrow> s64 \<Rightarrow> (Buffer \<times> memory) result" where
  "alloc_block s cls count =
     (let size = count * 4096;
          s = s\<lparr>free_memory := free_memory s - size\<rparr>
      in
      bindR (pop_freelist s cls) (\<lambda>(data, s).
      bindR (physical_address data) (\<lambda>addr.
      let begin = uint (addr div 4096); end = begin + count in
      bindR (BitSet__get_all (usable_pages s) begin end) (\<lambda>usable.
      bindR (assertR usable ''BitSet__get_all(MemGlobals.usable_pages, begin, end)'') (\<lambda>_.
      bindR (BitSet__get_all (free_pages s) begin end) (\<lambda>free.
      bindR (assertR free ''BitSet__get_all(MemGlobals.free_pages, begin, end)'') (\<lambda>_.
      bindR (BitSet__set_range (free_pages s) begin end False) (\<lambda>fp.
      let s = s\<lparr>free_pages := fp\<rparr> in
      bindR (clear_buddy s cls begin) (\<lambda>s.
      bindR (split_loop s cls count begin) (\<lambda>s.
      Inr (\<lparr>buf_data = data, buf_count = size\<rparr>, s)))))))))))"

definition alloc_raw :: "memory \<Rightarrow> s64 \<Rightarrow> bool \<Rightarrow> (Buffer \<times> memory) result" where
  "alloc_raw s count exact =
     (if count \<le> 0 then Inr (null_buffer, s) else
      bindR (smallest_greater_power2 count) (\<lambda>min_class.
      bindR (find_class_up s (nat min_class)) (\<lambda>up.
      case up of
        Some cls \<Rightarrow> alloc_block s cls count
      | None \<Rightarrow>
          if exact then Inr (null_buffer, s) else
          bindR (find_class_down s (nat min_class)) (\<lambda>down.
          case down of
            Some it \<Rightarrow> alloc_block s it (2 ^ it)
          | None \<Rightarrow> Inr (null_buffer, s)))))"

definition try_raw_pages :: "memory \<Rightarrow> s64 \<Rightarrow> (Buffer \<times> memory) result" where
  "try_raw_pages s count = alloc_raw s count False"

definition raw_pages :: "memory \<Rightarrow> s64 \<Rightarrow> (u64 \<times> memory) result" where
  "raw_pages s count = bindR (alloc_raw s count True) (\<lambda>(buf, s). Inr (buf_data buf, s))"

section \<open>Release\<close>

function merge_loop :: "memory \<Rightarrow> s64 \<Rightarrow> nat \<Rightarrow> memory result" where
  "merge_loop s page cls =
     (if cls < CLASS_COUNT - 1 then
        bindR (assert_aligned page cls) (\<lambda>_.
        bindR (idxR (classes s) (int cls)) (\<lambda>info.
        bindR (buddy_info page cls) (\<lambda>buds.
        bindR (BitSet__get (buddies info) (bitset_index buds)) (\<lambda>buddy_is_free.
        bindR (BitSet__set (buddies info) (bitset_index buds) (\<not> buddy_is_free)) (\<lambda>b.
        let s = set_buddies s cls b in
        if \<not> buddy_is_free then add_to_freelist s page cls
        else bindR (remove_from_freelist s (buddy buds) cls) (\<lambda>s.
             merge_loop s (min_s64 page (buddy buds)) (cls + 1)))))))
      else bindR (assert_aligned page (CLASS_COUNT - 1)) (\<lambda>_.
           add_to_freelist s page (CLASS_COUNT - 1)))"
  by pat_completeness auto
termination
  by (relation "measure (\<lambda>(s, page, cls). CLASS_COUNT - 1 - cls)") auto

declare merge_loop.simps [simp del]

definition release_pages :: "memory \<Rightarrow> u64 \<Rightarrow> s64 \<Rightarrow> memory result" where
  "release_pages s data count =
     bindR (assertR (data \<noteq> 0) ''data != NULL'') (\<lambda>_.
     bindR (physical_address data) (\<lambda>addr.
     bindR (align_down addr 4096) (\<lambda>aligned.
     bindR (assertR (addr = aligned) ''addr == align_down(addr, _4KB)'') (\<lambda>_.
     let begin = uint (addr div 4096) in
     bindR (s64_chk (begin + count)) (\<lambda>end.
     bindR (BitSet__get_all (usable_pages s) begin end) (\<lambda>usable.
     bindR (assertR usable ''BitSet__get_all(MemGlobals.usable_pages, begin, end)'') (\<lambda>_.
     bindR (BitSet__get_any (free_pages s) begin end) (\<lambda>free.
     bindR (assertR (\<not> free) ''!BitSet__get_any(MemGlobals.free_pages, begin, end)'') (\<lambda>_.
     bindR (for_s64 begin end (\<lambda>page s. merge_loop s page 0) s) (\<lambda>s.
     let s = s\<lparr>free_memory := free_memory s + count * 4096\<rparr> in
     bindR (BitSet__set_range (free_pages s) begin end True) (\<lambda>fp.
     Inr (s\<lparr>free_pages := fp\<rparr>))))))))))))"

definition unsafe_mark_memory_usability :: "memory \<Rightarrow> u64 \<Rightarrow> s64 \<Rightarrow> bool \<Rightarrow> memory result" where
  "unsafe_mark_memory_usability s data count usable =
     bindR (assertR (data \<noteq> 0) ''data != NULL'') (\<lambda>_.
     bindR (physical_address data) (\<lambda>addr.
     bindR (align_down addr 4096) (\<lambda>aligned.
     bindR (assertR (addr = aligned) ''addr == align_down(addr, _4KB)'') (\<lambda>_.
     let begin_page = uint (addr div 4096) in
     bindR (s64_chk (begin_page + count)) (\<lambda>end_page.
     bindR (BitSet__get_any (free_pages s) begin_page end_page) (\<lambda>any_are_free.
     bindR (assertR (\<not> any_are_free)
        ''if you're marking memory usability, the marked pages can't be free'') (\<lambda>_.
     bindR (BitSet__get_count (usable_pages s) begin_page end_page) (\<lambda>existing_pages.
     bindR (BitSet__set_range (usable_pages s) begin_page end_page usable) (\<lambda>up.
     Inr (s\<lparr>usable_pages := up\<rparr>))))))))))"

section \<open>Consistency check\<close>

text \<open>
  The walk over one free list follows \<^verbatim>\<open>next\<close> until \<^verbatim>\<open>NULL\<close>, which need not
  happen on a corrupted list: \<open>None\<close> is not returning.
\<close>

partial_function (option) validate_list ::
    "(u64 \<Rightarrow> u64) \<Rightarrow> nat \<Rightarrow> u64 \<Rightarrow> bool \<Rightarrow> s64 \<Rightarrow> (bool \<times> s64) option" where
  "validate_list m i block success calculated =
     (if block = 0 then Some (success, calculated)
      else validate_list m i (m block) (success \<and> sint (m (block + 16)) = int i)
             (calculated + 2 ^ i * 4096))"

fun validate_classes :: "memory \<Rightarrow> nat \<Rightarrow> bool \<Rightarrow> s64 \<Rightarrow> (bool \<times> s64) option" where
  "validate_classes s 0 success calculated = Some (success, calculated)"
| "validate_classes s (Suc n) success calculated =
     Option.bind (validate_list (mem s) (CLASS_COUNT - Suc n)
                    (freelist (classes s ! (CLASS_COUNT - Suc n))) success calculated)
       (\<lambda>(success, calculated). validate_classes s n success calculated)"

definition validate_heap :: "memory \<Rightarrow> unit result option" where
  "validate_heap s =
     map_option (\<lambda>(success, calculated). assertR (success \<and> calculated = free_memory s) ''success'')
       (validate_classes s CLASS_COUNT True 0)"

section \<open>Buddies\<close>

definition bud :: "nat \<Rightarrow> int \<Rightarrow> int" where
  "bud c x = x XOR 2 ^ c"

lemma bud_cases:
  assumes "2 ^ c dvd x"
  shows "(2 ^ Suc c dvd x \<and> bud c x = x + 2 ^ c) \<or>
         (2 ^ Suc c dvd (x - 2 ^ c) \<and> \<not> 2 ^ Suc c dvd x \<and> bud c x = x - 2 ^ c)"
proof -
  obtain q where q: "x = 2 ^ c * q" using assms by blast
  have "bud c x = flip_bit c x" by (simp add: bud_def flip_bit_eq_xor push_bit_of_1)
  also have "\<dots> = (if bit x c then x - 2 ^ c else x + 2 ^ c)"
    by (simp add: flip_bit_eq_if unset_bit_eq set_bit_eq)
  finally have b: "bud c x = (if odd q then x - 2 ^ c else x + 2 ^ c)"
    by (simp add: q bit_iff_odd)
  show ?thesis
  proof (cases "odd q")
    case True
    then obtain k where "q = 2 * k + 1" by (rule oddE)
    then have "x - 2 ^ c = 2 ^ Suc c * k" "\<not> 2 ^ Suc c dvd x"
      using q True by (auto simp: algebra_simps)
    with b True show ?thesis by auto
  next
    case False
    with b q show ?thesis by auto
  qed
qed

lemma bud_involution: "bud c (bud c x) = x"
  by (simp add: bud_def ac_simps)

lemma bud_dvd: "2 ^ c dvd x \<Longrightarrow> 2 ^ c dvd bud c x"
  using bud_cases [of c x] by auto

lemma bud_neq: "bud c x \<noteq> x"
  by (simp add: bud_def) (metis xor.comm_neutral xor.left_commute xor_self_eq power_not_zero zero_neq_numeral)

lemma bud_index: "2 ^ c dvd x \<Longrightarrow> bud c x div 2 ^ Suc c = x div 2 ^ Suc c"
proof -
  have "drop_bit (Suc c) (bud c x) = drop_bit (Suc c) x"
    by (rule bit_eqI) (auto simp: bud_def bit_simps)
  then show ?thesis by (simp add: drop_bit_eq_div)
qed

lemma same_index:
  assumes "2 ^ c dvd x" "2 ^ c dvd y" "x div 2 ^ Suc c = y div 2 ^ Suc c"
  shows "y = x \<or> y = bud c x"
proof -
  have split: "z = 2 ^ Suc c * (z div 2 ^ Suc c) + 2 ^ c * (a mod 2)" if "z = 2 ^ c * a" for a z :: int
  proof -
    have "z mod 2 ^ Suc c = 2 ^ c * (a mod 2)"
      unfolding that by (simp only: power_Suc2 mult_mod_right)
    then show ?thesis using mult_div_mod_eq [of "2 ^ Suc c" z] by simp
  qed
  obtain a b where ab: "x = 2 ^ c * a" "y = 2 ^ c * b" using assms by blast
  have x: "x = 2 ^ Suc c * (x div 2 ^ Suc c) + 2 ^ c * (a mod 2)"
    by (rule split [OF ab(1)])
  have y: "y = 2 ^ Suc c * (x div 2 ^ Suc c) + 2 ^ c * (b mod 2)"
    using split [OF ab(2)] assms(3) by simp
  show ?thesis
  proof (cases "a mod 2 = b mod 2")
    case True
    then show ?thesis using trans [OF y x [symmetric, unfolded True]] by simp
  next
    case False
    then have "y = x + 2 ^ c \<and> even a \<or> y = x - 2 ^ c \<and> odd a"
      using x y by (cases "even a"; cases "even b") (auto simp: odd_iff_mod_2_eq_one)
    moreover have "2 ^ Suc c dvd x \<longleftrightarrow> even a" using ab(1) by simp
    ultimately show ?thesis using bud_cases [OF assms(1)] by auto
  qed
qed

lemma min_bud:
  assumes "2 ^ c dvd x"
  shows "2 ^ Suc c dvd min_s64 x (bud c x)"
    and "{min_s64 x (bud c x)..<min_s64 x (bud c x) + 2 ^ Suc c}
           = {x..<x + 2 ^ c} \<union> {bud c x..<bud c x + 2 ^ c}"
  using bud_cases [OF assms] by (auto simp: min_s64_def)

lemma buddy_info_eq:
  "page_ok x \<Longrightarrow> 2 ^ c dvd x \<Longrightarrow> c < CLASS_COUNT \<Longrightarrow>
   buddy_info x c = Inr \<lparr>buddy = bud c x, bitset_index = x div 2 ^ Suc c\<rparr>"
  by (simp add: buddy_info_def aligned_page bud_def drop_bit_eq_div)

section \<open>Sets of blocks\<close>

definition blk :: "nat \<Rightarrow> int \<Rightarrow> int set" where
  "blk c x = {x..<x + 2 ^ c}"

definition blocks :: "(nat \<Rightarrow> int list) \<Rightarrow> int set" where
  "blocks fl = (\<Union>c<CLASS_COUNT. \<Union>x\<in>set (fl c). blk c x)"

definition wf_blocks :: "int \<Rightarrow> (nat \<Rightarrow> int list) \<Rightarrow> bool" where
  "wf_blocks N fl \<longleftrightarrow> (\<forall>c<CLASS_COUNT. \<forall>x\<in>set (fl c).
     0 \<le> x \<and> x + 2 ^ c \<le> N \<and> 2 ^ c dvd x
     \<and> (\<forall>d<CLASS_COUNT. \<forall>y\<in>set (fl d). (c, x) \<noteq> (d, y) \<longrightarrow> blk c x \<inter> blk d y = {}))"

definition bits_ok :: "int \<Rightarrow> nat \<Rightarrow> BitSet \<Rightarrow> int set \<Rightarrow> bool" where
  "bits_ok N c b F \<longleftrightarrow> bs_wf b \<and> N \<le> 2 ^ Suc c * bs_count b
     \<and> (\<forall>x. 0 \<le> x \<longrightarrow> x < N \<longrightarrow> 2 ^ c dvd x \<longrightarrow>
          (x div 2 ^ Suc c \<in> bits_of b \<longleftrightarrow> (x \<in> F) \<noteq> (bud c x \<in> F))
          \<and> \<not> (x \<in> F \<and> bud c x \<in> F))"

definition core :: "int \<Rightarrow> memory \<Rightarrow> (nat \<Rightarrow> int list) \<Rightarrow> bool" where
  "core N s fl \<longleftrightarrow> lists s fl \<and> wf_blocks N fl \<and> N \<le> 2 ^ 35
     \<and> (\<forall>c<CLASS_COUNT - 1. bits_ok N c (buddies (classes s ! c)) (set (fl c)))"

lemma blk_self [simp]: "x \<in> blk c x"
  by (simp add: blk_def)

lemma blk_in_blocks: "c < CLASS_COUNT \<Longrightarrow> x \<in> set (fl c) \<Longrightarrow> blk c x \<subseteq> blocks fl"
  by (auto simp: blocks_def)

lemma heads_in_blocks: "heads fl \<subseteq> blocks fl"
  by (auto simp: heads_def blocks_def) (use blk_self in blast)

lemma wf_blocksD:
  assumes "wf_blocks N fl" "c < CLASS_COUNT" "x \<in> set (fl c)"
  shows "0 \<le> x" "x + 2 ^ c \<le> N" "2 ^ c dvd x"
  using assms by (auto simp: wf_blocks_def)

lemma wf_blocks_disjoint:
  assumes "wf_blocks N fl" "c < CLASS_COUNT" "x \<in> set (fl c)" "d < CLASS_COUNT" "y \<in> set (fl d)"
    and "(c, x) \<noteq> (d, y)"
  shows "blk c x \<inter> blk d y = {}"
  using assms unfolding wf_blocks_def by blast

lemma in_blocks_iff: "p \<in> blocks fl \<longleftrightarrow> (\<exists>c x. c < CLASS_COUNT \<and> x \<in> set (fl c) \<and> p \<in> blk c x)"
  by (auto simp: blocks_def)

lemma blocks_bounds:
  assumes "wf_blocks N fl"
  shows "blocks fl \<subseteq> {0..<N}"
proof
  fix p assume "p \<in> blocks fl"
  then obtain c x where "c < CLASS_COUNT" "x \<in> set (fl c)" "p \<in> blk c x"
    by (auto simp: in_blocks_iff)
  with wf_blocksD [OF assms this(1,2)] show "p \<in> {0..<N}" by (simp add: blk_def)
qed

lemma wf_blocks_add:
  assumes "wf_blocks N fl" "c < CLASS_COUNT" "0 \<le> y" "y + 2 ^ c \<le> N" "2 ^ c dvd y"
    and "blk c y \<inter> blocks fl = {}"
  shows "wf_blocks N (fl(c := y # fl c))" and "blocks (fl(c := y # fl c)) = blocks fl \<union> blk c y"
proof -
  have dis: "blk c y \<inter> blk d z = {}" if "d < CLASS_COUNT" "z \<in> set (fl d)" for d z
    using assms(6) blk_in_blocks [of d z fl] that by blast
  have mem: "z \<in> set ((fl(c := y # fl c)) d) \<longleftrightarrow> (d = c \<and> z = y) \<or> z \<in> set (fl d)" for d z
    by auto
  show "blocks (fl(c := y # fl c)) = blocks fl \<union> blk c y"
    unfolding set_eq_iff Un_iff in_blocks_iff mem using assms(2) by blast
  show "wf_blocks N (fl(c := y # fl c))"
    unfolding wf_blocks_def
  proof (intro allI impI ballI)
    fix d z assume d: "d < CLASS_COUNT" "z \<in> set ((fl(c := y # fl c)) d)"
    have "blk d z \<inter> blk e w = {}"
      if "e < CLASS_COUNT" "w \<in> set ((fl(c := y # fl c)) e)" "(d, z) \<noteq> (e, w)" for e w
    proof (cases "(d = c \<and> z = y) \<or> (e = c \<and> w = y)")
      case True
      then have "d = c \<and> z = y \<and> w \<in> set (fl e) \<or> e = c \<and> w = y \<and> z \<in> set (fl d)"
        using d that mem [of z d] mem [of w e] by blast
      then show ?thesis using d(1) that(1) dis by (metis Int_commute)
    next
      case False
      then have "z \<in> set (fl d)" "w \<in> set (fl e)" using d that mem by blast+
      then show ?thesis using wf_blocks_disjoint [OF assms(1)] d that by blast
    qed
    moreover have "0 \<le> z \<and> z + 2 ^ d \<le> N \<and> 2 ^ d dvd z"
      using d(2) mem [of z d] assms(3-5) wf_blocksD [OF assms(1) d(1), of z] by auto
    ultimately show "0 \<le> z \<and> z + 2 ^ d \<le> N \<and> 2 ^ d dvd z \<and> (\<forall>e<CLASS_COUNT.
        \<forall>w\<in>set ((fl(c := y # fl c)) e). (d, z) \<noteq> (e, w) \<longrightarrow> blk d z \<inter> blk e w = {})" by blast
  qed
qed

lemma wf_blocks_del:
  assumes "wf_blocks N fl" "c < CLASS_COUNT" "y \<in> set (fl c)" "distinct (fl c)"
  shows "wf_blocks N (fl(c := remove1 y (fl c)))"
    and "blocks (fl(c := remove1 y (fl c))) = blocks fl - blk c y"
proof -
  have mem: "z \<in> set ((fl(c := remove1 y (fl c))) d) \<longleftrightarrow> z \<in> set (fl d) \<and> (d, z) \<noteq> (c, y)" for d z
    using assms(4) by auto
  then show "wf_blocks N (fl(c := remove1 y (fl c)))"
    using assms(1) unfolding wf_blocks_def by metis
  have "blk d z \<inter> blk c y = {}" if "d < CLASS_COUNT" "z \<in> set (fl d)" "(d, z) \<noteq> (c, y)" for d z
    using wf_blocks_disjoint [OF assms(1) that(1,2) assms(2,3) that(3)] .
  then have "p \<in> blocks (fl(c := remove1 y (fl c))) \<longleftrightarrow> p \<in> blocks fl \<and> p \<notin> blk c y" for p
    unfolding in_blocks_iff mem using assms(2,3) by (metis disjoint_iff prod.inject)
  then show "blocks (fl(c := remove1 y (fl c))) = blocks fl - blk c y" by blast
qed

section \<open>Buddy bits\<close>

lemma bits_ok_index:
  assumes "bits_ok N c b F" "0 \<le> x" "x < N"
  shows "0 \<le> x div 2 ^ Suc c" "x div 2 ^ Suc c < bs_count b"
proof -
  show "0 \<le> x div 2 ^ Suc c" using assms(2) by (simp add: pos_imp_zdiv_nonneg_iff)
  have "x < bs_count b * 2 ^ Suc c" using assms by (simp add: bits_ok_def mult.commute)
  moreover have "0 \<le> x mod 2 ^ Suc c" by simp
  then have "x div 2 ^ Suc c * 2 ^ Suc c \<le> x"
    using div_mult_mod_eq [of x "2 ^ Suc c"] by linarith
  ultimately have "x div 2 ^ Suc c * 2 ^ Suc c < bs_count b * 2 ^ Suc c" by linarith
  then show "x div 2 ^ Suc c < bs_count b" by (rule mult_right_less_imp_less) simp
qed

lemma bits_ok_get:
  assumes "bits_ok N c b F" "0 \<le> x" "x < N" "2 ^ c dvd x"
  shows "BitSet__get b (x div 2 ^ Suc c) = Inr ((x \<in> F) \<noteq> (bud c x \<in> F))"
    and "\<not> (x \<in> F \<and> bud c x \<in> F)"
  using assms bits_ok_index [OF assms(1-3)] by (auto simp: bits_ok_def)

text \<open>
  Changing membership of one block \<open>y\<close> in the list flips the bit it shares with its
  buddy, and leaves the others as they were.
\<close>

lemma bits_ok_change:
  assumes ok: "bits_ok N c b F" and y: "0 \<le> y" "y < N" "2 ^ c dvd y"
    and F': "\<And>x. x \<noteq> y \<Longrightarrow> x \<in> F' \<longleftrightarrow> x \<in> F" and excl: "\<not> (y \<in> F' \<and> bud c y \<in> F)"
    and v: "v \<longleftrightarrow> (y \<in> F') \<noteq> (bud c y \<in> F)"
  shows "\<exists>b'. BitSet__set b (y div 2 ^ Suc c) v = Inr b' \<and> bits_ok N c b' F'"
proof -
  obtain b' where b': "BitSet__set b (y div 2 ^ Suc c) v = Inr b'" "bs_wf b'" "bs_count b' = bs_count b"
    "bits_of b' = put v {y div 2 ^ Suc c} (bits_of b)"
    using bs.store [of b "y div 2 ^ Suc c" v] bits_ok_index [OF ok y(1,2)] ok
    by (auto simp: bits_ok_def)
  have buddy: "bud c y \<in> F' \<longleftrightarrow> bud c y \<in> F" using F' bud_neq by blast
  have "(x div 2 ^ Suc c \<in> bits_of b' \<longleftrightarrow> (x \<in> F') \<noteq> (bud c x \<in> F')) \<and> \<not> (x \<in> F' \<and> bud c x \<in> F')"
    if x: "0 \<le> x" "x < N" "2 ^ c dvd x" for x
  proof (cases "x div 2 ^ Suc c = y div 2 ^ Suc c")
    case True
    then have "x = y \<or> x = bud c y" using same_index [OF y(3) x(3)] by simp
    moreover have "(x div 2 ^ Suc c \<in> bits_of b') = v" using b' True by (simp add: put_def)
    ultimately show ?thesis using v excl buddy by (auto simp: bud_involution)
  next
    case False
    then have "x \<noteq> y" "bud c x \<noteq> y" using bud_index [OF x(3)] by auto
    moreover have "(x div 2 ^ Suc c \<in> bits_of b') = (x div 2 ^ Suc c \<in> bits_of b)"
      using b' False by (simp add: put_def)
    ultimately show ?thesis using ok x F' by (simp add: bits_ok_def)
  qed
  with b' ok show ?thesis by (auto simp: bits_ok_def)
qed

section \<open>Frames\<close>

text \<open>\<open>mframe P s s'\<close>: the pages outside \<open>P\<close>, the page bit sets and the counter are kept.\<close>

definition mframe :: "int set \<Rightarrow> memory \<Rightarrow> memory \<Rightarrow> bool" where
  "mframe P s s' \<longleftrightarrow> free_memory s' = free_memory s \<and> usable_pages s' = usable_pages s
     \<and> free_pages s' = free_pages s
     \<and> (\<forall>a. (\<forall>x\<in>P. a \<notin> page_addrs x) \<longrightarrow> mem s' a = mem s a)"

lemma mframe_refl [simp]: "mframe P s s"
  by (simp add: mframe_def)

lemma mframe_trans: "mframe P s t \<Longrightarrow> mframe Q t u \<Longrightarrow> P \<subseteq> R \<Longrightarrow> Q \<subseteq> R \<Longrightarrow> mframe R s u"
  unfolding mframe_def by (auto simp: subset_iff)

lemma mframe_mono: "mframe P s t \<Longrightarrow> P \<subseteq> Q \<Longrightarrow> mframe Q s t"
  by (rule mframe_trans [of P s t "{}"]) simp_all

lemma frame_mframe: "frame P s t \<Longrightarrow> P \<subseteq> Q \<Longrightarrow> mframe Q s t"
  unfolding frame_def mframe_def by auto

lemma set_buddies_simps [simp]:
  "mem (set_buddies s c b) = mem s" "free_memory (set_buddies s c b) = free_memory s"
  "usable_pages (set_buddies s c b) = usable_pages s"
  "free_pages (set_buddies s c b) = free_pages s"
  "length (classes (set_buddies s c b)) = length (classes s)"
  by (simp_all add: set_buddies_def)

lemma freelist_set_buddies [simp]:
  "d < length (classes s) \<Longrightarrow> freelist (classes (set_buddies s c b) ! d) = freelist (classes s ! d)"
  by (cases "c < length (classes s)") (auto simp: set_buddies_def nth_list_update)

lemma buddies_set_buddies:
  "c < length (classes s) \<Longrightarrow> d < length (classes s) \<Longrightarrow>
   buddies (classes (set_buddies s c b) ! d) = (if d = c then b else buddies (classes s ! d))"
  by (simp add: set_buddies_def nth_list_update)

lemma lists_set_buddies: "lists s fl \<Longrightarrow> lists (set_buddies s c b) fl"
  by (auto simp: lists_def)

lemma mframe_set_buddies: "mframe P s (set_buddies s c b)"
  by (simp add: mframe_def)

lemma frame_buddies:
  "frame P s t \<Longrightarrow> d < length (classes s) \<Longrightarrow> buddies (classes t ! d) = buddies (classes s ! d)"
  unfolding frame_def by (metis length_map nth_map)

lemma page_ok_in: "N \<le> 2 ^ 35 \<Longrightarrow> 0 \<le> x \<Longrightarrow> x < N \<Longrightarrow> page_ok x"
  by (simp add: page_ok_def)

lemma coreD:
  assumes "core N s fl"
  shows "lists s fl" "wf_blocks N fl" "N \<le> 2 ^ 35" "length (classes s) = CLASS_COUNT"
    "\<And>c. c < CLASS_COUNT - 1 \<Longrightarrow> bits_ok N c (buddies (classes s ! c)) (set (fl c))"
  using assms by (auto simp: core_def lists_def)

section \<open>One block at a time\<close>

lemma block_fits:
  fixes x :: int
  shows "x + 2 ^ c \<le> N \<Longrightarrow> x < N"
  using zero_less_power [of "2 :: int" c] by linarith

lemma fresh_head: "blk c y \<inter> blocks fl = {} \<Longrightarrow> y \<notin> heads fl"
  using heads_in_blocks blk_self by blast

lemma fresh_member: "c < CLASS_COUNT \<Longrightarrow> blk c y \<inter> blocks fl = {} \<Longrightarrow> y \<notin> set (fl c)"
  using fresh_head in_headsI by blast

lemma core_add:
  assumes core: "core N s fl" and c: "c < CLASS_COUNT"
    and y: "0 \<le> y" "y + 2 ^ c \<le> N" "2 ^ c dvd y" "blk c y \<inter> blocks fl = {}"
    and s: "lists s1 fl" "length (classes s1) = CLASS_COUNT"
      "\<And>d. d < CLASS_COUNT - 1 \<Longrightarrow> d \<noteq> c \<Longrightarrow> buddies (classes s1 ! d) = buddies (classes s ! d)"
    and b: "c < CLASS_COUNT - 1 \<Longrightarrow> bits_ok N c (buddies (classes s1 ! c)) (set (y # fl c))"
  shows "\<exists>s'. add_to_freelist s1 y c = Inr s' \<and> core N s' (fl(c := y # fl c))
           \<and> mframe (insert y (blocks fl)) s1 s' \<and> frame (insert y (heads fl)) s1 s'"
proof -
  note D = coreD [OF core]
  have "page_ok y" using D(3) y block_fits page_ok_in by blast
  then obtain s' where s': "add_to_freelist s1 y c = Inr s'" "lists s' (fl(c := y # fl c))"
    "frame (insert y (heads fl)) s1 s'"
    using add_to_freelist_spec [OF s(1) c] y(3) fresh_head [OF y(4)] by blast
  have "bits_ok N d (buddies (classes s' ! d)) (set ((fl(c := y # fl c)) d))"
    if "d < CLASS_COUNT - 1" for d
    using that frame_buddies [OF s'(3), of d] s(2,3) D(5) b by (cases "d = c") auto
  then have "core N s' (fl(c := y # fl c))"
    using s'(2) D(3) wf_blocks_add(1) [OF D(2) c y] by (simp add: core_def)
  moreover have "mframe (insert y (blocks fl)) s1 s'"
    using s'(3) heads_in_blocks by (blast intro: frame_mframe)
  ultimately show ?thesis using s' by blast
qed

lemma core_mark_add:
  assumes core: "core N s fl" and c: "c < CLASS_COUNT - 1"
    and y: "0 \<le> y" "y + 2 ^ c \<le> N" "2 ^ c dvd y" "blk c y \<inter> blocks fl = {}"
    and buddy: "bud c y \<notin> set (fl c)"
  shows "\<exists>b s'. BitSet__set (buddies (classes s ! c)) (y div 2 ^ Suc c) True = Inr b
           \<and> add_to_freelist (set_buddies s c b) y c = Inr s'
           \<and> core N s' (fl(c := y # fl c)) \<and> mframe (insert y (blocks fl)) s s'"
proof -
  note D = coreD [OF core]
  have cc: "c < CLASS_COUNT" using c by simp
  obtain b where b: "BitSet__set (buddies (classes s ! c)) (y div 2 ^ Suc c) True = Inr b"
    "bits_ok N c b (set (y # fl c))"
    using bits_ok_change [OF D(5) [OF c] y(1) block_fits [OF y(2)] y(3), of "set (y # fl c)" True]
      buddy bud_neq by auto
  have "\<exists>s'. add_to_freelist (set_buddies s c b) y c = Inr s' \<and> core N s' (fl(c := y # fl c))
      \<and> mframe (insert y (blocks fl)) (set_buddies s c b) s' \<and> frame (insert y (heads fl)) (set_buddies s c b) s'"
    by (rule core_add [OF core cc y])
      (use D(1,4) b cc in \<open>auto simp: lists_set_buddies buddies_set_buddies\<close>)
  then show ?thesis using b mframe_set_buddies mframe_trans by blast
qed

lemma core_add_mark:
  assumes core: "core N s fl" and c: "c < CLASS_COUNT - 1"
    and y: "0 \<le> y" "y + 2 ^ c \<le> N" "2 ^ c dvd y" "blk c y \<inter> blocks fl = {}"
    and buddy: "bud c y \<notin> set (fl c)"
  shows "\<exists>s1 b. add_to_freelist s y c = Inr s1
           \<and> BitSet__set (buddies (classes s1 ! c)) (y div 2 ^ Suc c) True = Inr b
           \<and> core N (set_buddies s1 c b) (fl(c := y # fl c))
           \<and> mframe (insert y (blocks fl)) s (set_buddies s1 c b)"
proof -
  note D = coreD [OF core]
  have cc: "c < CLASS_COUNT" using c by simp
  have "page_ok y" using D(3) y block_fits page_ok_in by blast
  then obtain s1 where s1: "add_to_freelist s y c = Inr s1" "lists s1 (fl(c := y # fl c))"
    "frame (insert y (heads fl)) s s1"
    using add_to_freelist_spec [OF D(1) cc] y(3) fresh_head [OF y(4)] by blast
  have len: "length (classes s1) = CLASS_COUNT" using s1(2) by (simp add: lists_def)
  have same: "buddies (classes s1 ! d) = buddies (classes s ! d)" if "d < CLASS_COUNT" for d
    using frame_buddies [OF s1(3)] D(4) that by simp
  obtain b where b: "BitSet__set (buddies (classes s ! c)) (y div 2 ^ Suc c) True = Inr b"
    "bits_ok N c b (set (y # fl c))"
    using bits_ok_change [OF D(5) [OF c] y(1) block_fits [OF y(2)] y(3), of "set (y # fl c)" True]
      buddy bud_neq by auto
  have "bits_ok N d (buddies (classes (set_buddies s1 c b) ! d)) (set ((fl(c := y # fl c)) d))"
    if "d < CLASS_COUNT - 1" for d
    using that cc len same D(5) b by (cases "d = c") (auto simp: buddies_set_buddies)
  then have "core N (set_buddies s1 c b) (fl(c := y # fl c))"
    using s1(2) D(3) wf_blocks_add(1) [OF D(2) cc y] by (simp add: core_def lists_set_buddies)
  moreover have "mframe (insert y (blocks fl)) s (set_buddies s1 c b)"
    by (rule mframe_trans [OF frame_mframe [OF s1(3) order_refl] mframe_set_buddies [of "{}"]])
      (use heads_in_blocks in blast)+
  ultimately show ?thesis using s1 b same cc by metis
qed

lemma core_mark_remove:
  assumes core: "core N s fl" and c: "c < CLASS_COUNT - 1" and y: "y \<in> set (fl c)"
  shows "\<exists>b s'. BitSet__set (buddies (classes s ! c)) (y div 2 ^ Suc c) False = Inr b
           \<and> remove_from_freelist (set_buddies s c b) y c = Inr s'
           \<and> core N s' (fl(c := remove1 y (fl c))) \<and> mframe (blocks fl) s s'"
proof -
  note D = coreD [OF core]
  have cc: "c < CLASS_COUNT" using c by simp
  note W = wf_blocksD [OF D(2) cc y]
  have dist: "distinct (fl c)" using lists_classD(2) [OF D(1) cc] .
  have ex: "bud c y \<notin> set (fl c)"
    using bits_ok_get(2) [OF D(5) [OF c] W(1) block_fits [OF W(2)] W(3)] y by blast
  obtain b where b: "BitSet__set (buddies (classes s ! c)) (y div 2 ^ Suc c) False = Inr b"
    "bits_ok N c b (set (remove1 y (fl c)))"
    using bits_ok_change [OF D(5) [OF c] W(1) block_fits [OF W(2)] W(3), of "set (remove1 y (fl c))" False]
      ex dist by auto
  obtain s' where s': "remove_from_freelist (set_buddies s c b) y c = Inr s'"
    "lists s' (fl(c := remove1 y (fl c)))" "frame (heads fl) (set_buddies s c b) s'"
    using remove_from_freelist_spec [OF lists_set_buddies [OF D(1)] cc y W(3)] by blast
  have "bits_ok N d (buddies (classes s' ! d)) (set ((fl(c := remove1 y (fl c))) d))"
    if "d < CLASS_COUNT - 1" for d
    using that frame_buddies [OF s'(3), of d] D(4,5) b cc
    by (cases "d = c") (auto simp: buddies_set_buddies)
  then have "core N s' (fl(c := remove1 y (fl c)))"
    using s'(2) D(3) wf_blocks_del(1) [OF D(2) cc y dist] by (simp add: core_def)
  moreover have "mframe (blocks fl) s s'"
    using mframe_trans [OF mframe_set_buddies frame_mframe [OF s'(3) heads_in_blocks]] by blast
  ultimately show ?thesis using b s' by blast
qed

section \<open>Splitting and merging\<close>

lemma core_bounds:
  assumes "core N s fl" "0 \<le> x" "x + 2 ^ c \<le> N"
  shows "x < N" "page_ok x"
  using coreD(3) [OF assms(1)] assms block_fits [of x c N] page_ok_in by blast+

lemma halves:
  fixes x :: int
  assumes "2 ^ Suc c dvd x"
  shows "2 ^ c dvd x" "2 ^ c dvd x + 2 ^ c" "bud c x = x + 2 ^ c" "bud c (x + 2 ^ c) = x"
    "blk (Suc c) x = blk c x \<union> blk c (x + 2 ^ c)" "blk c x \<inter> blk c (x + 2 ^ c) = {}"
proof -
  show d: "2 ^ c dvd x" using assms by (metis dvd_mult_right power_Suc)
  then show "2 ^ c dvd x + 2 ^ c" by simp
  show b: "bud c x = x + 2 ^ c" using bud_cases [OF d] assms by auto
  then show "bud c (x + 2 ^ c) = x" using bud_involution [of c x] by simp
qed (auto simp: blk_def)

lemma split_step:
  assumes core: "core N s fl" and c: "Suc c < CLASS_COUNT"
    and p: "0 \<le> page" "page + 2 ^ Suc c \<le> N" "2 ^ Suc c dvd page" "blk (Suc c) page \<inter> blocks fl = {}"
    and r: "0 < remaining"
  shows "split_loop s (Suc c) remaining page =
     (if remaining > 2 ^ c then split_loop s c (remaining - 2 ^ c) (page + 2 ^ c)
      else bindR (add_to_freelist s (page + 2 ^ c) c) (\<lambda>s.
           bindR (BitSet__set (buddies (classes s ! c)) ((page + 2 ^ c) div 2 ^ Suc c) True) (\<lambda>b.
           if remaining = 2 ^ c then Inr (set_buddies s c b)
           else split_loop (set_buddies s c b) c remaining page)))"
proof -
  note D = coreD [OF core] and H = halves [OF p(3)]
  have cc: "c < CLASS_COUNT" "c < CLASS_COUNT - 1" using c by simp_all
  have le: "page + 2 ^ c \<le> N" using p(2) by (simp add: order_trans [rotated])
  note B = core_bounds [OF core p(1) le]
  have "page \<notin> set (fl c)" "page + 2 ^ c \<notin> set (fl c)"
    using fresh_member [OF cc(1), of page fl] fresh_member [OF cc(1), of "page + 2 ^ c" fl] p(4) H(5)
    by blast+
  then have bit: "BitSet__get (buddies (classes s ! c)) (page div 2 ^ Suc c) = Inr False"
    using bits_ok_get(1) [OF D(5) [OF cc(2)] p(1) B(1) H(1)] H(3) by simp
  have idx: "idxR (classes s) (int c) = Inr (classes s ! c)" using D(4) cc by simp
  have same: "(page + 2 ^ c) div 2 ^ Suc c = page div 2 ^ Suc c"
    using bud_index [OF H(1)] H(3) by simp
  show ?thesis
    unfolding same split_loop.simps(2) Let_def idx bindR_Inr buddy_info_eq [OF B(2) H(1) cc(1)]
    using r bit by simp
qed

text \<open>A request that fits into the lower half: the upper half becomes a free block of its own.\<close>

lemma split_upper:
  assumes core: "core N s fl" and c: "Suc c < CLASS_COUNT" and page: "0 \<le> page" "page + 2 ^ Suc c \<le> N" "2 ^ Suc c dvd page"
    and free: "blk (Suc c) page \<inter> blocks fl = {}" and n: "0 < remaining" "remaining \<le> 2 ^ c"
  obtains s1 fl1 where "split_loop s (Suc c) remaining page = (if remaining = 2 ^ c then Inr s1 else split_loop s1 c remaining page)"
    "core N s1 fl1" "blocks fl1 = blocks fl \<union> blk c (page + 2 ^ c)" "mframe (insert (page + 2 ^ c) (blocks fl)) s s1"
proof -
  note H = halves [OF page(3)]
  have cc: "c < CLASS_COUNT" "c < CLASS_COUNT - 1" using c by simp_all
  have left: "blk c page \<inter> blocks fl = {}"
    and right: "0 \<le> page + 2 ^ c" "page + 2 ^ c + 2 ^ c \<le> N" "blk c (page + 2 ^ c) \<inter> blocks fl = {}"
    using page free H by auto
  have fresh: "bud c (page + 2 ^ c) \<notin> set (fl c)"
    unfolding H(4) by (rule fresh_member [OF cc(1) left])
  obtain s1 b where A: "add_to_freelist s (page + 2 ^ c) c = Inr s1"
    "BitSet__set (buddies (classes s1 ! c)) ((page + 2 ^ c) div 2 ^ Suc c) True = Inr b"
    "core N (set_buddies s1 c b) (fl(c := (page + 2 ^ c) # fl c))"
    "mframe (insert (page + 2 ^ c) (blocks fl)) s (set_buddies s1 c b)"
    using core_add_mark [OF core cc(2) right(1,2) H(2) right(3) fresh] by blast
  have "split_loop s (Suc c) remaining page
      = (if remaining = 2 ^ c then Inr (set_buddies s1 c b) else split_loop (set_buddies s1 c b) c remaining page)"
    using split_step [OF core c page free n(1)] n(2) A(1,2) by simp
  then show thesis using that A(3,4) wf_blocks_add(2) [OF coreD(2) [OF core] cc(1) right(1,2) H(2) right(3)] by blast
qed

lemma split_loop_spec:
  assumes "core N s fl" "i < CLASS_COUNT" "0 \<le> page" "page + 2 ^ i \<le> N" "2 ^ i dvd page"
    and "blk i page \<inter> blocks fl = {}" "0 < remaining" "remaining \<le> 2 ^ i"
  shows "\<exists>s' fl'. split_loop s i remaining page = Inr s' \<and> core N s' fl'
           \<and> blocks fl' = blocks fl \<union> {page + remaining..<page + 2 ^ i}
           \<and> mframe (blocks fl \<union> blk i page) s s'"
  using assms
proof (induction i arbitrary: s fl page remaining)
  case 0
  then show ?case by (intro exI [of _ s] exI [of _ fl]) auto
next
  case (Suc c)
  note core = \<open>core N s fl\<close> and H = halves [OF \<open>2 ^ Suc c dvd page\<close>]
  note step = split_step [OF Suc.prems(1-7)]
  have cc: "c < CLASS_COUNT" "c < CLASS_COUNT - 1" using Suc.prems(2) by simp_all
  have left: "0 \<le> page" "page + 2 ^ c \<le> N" "blk c page \<inter> blocks fl = {}"
    and right: "0 \<le> page + 2 ^ c" "page + 2 ^ c + 2 ^ c \<le> N" "blk c (page + 2 ^ c) \<inter> blocks fl = {}"
    using Suc.prems H by auto
  show ?case
  proof (cases "remaining > 2 ^ c")
    case True
    obtain s' fl' where R: "split_loop s c (remaining - 2 ^ c) (page + 2 ^ c) = Inr s'" "core N s' fl'"
      "blocks fl' = blocks fl \<union> {page + 2 ^ c + (remaining - 2 ^ c)..<page + 2 ^ c + 2 ^ c}"
      "mframe (blocks fl \<union> blk c (page + 2 ^ c)) s s'"
      using Suc.IH [OF core cc(1) right(1,2) H(2) right(3), of "remaining - 2 ^ c"] True Suc.prems(8)
      by auto
    have "mframe (blocks fl \<union> blk (Suc c) page) s s'"
      by (rule mframe_mono [OF R(4)]) (unfold H(5), blast)
    moreover have "split_loop s (Suc c) remaining page = Inr s'" using step True R(1) by simp
    moreover have "page + 2 ^ c + (remaining - 2 ^ c) = page + remaining"
      "page + 2 ^ c + 2 ^ c = page + 2 ^ Suc c" by simp_all
    ultimately show ?thesis using R(2,3) by metis
  next
    case False
    then have "remaining \<le> 2 ^ c" by simp
    then obtain s1 fl1 where A: "split_loop s (Suc c) remaining page = (if remaining = 2 ^ c then Inr s1 else split_loop s1 c remaining page)"
      "core N s1 fl1" "blocks fl1 = blocks fl \<union> blk c (page + 2 ^ c)" "mframe (insert (page + 2 ^ c) (blocks fl)) s s1"
      by (rule split_upper [OF Suc.prems(1-7)])
    show ?thesis
    proof (cases "remaining = 2 ^ c")
      case True
      have "blocks fl1 = blocks fl \<union> {page + remaining..<page + 2 ^ Suc c}"
        using A(3) True by (simp add: blk_def ac_simps)
      moreover have "mframe (blocks fl \<union> blk (Suc c) page) s s1"
        by (rule mframe_mono [OF A(4)]) (unfold H(5), use blk_self in blast)
      ultimately show ?thesis using A(1,2) True by metis
    next
      case less: False
      then have lt: "remaining < 2 ^ c" using False by simp
      have dis: "blk c page \<inter> blocks fl1 = {}" using A(3) left(3) H(6) by blast
      obtain s' fl' where R: "split_loop s1 c remaining page = Inr s'" "core N s' fl'"
        "blocks fl' = blocks fl1 \<union> {page + remaining..<page + 2 ^ c}"
        "mframe (blocks fl1 \<union> blk c page) s1 s'"
        using Suc.IH [OF A(2) cc(1) left(1,2) H(1) dis Suc.prems(7) less_imp_le [OF lt]] by blast
      have "{page + remaining..<page + 2 ^ Suc c} = blk c (page + 2 ^ c) \<union> {page + remaining..<page + 2 ^ c}"
        using lt Suc.prems(7) by (auto simp: blk_def)
      then have "blocks fl' = blocks fl \<union> {page + remaining..<page + 2 ^ Suc c}"
        using R(3) A(3) by blast
      moreover have "mframe (blocks fl \<union> blk (Suc c) page) s s'"
        by (rule mframe_trans [OF A(4) R(4)]) (unfold H(5) A(3), (use blk_self in blast)+)
      ultimately show ?thesis using R(1,2) A(1) less by auto
    qed
  qed
qed

lemma merge_step:
  assumes core: "core N s fl" and c: "c < CLASS_COUNT - 1"
    and p: "0 \<le> page" "page + 2 ^ c \<le> N" "2 ^ c dvd page" "blk c page \<inter> blocks fl = {}"
  shows "merge_loop s page c =
     bindR (BitSet__set (buddies (classes s ! c)) (page div 2 ^ Suc c) (bud c page \<notin> set (fl c))) (\<lambda>b.
     if bud c page \<notin> set (fl c) then add_to_freelist (set_buddies s c b) page c
     else bindR (remove_from_freelist (set_buddies s c b) (bud c page) c) (\<lambda>s.
          merge_loop s (min_s64 page (bud c page)) (Suc c)))"
proof -
  note D = coreD [OF core] and B = core_bounds [OF core p(1,2)]
  have cc: "c < CLASS_COUNT" using c by simp
  have "page \<notin> set (fl c)" by (rule fresh_member [OF cc p(4)])
  then have bit: "BitSet__get (buddies (classes s ! c)) (page div 2 ^ Suc c) = Inr (bud c page \<in> set (fl c))"
    using bits_ok_get(1) [OF D(5) [OF c] p(1) B(1) p(3)] by simp
  have idx: "idxR (classes s) (int c) = Inr (classes s ! c)" using D(4) cc by simp
  show ?thesis
    unfolding merge_loop.simps [of s page c] aligned_page [OF B(2) p(3) cc] idx bindR_Inr Let_def
      buddy_info_eq [OF B(2) p(3) cc]
    using c bit by (simp cong: if_cong)
qed

text \<open>Merging goes on with the block of the next class while the buddy is free.\<close>

lemma merge_up:
  assumes core: "core N s fl" and c: "c < CLASS_COUNT - 1" and p: "0 \<le> page" "page + 2 ^ c \<le> N" "2 ^ c dvd page" "blk c page \<inter> blocks fl = {}"
    and b: "bud c page \<in> set (fl c)"
  obtains s1 fl1 m where "merge_loop s page c = merge_loop s1 m (Suc c)" "core N s1 fl1" "mframe (blocks fl) s s1" "0 \<le> m" "m + 2 ^ Suc c \<le> N"
    "2 ^ Suc c dvd m" "blk (Suc c) m \<inter> blocks fl1 = {}" "blocks fl1 \<union> blk (Suc c) m = blocks fl \<union> blk c page"
proof -
  let ?b = "bud c page" and ?m = "min_s64 page (bud c page)" and ?fl = "fl(c := remove1 (bud c page) (fl c))"
  have cc: "c < CLASS_COUNT" using c by simp
  note W = wf_blocksD [OF coreD(2) [OF core] cc b]
  obtain bits s1 where A: "BitSet__set (buddies (classes s ! c)) (?b div 2 ^ Suc c) False = Inr bits"
    "remove_from_freelist (set_buddies s c bits) ?b c = Inr s1" "core N s1 ?fl" "mframe (blocks fl) s s1"
    using core_mark_remove [OF core c b] by blast
  have bl: "blocks ?fl = blocks fl - blk c ?b"
    using wf_blocks_del(2) [OF coreD(2) [OF core] cc b] lists_classD(2) [OF coreD(1) [OF core] cc] by blast
  have sub: "blk c ?b \<subseteq> blocks fl" using blk_in_blocks [of c ?b fl] cc b by blast
  have whole: "blk (Suc c) ?m = blk c page \<union> blk c ?b" "2 ^ Suc c dvd ?m"
    using min_bud [OF p(3)] by (simp_all add: blk_def)
  have "merge_loop s page c = merge_loop s1 ?m (Suc c)"
    using merge_step [OF core c p] b A(1,2) bud_index [OF p(3)] by simp
  moreover have "0 \<le> ?m" "?m + 2 ^ Suc c \<le> N"
    using bud_cases [OF p(3)] p W by (auto simp: min_s64_def)
  moreover have "blk (Suc c) ?m \<inter> blocks ?fl = {}" "blocks ?fl \<union> blk (Suc c) ?m = blocks fl \<union> blk c page"
    using whole(1) bl p(4) sub by blast+
  ultimately show thesis using that A(3,4) whole(2) by blast
qed

text \<open>It ends with the block in its list.\<close>

lemma merge_added:
  assumes core: "core N s fl" and p: "c < CLASS_COUNT" "0 \<le> page" "page + 2 ^ c \<le> N" "2 ^ c dvd page" "blk c page \<inter> blocks fl = {}"
    and r: "merge_loop s page c = Inr s'" "core N s' (fl(c := page # fl c))" "mframe (insert page (blocks fl)) s s'"
  shows "\<exists>s' fl'. merge_loop s page c = Inr s' \<and> core N s' fl'
           \<and> blocks fl' = blocks fl \<union> blk c page \<and> mframe (blocks fl \<union> blk c page) s s'"
proof -
  have "mframe (blocks fl \<union> blk c page) s s'" by (rule mframe_mono [OF r(3)]) auto
  then show ?thesis using r(1,2) wf_blocks_add(2) [OF coreD(2) [OF core] p] by blast
qed

lemma merge_loop_spec:
  assumes "core N s fl" "c < CLASS_COUNT" "0 \<le> page" "page + 2 ^ c \<le> N" "2 ^ c dvd page"
    and "blk c page \<inter> blocks fl = {}"
  shows "\<exists>s' fl'. merge_loop s page c = Inr s' \<and> core N s' fl'
           \<and> blocks fl' = blocks fl \<union> blk c page \<and> mframe (blocks fl \<union> blk c page) s s'"
  using assms
proof (induction "CLASS_COUNT - 1 - c" arbitrary: s fl c page)
  case 0
  note core = \<open>core N s fl\<close>
  have c: "c = CLASS_COUNT - 1" using "0.hyps" "0.prems"(2) by simp
  note B = core_bounds [OF core "0.prems"(3,4)]
  obtain s' where A: "add_to_freelist s page c = Inr s'" "core N s' (fl(c := page # fl c))"
    "mframe (insert page (blocks fl)) s s'"
    using core_add [OF core "0.prems"(2-6) coreD(1) [OF core] coreD(4) [OF core]] c by auto
  have "merge_loop s page c = Inr s'"
    using A(1) aligned_page [OF B(2) "0.prems"(5,2)] c by (simp add: merge_loop.simps)
  then show ?case using merge_added [OF "0.prems" _ A(2,3)] by blast
next
  case (Suc n)
  note core = \<open>core N s fl\<close> and p = Suc.prems(3-6)
  have c: "c < CLASS_COUNT - 1" "Suc c < CLASS_COUNT" "n = CLASS_COUNT - 1 - Suc c" using Suc.hyps(2) by auto
  show ?case
  proof (cases "bud c page \<in> set (fl c)")
    case False
    obtain b s' where A: "BitSet__set (buddies (classes s ! c)) (page div 2 ^ Suc c) True = Inr b"
      "add_to_freelist (set_buddies s c b) page c = Inr s'" "core N s' (fl(c := page # fl c))"
      "mframe (insert page (blocks fl)) s s'"
      using core_mark_add [OF core c(1) p False] by blast
    have "merge_loop s page c = Inr s'" using merge_step [OF core c(1) p] False A(1,2) by simp
    then show ?thesis using merge_added [OF Suc.prems _ A(3,4)] by blast
  next
    case True
    obtain s1 fl1 m where A: "merge_loop s page c = merge_loop s1 m (Suc c)" "core N s1 fl1" "mframe (blocks fl) s s1" "0 \<le> m" "m + 2 ^ Suc c \<le> N"
        "2 ^ Suc c dvd m" "blk (Suc c) m \<inter> blocks fl1 = {}" "blocks fl1 \<union> blk (Suc c) m = blocks fl \<union> blk c page"
      by (rule merge_up [OF core c(1) p True])
    obtain s' fl' where R: "merge_loop s1 m (Suc c) = Inr s'" "core N s' fl'"
      "blocks fl' = blocks fl1 \<union> blk (Suc c) m" "mframe (blocks fl1 \<union> blk (Suc c) m) s1 s'"
      using Suc.hyps(1) [OF c(3) A(2) c(2) A(4-7)] by blast
    have "mframe (blocks fl \<union> blk c page) s s'"
      by (rule mframe_trans [OF A(3) R(4) [unfolded A(8)]]) blast+
    then show ?thesis using R(1-3) A(1,8) by auto
  qed
qed

end
