(* ===== verification/Heap.thy ===== *)
theory Heap
  imports Buddy
begin

text \<open>
  The invariant of the whole page allocator and what each operation of
  \<^verbatim>\<open>src/kern/memory.c\<close> does to the set of free pages.
\<close>

section \<open>The invariant\<close>

definition heap_inv :: "int \<Rightarrow> memory \<Rightarrow> (nat \<Rightarrow> int list) \<Rightarrow> bool" where
  "heap_inv N s fl \<longleftrightarrow> core N s fl
     \<and> bs_wf (usable_pages s) \<and> bs_count (usable_pages s) = N
     \<and> bs_wf (free_pages s) \<and> bs_count (free_pages s) = N
     \<and> bits_of (free_pages s) = blocks fl \<and> blocks fl \<subseteq> bits_of (usable_pages s)
     \<and> free_memory s = 4096 * int (card (blocks fl))"

definition heap_ok :: "int \<Rightarrow> memory \<Rightarrow> bool" where
  "heap_ok N s \<longleftrightarrow> (\<exists>fl. heap_inv N s fl)"

definition free_set :: "memory \<Rightarrow> int set" where
  "free_set s = bits_of (free_pages s)"

definition usable_set :: "memory \<Rightarrow> int set" where
  "usable_set s = bits_of (usable_pages s)"

text \<open>\<open>keeps P s s'\<close>: the usable pages and the contents of every page outside \<open>P\<close> are kept.\<close>

definition keeps :: "int set \<Rightarrow> memory \<Rightarrow> memory \<Rightarrow> bool" where
  "keeps P s s' \<longleftrightarrow> usable_set s' = usable_set s
     \<and> (\<forall>x a. page_ok x \<longrightarrow> x \<notin> P \<longrightarrow> a \<in> page_addrs x \<longrightarrow> mem s' a = mem s a)"

lemma heap_invD:
  assumes "heap_inv N s fl"
  shows "core N s fl" "bs_wf (usable_pages s)" "bs_count (usable_pages s) = N"
    "bs_wf (free_pages s)" "bs_count (free_pages s) = N" "bits_of (free_pages s) = blocks fl"
    "blocks fl \<subseteq> bits_of (usable_pages s)" "free_memory s = 4096 * int (card (blocks fl))"
    "N \<le> 2 ^ 35" "blocks fl \<subseteq> {0..<N}"
  using assms coreD(2,3) [of N s fl] blocks_bounds [of N fl] by (auto simp: heap_inv_def)

lemma core_cong:
  assumes "core N s fl" "mem s' = mem s" "classes s' = classes s"
  shows "core N s' fl"
  using assms by (simp add: core_def lists_def)

lemma mem_keeps:
  assumes m: "\<And>a. (\<forall>y\<in>P. a \<notin> page_addrs y) \<Longrightarrow> mem s' a = mem s a"
    and P: "P \<subseteq> {0..<N}" "N \<le> 2 ^ 35" "P \<subseteq> Q" and u: "usable_pages s' = usable_pages s"
  shows "keeps Q s s'"
  unfolding keeps_def
proof (intro conjI allI impI)
  fix x a assume x: "page_ok x" "x \<notin> Q" "a \<in> page_addrs x"
  have "a \<notin> page_addrs y" if "y \<in> P" for y
  proof -
    have "page_ok y" using that P(1,2) page_ok_in [of N y] by auto
    then show ?thesis using page_addrs_disjoint [of x y] x that P(3) by blast
  qed
  then show "mem s' a = mem s a" by (intro m) blast
qed (simp add: usable_set_def u)

lemma page_addr_facts:
  assumes "page_ok x"
  shows "align_down (U64 (x * 4096)) 4096 = Inr (U64 (x * 4096))"
    and "uint (U64 (x * 4096) div 4096) = x"
proof -
  have u: "uint (U64 (x * 4096)) = x * 4096"
    using assms by (intro uint_word_of_int_small) (auto simp: page_ok_def)
  have "uint (U64 (x * 4096) AND NOT (mask 12)) = uint (U64 (x * 4096))"
    unfolding uint_and_not_mask u by simp
  then show "align_down (U64 (x * 4096)) 4096 = Inr (U64 (x * 4096))"
    using align_down_pow2 [of 12 "U64 (x * 4096)"] by (simp add: word_uint_eq_iff)
  show "uint (U64 (x * 4096) div 4096) = x"
    unfolding uint_div_distrib u by simp
qed

section \<open>Release\<close>

lemma release_loop:
  assumes core: "core N s fl" and r: "0 \<le> b" "b \<le> e" "e \<le> N" and dis: "{b..<e} \<inter> blocks fl = {}"
  shows "\<exists>s' fl'. for_s64 b e (\<lambda>page s. merge_loop s page 0) s = Inr s' \<and> core N s' fl'
           \<and> blocks fl' = blocks fl \<union> {b..<e} \<and> mframe (blocks fl \<union> {b..<e}) s s'"
proof -
  define I where "I = (\<lambda>i t. \<exists>fl'. core N t fl' \<and> blocks fl' = blocks fl \<union> {b..<i}
                                 \<and> mframe (blocks fl \<union> {b..<e}) s t)"
  have "\<exists>s'. for_s64 b e (\<lambda>page s. merge_loop s page 0) s = Inr s' \<and> I e s'"
  proof (rule for_s64_rule)
    fix i t assume i: "b \<le> i" "i < e" and "I i t"
    then obtain fl' where t: "core N t fl'" "blocks fl' = blocks fl \<union> {b..<i}"
      "mframe (blocks fl \<union> {b..<e}) s t" by (auto simp: I_def)
    have "blk 0 i \<inter> blocks fl' = {}" using t(2) dis i by (auto simp: blk_def disjoint_iff)
    then obtain t' fl'' where t': "merge_loop t i 0 = Inr t'" "core N t' fl''"
      "blocks fl'' = blocks fl' \<union> blk 0 i" "mframe (blocks fl' \<union> blk 0 i) t t'"
      using merge_loop_spec [OF t(1), of 0 i] r i by (auto simp: CLASS_COUNT_def)
    have i1: "{b..<i + 1} = {b..<i} \<union> blk 0 i" using i by (auto simp: blk_def)
    have "mframe (blocks fl \<union> {b..<e}) s t'"
      by (rule mframe_trans [OF t(3) t'(4)]) (use t(2) i in \<open>auto simp: blk_def\<close>)
    then have "I (i + 1) t'" unfolding I_def i1 using t'(2,3) t(2) by blast
    with t'(1) show "\<exists>t'. merge_loop t i 0 = Inr t' \<and> I (i + 1) t'" by blast
  qed (use r core in \<open>auto simp: I_def\<close>)
  then show ?thesis by (auto simp: I_def)
qed

lemma release_run_inv:
  assumes inv: "heap_inv N s fl" and ok: "page_ok b" and b: "0 \<le> b" "0 \<le> n" "b + n \<le> N"
    and use: "{b..<b + n} \<subseteq> usable_set s" and free: "{b..<b + n} \<inter> free_set s = {}"
  shows "\<exists>s' fl'. release_pages s (page_ptr b) n = Inr s' \<and> heap_inv N s' fl'
           \<and> free_set s' = free_set s \<union> {b..<b + n} \<and> free_memory s' = free_memory s + n * 4096
           \<and> keeps (free_set s') s s'"
proof -
  note D = heap_invD [OF inv]
  have dis: "{b..<b + n} \<inter> blocks fl = {}" using free D(6) by (simp add: free_set_def)
  obtain t fl' where t: "for_s64 b (b + n) (\<lambda>page s. merge_loop s page 0) s = Inr t" "core N t fl'"
    "blocks fl' = blocks fl \<union> {b..<b + n}" "mframe (blocks fl \<union> {b..<b + n}) s t"
    using release_loop [OF D(1) b(1) _ b(3) dis] b(2) by auto
  have same: "free_pages t = free_pages s" "usable_pages t = usable_pages s" "free_memory t = free_memory s"
    using t(4) by (auto simp: mframe_def)
  obtain fp where fp: "BitSet__set_range (free_pages s) b (b + n) True = Inr fp" "bs_wf fp"
    "bs_count fp = N" "bits_of fp = blocks fl \<union> {b..<b + n}"
    using bs.store_range [OF D(4) b(1), of "b + n" True] b(2,3) D(5,6) by (auto simp: put_def)
  define s' where "s' = t\<lparr>free_memory := free_memory s + n * 4096, free_pages := fp\<rparr>"
  have range: "b \<le> b + n" "b + n \<le> bs_count (usable_pages s)" "b + n \<le> bs_count (free_pages s)"
    using b(2,3) D(3,5) by simp_all
  have all: "BitSet__get_all (usable_pages s) b (b + n) = Inr True"
    using bs.get_all [OF D(2) b(1) range(1,2)] use by (simp add: usable_set_def)
  have any: "BitSet__get_any (free_pages s) b (b + n) = Inr False"
    using bs.get_any [OF D(4) b(1) range(1,3)] free by (simp add: free_set_def)
  have "b + n < 2 ^ 63" using b(3) D(9) by simp
  then have chk: "s64_chk (b + n) = Inr (b + n)" using b by (simp add: s64_okI)
  have run: "release_pages s (page_ptr b) n = Inr s'"
    using all any chk t(1) fp(1) page_ptr_nonzero [OF ok] physical_address_page [OF ok] page_addr_facts [OF ok] same
    by (simp add: release_pages_def s'_def Let_def)
  have fin: "finite (blocks fl)" using D(10) finite_subset by blast
  have "card (blocks fl \<union> {b..<b + n}) = card (blocks fl) + card {b..<b + n}"
    using dis fin by (intro card_Un_disjoint) auto
  then have count: "free_memory s + n * 4096 = 4096 * int (card (blocks fl'))"
    unfolding t(3) D(8) using b(2) by simp
  have "heap_inv N s' fl'"
    unfolding heap_inv_def
    using core_cong [OF t(2), of s'] D fp t(3) count same use
    by (simp add: s'_def usable_set_def)
  moreover have "keeps (free_set s') s s'"
    by (rule mem_keeps [of "blocks fl \<union> {b..<b + n}" _ _ N])
      (use t(4) D b fp in \<open>auto simp: s'_def free_set_def mframe_def\<close>)
  ultimately show ?thesis
    using run fp(4) D(6) by (auto simp: s'_def free_set_def)
qed

lemma release_pages_inv:
  assumes "heap_inv N s fl" "0 \<le> b" "b < N" "0 \<le> n" "b + n \<le> N"
    and "{b..<b + n} \<subseteq> usable_set s" "{b..<b + n} \<inter> free_set s = {}"
  shows "\<exists>s' fl'. release_pages s (page_ptr b) n = Inr s' \<and> heap_inv N s' fl'
           \<and> free_set s' = free_set s \<union> {b..<b + n} \<and> free_memory s' = free_memory s + n * 4096
           \<and> keeps (free_set s') s s'"
  using release_run_inv [OF assms(1) page_ok_in [OF heap_invD(9) [OF assms(1)] assms(2,3)] assms(2,4-7)] .

section \<open>Allocation\<close>

lemma pop_clear:
  assumes core: "core N s fl" and c: "c < CLASS_COUNT" and fl: "fl c = x # xs"
    and t: "pop_freelist s0 c = Inr (p, t0)" "mem s0 = mem s" "classes s0 = classes s"
    and t': "mem t = mem t0" "classes t = classes t0"
  shows "p = page_ptr x" and "\<exists>t'. clear_buddy t c x = Inr t' \<and> core N t' (fl(c := xs))
           \<and> mframe {} t t' \<and> frame (heads fl) s0 t0"
proof -
  note D = coreD [OF core]
  have x: "x \<in> set (fl c)" using fl by simp
  note W = wf_blocksD [OF D(2) c x] and cl = lists_classD [OF D(1) c]
  note B = core_bounds [OF core W(1,2)]
  have "lists s0 fl" using D(1) t(2,3) by (simp add: lists_def)
  from pop_freelist_spec [OF this c fl] t(1) show "p = page_ptr x" by auto
  from pop_freelist_spec [OF \<open>lists s0 fl\<close> c fl] t(1)
  have pop: "lists t0 (fl(c := xs))" "frame (heads fl) s0 t0" by auto
  have l: "lists t (fl(c := xs))" using pop(1) t' by (simp add: lists_def)
  have len: "length (classes t) = CLASS_COUNT" using l by (simp add: lists_def)
  have same: "buddies (classes t ! d) = buddies (classes s ! d)" if "d < CLASS_COUNT" for d
    using frame_buddies [OF pop(2), of d] D(4) t(3) t'(2) that by simp
  have wf: "wf_blocks N (fl(c := xs))"
    using wf_blocks_del(1) [OF D(2) c x cl(2)] fl by simp
  show "\<exists>t'. clear_buddy t c x = Inr t' \<and> core N t' (fl(c := xs)) \<and> mframe {} t t' \<and> frame (heads fl) s0 t0"
  proof (cases "c = CLASS_COUNT - 1")
    case True
    then have "core N t (fl(c := xs))" using l wf D(3,5) same by (simp add: core_def)
    with True pop(2) show ?thesis by (simp add: clear_buddy_def)
  next
    case False
    then have cc: "c < CLASS_COUNT - 1" using c by simp
    note bits = D(5) [OF cc]
    have ex: "bud c x \<notin> set (fl c)" using bits_ok_get(2) [OF bits W(1) B(1) W(3)] x by blast
    have F': "z \<in> set xs \<longleftrightarrow> z \<in> set (fl c)" if "z \<noteq> x" for z using fl that by simp
    have "x \<notin> set xs" using cl(2) fl by simp
    then have "\<exists>b. BitSet__set (buddies (classes s ! c)) (x div 2 ^ Suc c) False = Inr b
        \<and> bits_ok N c b (set xs)"
      by (intro bits_ok_change [OF bits W(1) B(1) W(3) F']) (simp_all add: ex)
    then obtain b where b: "BitSet__set (buddies (classes s ! c)) (x div 2 ^ Suc c) False = Inr b"
      "bits_ok N c b (set xs)" by blast
    have get: "BitSet__get (buddies (classes s ! c)) (x div 2 ^ Suc c) = Inr True"
      using bits_ok_get(1) [OF bits W(1) B(1) W(3)] ex x by simp
    have "clear_buddy t c x = Inr (set_buddies t c b)"
      using False c len b(1) get same [OF c] buddy_info_eq [OF B(2) W(3) c] by (simp add: clear_buddy_def)
    moreover have "bits_ok N d (buddies (classes (set_buddies t c b) ! d)) (set ((fl(c := xs)) d))"
      if "d < CLASS_COUNT - 1" for d
      using that len c b(2) same D(5) by (cases "d = c") (auto simp: buddies_set_buddies)
    then have "core N (set_buddies t c b) (fl(c := xs))"
      using l wf D(3) by (simp add: core_def lists_set_buddies)
    ultimately show ?thesis using pop(2) mframe_set_buddies by blast
  qed
qed

text \<open>What \<^verbatim>\<open>alloc_raw\<close> does before it splits: the block leaves its list and its run leaves the free pages.\<close>

lemma alloc_block_front:
  assumes inv: "heap_inv N s fl" and c: "c < CLASS_COUNT" and fl: "fl c = x # xs"
    and n: "0 < n" "n \<le> 2 ^ c"
  obtains t where "alloc_block s c n = bindR (split_loop t c n x) (\<lambda>s'. Inr (\<lparr>buf_data = page_ptr x, buf_count = n * 4096\<rparr>, s'))"
    "core N t (fl(c := xs))" "bs_wf (free_pages t)" "bs_count (free_pages t) = N" "bits_of (free_pages t) = blocks fl - {x..<x + n}"
    "usable_pages t = usable_pages s" "free_memory t = free_memory s - n * 4096"
    "\<forall>a. (\<forall>y\<in>heads fl. a \<notin> page_addrs y) \<longrightarrow> mem t a = mem s a"
proof -
  note D = heap_invD [OF inv] and C = coreD [OF heap_invD(1) [OF inv]]
  have x: "x \<in> set (fl c)" using fl by simp
  note W = wf_blocksD [OF C(2) c x]
  have ok: "page_ok x" by (rule core_bounds(2) [OF D(1) W(1,2)])
  have run_free: "{x..<x + n} \<subseteq> blocks fl" using blk_in_blocks [of c x fl] c x n by (auto simp: blk_def)
  define s0 where "s0 = s\<lparr>free_memory := free_memory s - n * 4096\<rparr>"
  have l0: "lists s0 fl" using C(1) by (simp add: s0_def lists_def)
  obtain t0 where t0: "pop_freelist s0 c = Inr (page_ptr x, t0)" "frame (heads fl) s0 t0"
    using pop_freelist_spec [OF l0 c fl] by blast
  have range: "x \<le> x + n" "x + n \<le> N" using n W(2) by simp_all
  obtain fp where fp: "BitSet__set_range (free_pages s) x (x + n) False = Inr fp" "bs_wf fp"
    "bs_count fp = N" "bits_of fp = blocks fl - {x..<x + n}"
    using bs.store_range [OF D(4) W(1) range(1), of False] range(2) D(5,6) by (auto simp: put_def)
  define t where "t = t0\<lparr>free_pages := fp\<rparr>"
  obtain t1 where t1: "clear_buddy t c x = Inr t1" "core N t1 (fl(c := xs))" "mframe {} t t1"
    using pop_clear(2) [OF D(1) c fl t0(1), of t] by (auto simp: s0_def t_def)
  have same: "free_pages t0 = free_pages s" "usable_pages t0 = usable_pages s"
    "free_memory t0 = free_memory s - n * 4096" using t0(2) by (auto simp: frame_def s0_def)
  have all: "BitSet__get_all (usable_pages s) x (x + n) = Inr True"
    "BitSet__get_all (free_pages s) x (x + n) = Inr True"
    using bs.get_all [OF D(2) W(1) range(1)] bs.get_all [OF D(4) W(1) range(1)] range(2) D(3,5,6,7) run_free
    by auto
  have "alloc_block s c n = bindR (split_loop t1 c n x) (\<lambda>s'. Inr (\<lparr>buf_data = page_ptr x, buf_count = n * 4096\<rparr>, s'))"
    using t0(1) t1(1) all fp(1) same(1,2) physical_address_page [OF ok] page_addr_facts(2) [OF ok]
    by (simp add: alloc_block_def Let_def s0_def [symmetric] t_def [symmetric])
  moreover have "free_pages t1 = fp" "usable_pages t1 = usable_pages s" "free_memory t1 = free_memory s - n * 4096"
    using t1(3) same by (auto simp: mframe_def t_def)
  moreover have "mem t1 a = mem s a" if "\<forall>y\<in>heads fl. a \<notin> page_addrs y" for a
    using t1(3) t0(2) that by (simp add: mframe_def t_def frame_def s0_def)
  ultimately show thesis using that [of t1] t1(2) fp(2-4) by simp
qed

lemma alloc_block_run:
  assumes inv: "heap_inv N s fl" and c: "c < CLASS_COUNT" and fl: "fl c = x # xs"
    and n: "0 < n" "n \<le> 2 ^ c"
  shows "\<exists>s' fl'. alloc_block s c n = Inr (\<lparr>buf_data = page_ptr x, buf_count = n * 4096\<rparr>, s')
           \<and> core N s' fl' \<and> blocks fl' = blocks fl - {x..<x + n}
           \<and> bs_wf (free_pages s') \<and> bs_count (free_pages s') = N
           \<and> bits_of (free_pages s') = blocks fl - {x..<x + n} \<and> usable_pages s' = usable_pages s
           \<and> free_memory s' = free_memory s - n * 4096
           \<and> (\<forall>a. (\<forall>y\<in>blocks fl. a \<notin> page_addrs y) \<longrightarrow> mem s' a = mem s a)"
proof -
  note C = coreD [OF heap_invD(1) [OF inv]]
  have x: "x \<in> set (fl c)" using fl by simp
  note W = wf_blocksD [OF C(2) c x]
  have sub: "blk c x \<subseteq> blocks fl" using blk_in_blocks [of c x fl] c x by blast
  obtain t where t: "alloc_block s c n = bindR (split_loop t c n x) (\<lambda>s'. Inr (\<lparr>buf_data = page_ptr x, buf_count = n * 4096\<rparr>, s'))"
      "core N t (fl(c := xs))" "bs_wf (free_pages t)" "bs_count (free_pages t) = N" "bits_of (free_pages t) = blocks fl - {x..<x + n}"
      "usable_pages t = usable_pages s" "free_memory t = free_memory s - n * 4096"
      "\<forall>a. (\<forall>y\<in>heads fl. a \<notin> page_addrs y) \<longrightarrow> mem t a = mem s a"
    by (rule alloc_block_front [OF assms])
  have bl: "blocks (fl(c := xs)) = blocks fl - blk c x"
    using wf_blocks_del(2) [OF C(2) c x] lists_classD(2) [OF C(1) c] fl by simp
  then have dis: "blk c x \<inter> blocks (fl(c := xs)) = {}" by blast
  obtain s' fl' where s': "split_loop t c n x = Inr s'" "core N s' fl'"
    "blocks fl' = blocks (fl(c := xs)) \<union> {x + n..<x + 2 ^ c}"
    "mframe (blocks (fl(c := xs)) \<union> blk c x) t s'"
    using split_loop_spec [OF t(2) c W(1,2,3) dis n] by blast
  have "blocks fl' = blocks fl - {x..<x + n}" using s'(3) bl sub n by (auto simp: blk_def)
  moreover have "mem s' a = mem s a" if a: "\<forall>y\<in>blocks fl. a \<notin> page_addrs y" for a
  proof -
    have "blocks (fl(c := xs)) \<union> blk c x = blocks fl" using bl sub by blast
    then have "mem s' a = mem t a" using s'(4) a by (simp add: mframe_def)
    then show ?thesis using t(8) a heads_in_blocks [of fl] by auto
  qed
  moreover have "free_pages s' = free_pages t" "usable_pages s' = usable_pages t" "free_memory s' = free_memory t"
    using s'(4) by (auto simp: mframe_def)
  ultimately show ?thesis using t(1,3-7) s'(1,2) by (intro exI [of _ s'] exI [of _ fl']) simp
qed

lemma alloc_block_inv:
  assumes inv: "heap_inv N s fl" and c: "c < CLASS_COUNT" and fl: "fl c = x # xs"
    and n: "0 < n" "n \<le> 2 ^ c"
  shows "\<exists>s' fl'. alloc_block s c n = Inr (\<lparr>buf_data = page_ptr x, buf_count = n * 4096\<rparr>, s')
           \<and> heap_inv N s' fl' \<and> 0 \<le> x \<and> {x..<x + n} \<subseteq> free_set s
           \<and> free_set s' = free_set s - {x..<x + n} \<and> free_memory s' = free_memory s - n * 4096
           \<and> keeps (free_set s) s s'"
proof -
  note D = heap_invD [OF inv]
  have "blk c x \<subseteq> blocks fl" using blk_in_blocks [of c x fl] c fl by auto
  then have sub: "{x..<x + n} \<subseteq> blocks fl" using n by (auto simp: blk_def)
  obtain s' fl' where R: "alloc_block s c n = Inr (\<lparr>buf_data = page_ptr x, buf_count = n * 4096\<rparr>, s')"
    "core N s' fl'" "blocks fl' = blocks fl - {x..<x + n}" "bs_wf (free_pages s')"
    "bs_count (free_pages s') = N" "bits_of (free_pages s') = blocks fl - {x..<x + n}"
    "usable_pages s' = usable_pages s" "free_memory s' = free_memory s - n * 4096"
    "\<forall>a. (\<forall>y\<in>blocks fl. a \<notin> page_addrs y) \<longrightarrow> mem s' a = mem s a"
    using alloc_block_run [OF inv c fl n] by blast
  have fin: "finite (blocks fl)" using D(10) finite_subset by blast
  have "card (blocks fl - {x..<x + n}) = card (blocks fl) - nat n"
    using sub by (simp add: card_Diff_subset)
  moreover have "nat n \<le> card (blocks fl)" using card_mono [OF fin sub] by simp
  ultimately have "free_memory s' = 4096 * int (card (blocks fl'))"
    using R(3,8) D(8) n by (simp add: of_nat_diff)
  then have "heap_inv N s' fl'" using R D by (auto simp: heap_inv_def)
  moreover have "keeps (free_set s) s s'"
    by (rule mem_keeps [of "blocks fl" _ _ N]) (use R(7,9) D in \<open>auto simp: free_set_def\<close>)
  moreover have "0 \<le> x" using sub D(10) n by fastforce
  ultimately show ?thesis using R sub D(6) by (auto simp: free_set_def)
qed

section \<open>Searching the classes\<close>

lemma find_class_up_eq:
  assumes l: "lists s fl" and c: "c \<le> CLASS_COUNT"
  shows "find_class_up s c = Inr (find (\<lambda>d. fl d \<noteq> []) [c..<CLASS_COUNT])"
  using c
proof (induction "CLASS_COUNT - c" arbitrary: c)
  case 0
  then show ?case by (simp add: find_class_up.simps)
next
  case (Suc n)
  then have "c < CLASS_COUNT" by simp
  moreover from this have "[c..<CLASS_COUNT] = c # [Suc c..<CLASS_COUNT]" by (simp add: upt_conv_Cons)
  moreover have "find_class_up s (c + 1) = Inr (find (\<lambda>d. fl d \<noteq> []) [Suc c..<CLASS_COUNT])"
    using Suc by simp
  moreover have "length (classes s) = CLASS_COUNT" using l by (simp add: lists_def)
  ultimately show ?case
    using freelist_empty_iff [OF l, of c] by (simp add: find_class_up.simps [of s c])
qed

lemma find_class_down_eq:
  assumes l: "lists s fl"
  shows "c \<le> CLASS_COUNT \<Longrightarrow> find_class_down s c = Inr (find (\<lambda>d. fl d \<noteq> []) (rev [0..<c]))"
proof (induction c)
  case (Suc c)
  then have "c < CLASS_COUNT" by simp
  moreover have "length (classes s) = CLASS_COUNT" using l by (simp add: lists_def)
  ultimately show ?case using Suc freelist_empty_iff [OF l, of c] by simp
qed simp

lemma find_class_up_beyond:
  assumes "length (classes s) = CLASS_COUNT" "CLASS_COUNT < c"
  shows "find_class_up s c = Inl OutOfBounds"
  using assms by (simp add: find_class_up.simps idxR_def)

text \<open>
  Free blocks are maximal: every aligned run of free pages of a class's size lies in one
  free block of that class or a larger one.
\<close>

lemma aligned_in_block:
  assumes "2 ^ c dvd x" "2 ^ d dvd y" "c \<le> d" "blk c x \<inter> blk d y \<noteq> {}"
  shows "blk c x \<subseteq> blk d y"
proof -
  have dv: "(2 :: int) ^ c dvd 2 ^ d" using assms(3) by (simp add: le_imp_power_dvd)
  obtain a where a: "x = 2 ^ c * a" using assms(1) by blast
  obtain b where b: "y = 2 ^ c * b" using assms(2) dv by (meson dvdE dvd_trans)
  obtain k where k: "(2 :: int) ^ d = 2 ^ c * k" using dv by blast
  obtain p where p: "p \<in> blk c x" "p \<in> blk d y" using assms(4) by blast
  then have "x \<le> p" "p < x + 2 ^ c" "y \<le> p" "p < y + 2 ^ d" by (simp_all add: blk_def)
  then have "2 ^ c * b < 2 ^ c * (a + 1)" "2 ^ c * a < 2 ^ c * (b + k)"
    using a b k by (auto simp: distrib_left)
  then have "b < a + 1" "a < b + k" by (simp_all only: mult_less_cancel_left_pos zero_less_power zero_less_numeral)
  then have "2 ^ c * b \<le> 2 ^ c * a" "2 ^ c * (a + 1) \<le> 2 ^ c * (b + k)" by simp_all
  then show ?thesis using a b k by (auto simp: blk_def distrib_left)
qed

lemma maximal_blocks:
  assumes core: "core N s fl" and c: "c < CLASS_COUNT" and x: "2 ^ c dvd x" "blk c x \<subseteq> blocks fl"
  shows "\<exists>d y. c \<le> d \<and> d < CLASS_COUNT \<and> y \<in> set (fl d) \<and> blk c x \<subseteq> blk d y"
  using c x
proof (induction c arbitrary: x)
  case 0
  have b: "blk 0 x = {x}" by (auto simp: blk_def)
  then have "x \<in> blocks fl" using 0 by blast
  then obtain d y where "d < CLASS_COUNT" "y \<in> set (fl d)" "x \<in> blk d y" unfolding in_blocks_iff by blast
  with b show ?case by (intro exI [of _ d] exI [of _ y]) simp
next
  case (Suc c)
  note H = halves [OF Suc.prems(2)] and wf = coreD(2) [OF core]
  have c: "c < CLASS_COUNT" "c < CLASS_COUNT - 1" using Suc.prems(1) by simp_all
  obtain d y where 1: "c \<le> d" "d < CLASS_COUNT" "y \<in> set (fl d)" "blk c x \<subseteq> blk d y"
    using Suc.IH [OF c(1) H(1)] Suc.prems(3) H(5) by blast
  obtain e z where 2: "c \<le> e" "e < CLASS_COUNT" "z \<in> set (fl e)" "blk c (x + 2 ^ c) \<subseteq> blk e z"
    using Suc.IH [OF c(1) H(2)] Suc.prems(3) H(5) by blast
  show ?case
  proof (cases "Suc c \<le> d \<or> Suc c \<le> e")
    case True
    then show ?thesis
    proof
      assume d: "Suc c \<le> d"
      have "blk (Suc c) x \<inter> blk d y \<noteq> {}" using 1(4) H(5) blk_self by blast
      then show ?thesis
        using aligned_in_block [OF Suc.prems(2) wf_blocksD(3) [OF wf 1(2,3)] d] d 1 by blast
    next
      assume e: "Suc c \<le> e"
      have "blk (Suc c) x \<inter> blk e z \<noteq> {}" using 2(4) H(5) blk_self by blast
      then show ?thesis
        using aligned_in_block [OF Suc.prems(2) wf_blocksD(3) [OF wf 2(2,3)] e] e 2 by blast
    qed
  next
    case False
    then have de: "d = c" "e = c" using 1(1) 2(1) by simp_all
    have "y = x" "z = x + 2 ^ c" using 1(4) 2(4) de by (auto simp: blk_def)
    then have "x \<in> set (fl c)" "bud c x \<in> set (fl c)" using 1(3) 2(3) de H(3) by simp_all
    moreover have "0 \<le> x" "x < N" using wf_blocksD [OF wf c(1) \<open>x \<in> set (fl c)\<close>] block_fits by blast+
    ultimately show ?thesis
      using bits_ok_get(2) [OF coreD(5) [OF core c(2)] _ _ H(1)] by blast
  qed
qed

section \<open>Requests\<close>

lemma alloc_raw_eq:
  assumes inv: "heap_inv N s fl" and n: "0 < count" "count \<le> 4096"
  shows "\<exists>k. k \<le> CLASS_COUNT \<and> (\<forall>j. k \<le> j \<longleftrightarrow> count \<le> 2 ^ j) \<and>
     alloc_raw s count exact = (case find (\<lambda>d. fl d \<noteq> []) [k..<CLASS_COUNT] of
        Some c \<Rightarrow> alloc_block s c count
      | None \<Rightarrow> if exact then Inr (null_buffer, s) else
          (case find (\<lambda>d. fl d \<noteq> []) (rev [0..<k]) of
             Some it \<Rightarrow> alloc_block s it (2 ^ it) | None \<Rightarrow> Inr (null_buffer, s)))"
proof -
  have l: "lists s fl" using coreD(1) heap_invD(1) [OF inv] by blast
  have "count < 2 ^ 63" using n by simp
  then obtain k where k: "smallest_greater_power2 count = Inr (int k)" "\<forall>j. k \<le> j \<longleftrightarrow> count \<le> 2 ^ j"
    using smallest_greater_power2_iff [OF n(1)] by blast
  have "count \<le> 2 ^ CLASS_COUNT" using n by (simp add: CLASS_COUNT_def)
  then have "k \<le> CLASS_COUNT" using k(2) by blast
  then show ?thesis
    using k n(1) find_class_up_eq [OF l] find_class_down_eq [OF l]
    by (intro exI [of _ k]) (simp add: alloc_raw_def split: option.splits)
qed

lemma find_upt_Some:
  "find P [a..<b] = Some c \<Longrightarrow> a \<le> c \<and> c < b \<and> P c"
  by (auto simp: find_Some_iff)

lemma alloc_block_inv2:
  assumes inv: "heap_inv N s fl" and c: "c < CLASS_COUNT" "fl c \<noteq> []" and n: "0 < n" "n \<le> 2 ^ c"
  shows "\<exists>x s' fl'. alloc_block s c n = Inr (\<lparr>buf_data = page_ptr x, buf_count = n * 4096\<rparr>, s')
           \<and> heap_inv N s' fl' \<and> 0 \<le> x \<and> {x..<x + n} \<subseteq> free_set s
           \<and> free_set s' = free_set s - {x..<x + n} \<and> free_memory s' = free_memory s - n * 4096
           \<and> keeps (free_set s) s s' \<and> 2 ^ c dvd x"
proof -
  obtain x xs where fl: "fl c = x # xs" using c(2) by (cases "fl c") auto
  have "2 ^ c dvd x" using wf_blocksD(3) [OF coreD(2) [OF heap_invD(1) [OF inv]] c(1), of x] fl by simp
  then show ?thesis using alloc_block_inv [OF inv c(1) fl n] by blast
qed

text \<open>A successful request of \<open>n\<close> pages that starts at page \<open>x\<close>.\<close>

definition allocated :: "int \<Rightarrow> memory \<Rightarrow> s64 \<Rightarrow> int \<Rightarrow> memory \<Rightarrow> bool" where
  "allocated N s n x s' \<longleftrightarrow> heap_ok N s' \<and> 0 \<le> x \<and> x + n \<le> N \<and> {x..<x + n} \<subseteq> free_set s
     \<and> free_set s' = free_set s - {x..<x + n} \<and> free_memory s' = free_memory s - n * 4096
     \<and> keeps (free_set s) s s' \<and> (\<exists>k. n \<le> 2 ^ k \<and> 2 ^ k dvd x)"

lemma allocatedI:
  assumes inv: "heap_inv N s fl" and c: "c < CLASS_COUNT" "fl c \<noteq> []" and n: "0 < n" "n \<le> 2 ^ c"
  shows "\<exists>x s'. alloc_block s c n = Inr (\<lparr>buf_data = page_ptr x, buf_count = n * 4096\<rparr>, s')
           \<and> allocated N s n x s'"
proof -
  obtain x s' fl' where x: "alloc_block s c n = Inr (\<lparr>buf_data = page_ptr x, buf_count = n * 4096\<rparr>, s')"
    "heap_inv N s' fl'" "0 \<le> x" "{x..<x + n} \<subseteq> free_set s"
    "free_set s' = free_set s - {x..<x + n}" "free_memory s' = free_memory s - n * 4096"
    "keeps (free_set s) s s'" "2 ^ c dvd x"
    using alloc_block_inv2 [OF inv c n] by blast
  have "x + n - 1 \<in> free_set s" using x(4) n by auto
  then have "x + n \<le> N" using heap_invD(6,10) [OF inv] by (auto simp: free_set_def)
  then show ?thesis using x n by (auto simp: allocated_def heap_ok_def)
qed

lemma no_class_no_run:
  assumes inv: "heap_inv N s fl" and none: "find (\<lambda>d. fl d \<noteq> []) [k..<CLASS_COUNT] = None"
    and j: "k \<le> j" "j < CLASS_COUNT" "2 ^ j dvd y"
  shows "\<not> {y..<y + 2 ^ j} \<subseteq> free_set s"
proof
  assume "{y..<y + 2 ^ j} \<subseteq> free_set s"
  then have "blk j y \<subseteq> blocks fl" using heap_invD(6) [OF inv] by (simp add: blk_def free_set_def)
  then obtain d z where "j \<le> d" "d < CLASS_COUNT" "z \<in> set (fl d)"
    using maximal_blocks [OF heap_invD(1) [OF inv] j(2,3)] by blast
  with none j(1) show False by (auto simp: find_None_iff)
qed

lemma alloc_raw_exact:
  assumes ok: "heap_ok N s" and n: "0 < count" "count \<le> 4096"
  shows "(\<exists>x s'. alloc_raw s count True = Inr (\<lparr>buf_data = page_ptr x, buf_count = count * 4096\<rparr>, s')
            \<and> allocated N s count x s')
       \<or> alloc_raw s count True = Inr (null_buffer, s)
         \<and> (\<forall>k y. k < CLASS_COUNT \<longrightarrow> count \<le> 2 ^ k \<longrightarrow> 2 ^ k dvd y \<longrightarrow> \<not> {y..<y + 2 ^ k} \<subseteq> free_set s)"
proof -
  obtain fl where inv: "heap_inv N s fl" using ok by (auto simp: heap_ok_def)
  obtain k where k: "k \<le> CLASS_COUNT" "\<forall>j. k \<le> j \<longleftrightarrow> count \<le> 2 ^ j"
    "alloc_raw s count True = (case find (\<lambda>d. fl d \<noteq> []) [k..<CLASS_COUNT] of
        Some c \<Rightarrow> alloc_block s c count | None \<Rightarrow> Inr (null_buffer, s))"
    using alloc_raw_eq [OF inv n, of True] by auto
  show ?thesis
  proof (cases "find (\<lambda>d. fl d \<noteq> []) [k..<CLASS_COUNT]")
    case None
    then show ?thesis using k(2,3) no_class_no_run [OF inv None] by simp
  next
    case (Some c)
    note c = find_upt_Some [OF Some]
    then have "count \<le> 2 ^ c" using k(2) by blast
    then show ?thesis using allocatedI [OF inv, of c count] c n k(3) Some by auto
  qed
qed

lemma find_below_Some:
  assumes "find P (rev [0..<k]) = Some c"
  shows "c < k" "P c" "c < d \<Longrightarrow> d < k \<Longrightarrow> \<not> P d"
proof -
  obtain i where i: "i < k" "c = rev [0..<k] ! i" "P c" "\<forall>j<i. \<not> P (rev [0..<k] ! j)" using assms by (auto simp: find_Some_iff)
  have c: "c = k - Suc i" using i(1,2) by (simp add: rev_nth)
  show "c < k" "P c" using c i(1,3) by simp_all
  show "\<not> P d" if "c < d" "d < k" using i(4) [rule_format, of "k - Suc d"] that c i(1) by (simp add: rev_nth)
qed

lemma alloc_raw_inexact:
  assumes ok: "heap_ok N s" and n: "0 < count" "count \<le> 4096"
  shows "(\<exists>x s' m. alloc_raw s count False = Inr (\<lparr>buf_data = page_ptr x, buf_count = m * 4096\<rparr>, s')
            \<and> allocated N s m x s' \<and> 0 < m \<and> m \<le> count
            \<and> (m < count \<longrightarrow> (\<exists>j. m = 2 ^ j) \<and>
               (\<forall>k y. k < CLASS_COUNT \<longrightarrow> m < 2 ^ k \<longrightarrow> 2 ^ k dvd y \<longrightarrow> \<not> {y..<y + 2 ^ k} \<subseteq> free_set s)))
       \<or> alloc_raw s count False = Inr (null_buffer, s) \<and> free_set s = {}"
proof -
  obtain fl where inv: "heap_inv N s fl" using ok by (auto simp: heap_ok_def)
  obtain k where k: "k \<le> CLASS_COUNT" "\<forall>j. k \<le> j \<longleftrightarrow> count \<le> 2 ^ j"
    "alloc_raw s count False = (case find (\<lambda>d. fl d \<noteq> []) [k..<CLASS_COUNT] of
        Some c \<Rightarrow> alloc_block s c count | None \<Rightarrow>
          (case find (\<lambda>d. fl d \<noteq> []) (rev [0..<k]) of
             Some it \<Rightarrow> alloc_block s it (2 ^ it) | None \<Rightarrow> Inr (null_buffer, s)))"
    using alloc_raw_eq [OF inv n, of False] by auto
  show ?thesis
  proof (cases "find (\<lambda>d. fl d \<noteq> []) [k..<CLASS_COUNT]")
    case up: None
    show ?thesis
    proof (cases "find (\<lambda>d. fl d \<noteq> []) (rev [0..<k])")
      case None
      have "fl d = []" if "d < CLASS_COUNT" for d
        using None up that by (cases "d < k") (auto simp: find_None_iff)
      then have "free_set s = {}"
        using heap_invD(6) [OF inv] by (auto simp: free_set_def blocks_def)
      then show ?thesis using k(3) up None by simp
    next
      case (Some c)
      note below = find_below_Some [OF Some]
      then have cc: "c < CLASS_COUNT" using k(1) by simp
      have big: "\<not> count \<le> 2 ^ c" using below(1) k(2) by (meson leD)
      have none: "find (\<lambda>d. fl d \<noteq> []) [Suc c..<CLASS_COUNT] = None"
        unfolding find_None_iff
      proof (intro notI, elim exE conjE)
        fix d assume d: "d \<in> set [Suc c..<CLASS_COUNT]" "fl d \<noteq> []"
        then have "\<not> d < k" using below(3) by auto
        with d up show False by (auto simp: find_None_iff)
      qed
      obtain x s' where "alloc_block s c (2 ^ c) = Inr (\<lparr>buf_data = page_ptr x, buf_count = 2 ^ c * 4096\<rparr>, s')"
        "allocated N s (2 ^ c) x s'"
        using allocatedI [OF inv cc below(2), of "2 ^ c"] by auto
      moreover have "\<not> {y..<y + 2 ^ j} \<subseteq> free_set s"
        if "j < CLASS_COUNT" "(2 :: int) ^ c < 2 ^ j" "2 ^ j dvd y" for j y
        using no_class_no_run [OF inv none _ that(1,3)] that(2) by (simp add: Suc_le_eq)
      ultimately show ?thesis
        using k(3) up Some big by (intro disjI1 exI [of _ x] exI [of _ s'] exI [of _ "2 ^ c"]) auto
    qed
  next
    case (Some c)
    note c = find_upt_Some [OF Some]
    then have "count \<le> 2 ^ c" using k(2) by blast
    then obtain x s' where "alloc_block s c count = Inr (\<lparr>buf_data = page_ptr x, buf_count = count * 4096\<rparr>, s')"
      "allocated N s count x s'" using allocatedI [OF inv, of c count] c n by auto
    then show ?thesis using k(3) Some n by auto
  qed
qed

end
