(* ===== verification/Bytes.thy ===== *)
theory Bytes
  imports Free_Lists
begin

text \<open>
  Byte access to the word memory of \<open>Free_Lists\<close> (little endian, as on x86-64) and the
  byte loops \<^verbatim>\<open>memcpy\<close> and \<^verbatim>\<open>memset\<close> of \<^verbatim>\<open>src/lib/basics.h\<close>.
\<close>

definition word_addr :: "u64 \<Rightarrow> u64" where
  "word_addr a = a AND NOT (mask 3)"

definition byte_pos :: "u64 \<Rightarrow> nat" where
  "byte_pos a = 8 * unat (a AND mask 3)"

definition load_byte :: "(u64 \<Rightarrow> u64) \<Rightarrow> u64 \<Rightarrow> u8" where
  "load_byte m a = ucast (drop_bit (byte_pos a) (m (word_addr a)))"

definition store_byte :: "(u64 \<Rightarrow> u64) \<Rightarrow> u64 \<Rightarrow> u8 \<Rightarrow> u64 \<Rightarrow> u64" where
  "store_byte m a v = m(word_addr a :=
     (m (word_addr a) AND NOT (push_bit (byte_pos a) (mask 8))) OR push_bit (byte_pos a) (ucast v))"

fun memset_loop :: "(u64 \<Rightarrow> u64) \<Rightarrow> u64 \<Rightarrow> u8 \<Rightarrow> nat \<Rightarrow> u64 \<Rightarrow> u64" where
  "memset_loop m buffer byte 0 = m"
| "memset_loop m buffer byte (Suc n) = memset_loop (store_byte m buffer byte) (buffer + 1) byte n"

definition memset :: "(u64 \<Rightarrow> u64) \<Rightarrow> u64 \<Rightarrow> u8 \<Rightarrow> s64 \<Rightarrow> u64 \<Rightarrow> u64" where
  "memset m buffer byte len = memset_loop m buffer byte (nat len)"

fun memcpy_loop :: "(u64 \<Rightarrow> u64) \<Rightarrow> u64 \<Rightarrow> u64 \<Rightarrow> nat \<Rightarrow> u64 \<Rightarrow> u64" where
  "memcpy_loop m dest src 0 = m"
| "memcpy_loop m dest src (Suc n) = memcpy_loop (store_byte m dest (load_byte m src)) (dest + 1) (src + 1) n"

text \<open>
  The loop of \<^verbatim>\<open>memcpy\<close> runs until the source pointer equals its end pointer, so
  its number of rounds is \<^verbatim>\<open>count\<close> as an unsigned 64-bit number.
\<close>

definition memcpy :: "(u64 \<Rightarrow> u64) \<Rightarrow> u64 \<Rightarrow> u64 \<Rightarrow> s64 \<Rightarrow> u64 \<Rightarrow> u64" where
  "memcpy m dest src count = memcpy_loop m dest src (unat (U64 count))"

section \<open>Bytes and words\<close>

lemma byte_pos_le: "byte_pos a \<le> 56"
proof -
  have "a AND mask 3 \<le> (mask 3 :: u64)" by (rule word_and_le1)
  then have "unat (a AND mask 3) \<le> unat (mask 3 :: u64)" by (simp only: word_le_nat_alt)
  then show ?thesis by (simp add: byte_pos_def mask_eq_exp_minus_1)
qed

lemma addr_eq_iff: "a = b \<longleftrightarrow> word_addr a = word_addr b \<and> byte_pos a = byte_pos b"
proof
  assume eq: "word_addr a = word_addr b \<and> byte_pos a = byte_pos b"
  then have "a AND mask 3 = b AND mask 3" by (simp add: byte_pos_def word_unat_eq_iff)
  moreover have "x = (x AND NOT (mask 3)) OR (x AND mask 3)" for x :: u64
    by (rule bit_word_eqI) (auto simp: bit_simps)
  ultimately show "a = b" using eq unfolding word_addr_def by metis
qed simp

lemma load_store_byte:
  "load_byte (store_byte m a v) b = (if a = b then v else load_byte m b)"
proof (cases "word_addr a = word_addr b")
  case True
  show ?thesis
  proof (cases "a = b")
    case True
    then show ?thesis using byte_pos_le [of b]
      by (auto simp: load_byte_def store_byte_def intro!: bit_word_eqI simp: bit_simps)
  next
    case False
    then have "unat (a AND mask 3) \<noteq> unat (b AND mask 3)" using True addr_eq_iff [of a b] by (simp add: byte_pos_def)
    then have "byte_pos a + 8 \<le> byte_pos b \<or> byte_pos b + 8 \<le> byte_pos a" by (auto simp: byte_pos_def)
    moreover have "\<not> bit v i" if "8 \<le> i" for i using bit_imp_le_length [of v i] that by auto
    ultimately have "load_byte (store_byte m a v) b = load_byte m b" using True byte_pos_le [of b]
      by (auto simp: load_byte_def store_byte_def bit_simps intro!: bit_word_eqI)
    with False show ?thesis by simp
  qed
next
  case False
  then show ?thesis by (auto simp: load_byte_def store_byte_def)
qed

lemma load_memset_loop:
  assumes "uint a + int n \<le> 2 ^ 64"
  shows "load_byte (memset_loop m a v n) b =
     (if uint a \<le> uint b \<and> uint b < uint a + int n then v else load_byte m b)"
  using assms
proof (induction n arbitrary: m a)
  case (Suc n)
  show ?case
  proof (cases "n = 0")
    case True
    then show ?thesis by (auto simp: load_store_byte word_uint_eq_iff)
  next
    case False
    then have "uint (a + 1) = uint a + 1" using Suc.prems
      by (subst uint_plus_if') (auto)
    then show ?thesis using Suc by (auto simp: load_store_byte word_uint_eq_iff)
  qed
qed auto

lemma load_memset:
  assumes "uint a + len \<le> 2 ^ 64"
  shows "load_byte (memset m a v len) b =
     (if uint a \<le> uint b \<and> uint b < uint a + len then v else load_byte m b)"
  using load_memset_loop [of a "nat len" m v b] assms uint_bounded [of a]
  by (cases "0 \<le> len") (auto simp: memset_def)

text \<open>A forward copy reads every source byte before it is overwritten when the destination is
  not inside the source, or starts below it.\<close>

lemma load_memcpy_loop:
  assumes "uint d + int n \<le> 2 ^ 64" "uint s + int n \<le> 2 ^ 64"
    and "uint d \<le> uint s \<or> uint s + int n \<le> uint d"
  shows "load_byte (memcpy_loop m d s n) b =
     (if uint d \<le> uint b \<and> uint b < uint d + int n then load_byte m (b - d + s) else load_byte m b)"
  using assms
proof (induction n arbitrary: m d s)
  case (Suc n)
  have eq: "b - d + s = s \<longleftrightarrow> b = d" by (simp add: algebra_simps)
  show ?case
  proof (cases "n = 0")
    case True
    have "uint d \<le> uint b \<and> uint b < uint d + 1 \<longleftrightarrow> b = d" by (auto simp: word_uint_eq_iff)
    then show ?thesis using True by (auto simp: load_store_byte)
  next
    case False
    then have n: "uint (d + 1) = uint d + 1" "uint (s + 1) = uint s + 1" using Suc.prems
      by (subst uint_plus_if'; auto)+
    have off: "b - (d + 1) + (s + 1) = b - d + s" by (simp add: algebra_simps)
    have far: "d \<noteq> b - d + s" if "uint d + 1 \<le> uint b" "uint b < uint d + 1 + int n"
    proof
      assume "d = b - d + s"
      have "uint (b - d) = uint b - uint d" using that by (subst uint_sub_if') auto
      then have "uint (b - d + s) = uint b - uint d + uint s"
        using that Suc.prems(2) by (subst uint_plus_if') auto
      with \<open>d = b - d + s\<close> have "uint d = uint b - uint d + uint s" by metis
      with that Suc.prems(3) show False by linarith
    qed
    have IH: "load_byte (memcpy_loop m' (d + 1) (s + 1) n) b =
       (if uint d + 1 \<le> uint b \<and> uint b < uint d + 1 + int n then load_byte m' (b - d + s) else load_byte m' b)" for m'
      using Suc.IH [of "d + 1" "s + 1" m'] Suc.prems unfolding n off by auto
    have "uint d = uint b \<longleftrightarrow> d = b" by (simp add: word_uint_eq_iff)
    then show ?thesis using far by (auto simp: IH load_store_byte)
  qed
qed auto

lemma load_memcpy:
  assumes "0 \<le> n" "uint d + n \<le> 2 ^ 64" "uint s + n \<le> 2 ^ 64"
    and "uint d \<le> uint s \<or> uint s + n \<le> uint d" "n < 2 ^ 64"
  shows "load_byte (memcpy m d s n) b =
     (if uint d \<le> uint b \<and> uint b < uint d + n then load_byte m (b - d + s) else load_byte m b)"
proof -
  have "int (unat (U64 n)) = n" using assms(1,5) by (simp add: uint_word_of_int_small)
  then show ?thesis using load_memcpy_loop [of d "unat (U64 n)" s m b] assms by (simp add: memcpy_def)
qed

text \<open>A word is determined by its eight bytes.\<close>

lemma word_eq_bytes:
  assumes p: "a AND mask 3 = 0" and eq: "\<And>k. k < 8 \<Longrightarrow> load_byte m (a + of_nat k) = load_byte m' (a + of_nat k)"
  shows "m a = m' a"
proof (rule bit_word_eqI)
  fix n assume "n < LENGTH(64)"
  then have n: "n < 64" by simp
  define k where "k = n div 8"
  have k: "k < 8" "n = 8 * k + n mod 8" using n by (simp_all add: k_def)
  define w :: u64 where "w = of_nat k"
  have low: "\<not> i < 3" if "bit a i" for i
    using arg_cong [OF p, of "\<lambda>w. bit w i"] that by (auto simp: bit_simps)
  have high: "i < 3" if "bit w i" for i
  proof (rule ccontr)
    assume "\<not> i < 3"
    then have "(2 :: nat) ^ 3 \<le> 2 ^ i" by (intro power_increasing) simp_all
    then have "k < 2 ^ i" using k(1) by simp
    with that show False by (simp add: w_def bit_of_nat_iff_bit bit_simps) (simp add: bit_iff_odd)
  qed
  have "a AND w = 0" by (rule bit_word_eqI) (use low high in \<open>auto simp: bit_simps\<close>)
  then have or: "a + w = a OR w" by (simp add: disjunctive_add_eq_or)
  have wa: "word_addr (a + of_nat k) = a"
    unfolding w_def [symmetric] or word_addr_def
    by (rule bit_word_eqI) (use low high in \<open>auto simp: bit_simps\<close>)
  have "(a + w) AND mask 3 = w"
    unfolding or by (rule bit_word_eqI) (use low high in \<open>auto simp: bit_simps\<close>)
  then have pos: "byte_pos (a + of_nat k) = 8 * k" using k(1) by (simp add: byte_pos_def w_def unat_of_nat_small)
  have "bit (load_byte m (a + of_nat k)) (n mod 8) = bit (load_byte m' (a + of_nat k)) (n mod 8)"
    using eq [OF k(1)] by simp
  then show "bit (m a) n = bit (m' a) n"
    using k(2) by (simp add: load_byte_def wa pos bit_simps)
qed

end
