(* ===== verification/Page_Allocator.thy ===== *)
theory Page_Allocator
  imports Heap Bytes
begin

text \<open>
  The contract of the page allocator. The locale \<open>page_allocator\<close> states what the kernel
  relies on when it asks for pages and gives them back; it is interpreted on the model of
  \<^verbatim>\<open>src/kern/memory.c\<close>. The theory also holds the checks of
  \<^verbatim>\<open>release_pages\<close>, the consistency check \<^verbatim>\<open>validate_heap\<close> and zeroed
  pages.
\<close>

section \<open>Checked release\<close>

lemma bits_of_bounds: "bits_of b \<subseteq> {0..<bs_count b}"
  by (auto simp: bits_of_def)

lemma get_all_eq_Inr:
  assumes "bs_wf b"
  shows "BitSet__get_all b l u = Inr v \<longleftrightarrow> 0 \<le> l \<and> l \<le> u \<and> u \<le> bs_count b \<and> v = ({l..<u} \<subseteq> bits_of b)"
proof (cases "0 \<le> l \<and> l \<le> u \<and> u \<le> bs_count b")
  case True
  then show ?thesis using bs.get_all [OF assms] by auto
next
  case False
  then show ?thesis by (auto simp: BitSet__get_all_def check_range_def result_simps)
qed

lemma release_pages_Inr_iff:
  assumes ok: "heap_ok N s" and b: "0 \<le> b" "b < N"
  shows "(\<exists>s'. release_pages s (page_ptr b) n = Inr s') \<longleftrightarrow>
           0 \<le> n \<and> b + n \<le> N \<and> {b..<b + n} \<subseteq> usable_set s - free_set s"
proof
  obtain fl where inv: "heap_inv N s fl" using ok by (auto simp: heap_ok_def)
  note D = heap_invD [OF inv]
  have pg: "page_ok b" by (rule page_ok_in [OF D(9) b])
  {
    assume "\<exists>s'. release_pages s (page_ptr b) n = Inr s'"
    then have all: "BitSet__get_all (usable_pages s) b (b + n) = Inr True"
      and any: "BitSet__get_any (free_pages s) b (b + n) = Inr False"
      using physical_address_page [OF pg] page_addr_facts [OF pg]
      by (auto simp: release_pages_def result_simps Let_def)
    then have r: "0 \<le> n" "b + n \<le> N" "{b..<b + n} \<subseteq> usable_set s"
      using get_all_eq_Inr [OF D(2)] D(3) by (auto simp: usable_set_def)
    moreover have "{b..<b + n} \<inter> free_set s = {}"
      using any bs.get_any [OF D(4) b(1), of "b + n"] r D(5) by (simp add: free_set_def)
    ultimately show "0 \<le> n \<and> b + n \<le> N \<and> {b..<b + n} \<subseteq> usable_set s - free_set s" by blast
  next
    assume "0 \<le> n \<and> b + n \<le> N \<and> {b..<b + n} \<subseteq> usable_set s - free_set s"
    then show "\<exists>s'. release_pages s (page_ptr b) n = Inr s'"
      using release_pages_inv [OF inv b, of n] by blast
  }
qed

lemma release_pages_spec:
  assumes ok: "heap_ok N s" and n: "0 < n" and use: "{b..<b + n} \<subseteq> usable_set s - free_set s"
  shows "\<exists>s'. release_pages s (page_ptr b) n = Inr s' \<and> heap_ok N s'
           \<and> free_set s' = free_set s \<union> {b..<b + n} \<and> free_memory s' = free_memory s + n * 4096
           \<and> keeps (free_set s') s s'"
proof -
  obtain fl where inv: "heap_inv N s fl" using ok by (auto simp: heap_ok_def)
  have "b \<in> {b..<b + n}" "b + n - 1 \<in> {b..<b + n}" using n by auto
  then have "b \<in> usable_set s" "b + n - 1 \<in> usable_set s" using use by blast+
  then have "0 \<le> b" "b < N" "b + n \<le> N"
    using bits_of_bounds [of "usable_pages s"] heap_invD(3) [OF inv] by (auto simp: usable_set_def)
  then show ?thesis using release_pages_inv [OF inv, of b n] less_imp_le [OF n] use unfolding heap_ok_def by blast
qed

section \<open>The interface\<close>

text \<open>
  A client keeps the set of pages it owns. \<open>serve\<close> is one request of such a client: every request for pages is passed
  on, and pages are given back only where the client owns the whole run. \<open>asks_within\<close> says that a request for pages asks
  for at least one page and no more than the allocator can serve.
\<close>

datatype request = Alloc int | Release int int

fun asks_within :: "int \<Rightarrow> request \<Rightarrow> bool" where
  "asks_within limit (Alloc n) \<longleftrightarrow> 0 < n \<and> n \<le> limit"
| "asks_within limit (Release b n) \<longleftrightarrow> True"

fun serve :: "('s \<Rightarrow> int \<Rightarrow> (int option \<times> 's) result) \<Rightarrow> ('s \<Rightarrow> int \<Rightarrow> int \<Rightarrow> 's result)
    \<Rightarrow> request \<Rightarrow> int set \<times> 's \<Rightarrow> (int set \<times> 's) result" where
  "serve alloc release (Alloc n) (own, s) =
     bindR (alloc s n) (\<lambda>(p, s'). Inr (case p of None \<Rightarrow> own | Some x \<Rightarrow> own \<union> {x..<x + n}, s'))"
| "serve alloc release (Release b n) (own, s) =
     (if 0 < n \<and> {b..<b + n} \<subseteq> own
      then bindR (release s b n) (\<lambda>s'. Inr (own - {b..<b + n}, s'))
      else Inr (own, s))"

fun serve_all :: "(request \<Rightarrow> 'c \<Rightarrow> 'c result) \<Rightarrow> request list \<Rightarrow> 'c \<Rightarrow> 'c result" where
  "serve_all step [] c = Inr c"
| "serve_all step (r # rs) c = bindR (step r c) (serve_all step rs)"

locale page_allocator =
  fixes ok :: "'s \<Rightarrow> bool"
    and free :: "'s \<Rightarrow> int set"
    and usable :: "'s \<Rightarrow> int set"
    and limit :: int
    and alloc :: "'s \<Rightarrow> int \<Rightarrow> (int option \<times> 's) result"
    and release :: "'s \<Rightarrow> int \<Rightarrow> int \<Rightarrow> 's result"
  assumes free_usable: "ok s \<Longrightarrow> free s \<subseteq> usable s"
    and alloc: "ok s \<Longrightarrow> 0 < n \<Longrightarrow> n \<le> limit \<Longrightarrow>
          alloc s n = Inr (None, s) \<or>
          (\<exists>x s'. alloc s n = Inr (Some x, s') \<and> ok s' \<and> usable s' = usable s
             \<and> {x..<x + n} \<subseteq> free s \<and> free s' = free s - {x..<x + n})"
    and release: "ok s \<Longrightarrow> 0 < n \<Longrightarrow> {b..<b + n} \<subseteq> usable s - free s \<Longrightarrow>
          \<exists>s'. release s b n = Inr s' \<and> ok s' \<and> usable s' = usable s \<and> free s' = free s \<union> {b..<b + n}"
begin

definition balanced :: "int set \<Rightarrow> int set \<times> 's \<Rightarrow> bool" where
  "balanced P c \<longleftrightarrow> (case c of (own, s) \<Rightarrow>
     ok s \<and> own \<inter> free s = {} \<and> own \<union> free s = P \<and> P \<subseteq> usable s)"

lemma serve_alloc:
  assumes inv: "ok s" "own \<inter> free s = {}" "own \<union> free s = P" "P \<subseteq> usable s"
    and n: "0 < n" "n \<le> limit"
  shows "\<exists>c'. serve alloc release (Alloc n) (own, s) = Inr c' \<and> balanced P c'"
proof -
  consider "alloc s n = Inr (None, s)"
    | x s' where "alloc s n = Inr (Some x, s')" "ok s'" "usable s' = usable s"
        "{x..<x + n} \<subseteq> free s" "free s' = free s - {x..<x + n}"
    using alloc [OF inv(1) n] by blast
  then show ?thesis
  proof cases
    case 2
    then have "(own \<union> {x..<x + n}) \<inter> free s' = {}" "own \<union> {x..<x + n} \<union> free s' = P"
      using inv by blast+
    then show ?thesis using 2 inv by (simp add: balanced_def)
  qed (use inv in \<open>simp add: balanced_def\<close>)
qed

lemma serve_release:
  assumes inv: "ok s" "own \<inter> free s = {}" "own \<union> free s = P" "P \<subseteq> usable s"
  shows "\<exists>c'. serve alloc release (Release b n) (own, s) = Inr c' \<and> balanced P c'"
proof (cases "0 < n \<and> {b..<b + n} \<subseteq> own")
  case True
  then have "{b..<b + n} \<subseteq> usable s - free s" using inv by blast
  then obtain s' where "release s b n = Inr s'" "ok s'" "usable s' = usable s"
    "free s' = free s \<union> {b..<b + n}" using release [OF inv(1)] True by blast
  then show ?thesis using True inv by (auto simp: balanced_def)
qed (use inv in \<open>auto simp: balanced_def\<close>)

lemma serve_balanced: "balanced P c \<Longrightarrow> asks_within limit r \<Longrightarrow> \<exists>c'. serve alloc release r c = Inr c' \<and> balanced P c'"
  using serve_alloc [of "snd c" "fst c" P] serve_release [of "snd c" "fst c" P]
  by (cases r) (simp_all add: balanced_def [of _ c] split: prod.splits)

lemma serve_all_balanced:
  "balanced P c \<Longrightarrow> list_all (asks_within limit) rs \<Longrightarrow> \<exists>c'. serve_all (serve alloc release) rs c = Inr c' \<and> balanced P c'"
proof (induction rs arbitrary: c)
  case (Cons r rs)
  then obtain c' where "serve alloc release r c = Inr c'" "balanced P c'" using serve_balanced [of P c r] by auto
  then show ?case using Cons.IH Cons.prems(2) by simp
qed simp

lemma alloc_release:
  assumes "ok s" "0 < n" "n \<le> limit" "alloc s n = Inr (Some x, s')"
  shows "\<exists>s''. release s' x n = Inr s'' \<and> ok s'' \<and> free s'' = free s \<and> usable s'' = usable s"
proof -
  have a: "ok s'" "usable s' = usable s" "{x..<x + n} \<subseteq> free s" "free s' = free s - {x..<x + n}"
    using alloc [OF assms(1-3)] assms(4) by auto
  then have "{x..<x + n} \<subseteq> usable s' - free s'" using free_usable [OF assms(1)] by blast
  from release [OF a(1) assms(2) this] a show ?thesis by auto
qed

lemma alloc_disjoint:
  assumes "ok s" "0 < n" "n \<le> limit" "alloc s n = Inr (Some x, s')"
    and "0 < m" "m \<le> limit" "alloc s' m = Inr (Some y, s'')"
  shows "{x..<x + n} \<inter> {y..<y + m} = {}"
  using alloc [OF assms(1-3)] alloc [of s' m] assms by fastforce

end

text \<open>Pages by number instead of by address.\<close>

definition page_number :: "u64 \<Rightarrow> int" where
  "page_number p = (uint p - uint KERNEL_SPACE_BEGIN) div 4096"

definition alloc_pages :: "memory \<Rightarrow> s64 \<Rightarrow> (int option \<times> memory) result" where
  "alloc_pages s n = bindR (raw_pages s n) (\<lambda>(p, s'). Inr (if p = 0 then None else Some (page_number p), s'))"

definition free_page_run :: "memory \<Rightarrow> int \<Rightarrow> s64 \<Rightarrow> memory result" where
  "free_page_run s b n = release_pages s (page_ptr b) n"

lemma page_number_ptr: "page_ok x \<Longrightarrow> page_number (page_ptr x) = x"
  using uint_page_off [of x 0] by (simp add: page_number_def KERNEL_SPACE_BEGIN_def)

lemma heap_ok_bound: "heap_ok N s \<Longrightarrow> N \<le> 2 ^ 35"
  by (auto simp: heap_ok_def dest: heap_invD(9))

lemma free_subset_usable: "heap_ok N s \<Longrightarrow> free_set s \<subseteq> usable_set s"
  by (auto simp: heap_ok_def heap_inv_def free_set_def usable_set_def)

lemma raw_pages_spec:
  assumes ok: "heap_ok N s" and n: "0 < n" "n \<le> 4096"
  shows "(\<exists>x s'. raw_pages s n = Inr (page_ptr x, s') \<and> page_ok x \<and> allocated N s n x s')
       \<or> raw_pages s n = Inr (0, s)
         \<and> (\<forall>k y. k < CLASS_COUNT \<longrightarrow> n \<le> 2 ^ k \<longrightarrow> 2 ^ k dvd y \<longrightarrow> \<not> {y..<y + 2 ^ k} \<subseteq> free_set s)"
  using alloc_raw_exact [OF ok n] heap_ok_bound [OF ok] n(1)
  by (auto simp: raw_pages_def null_buffer_def allocated_def page_ok_def)

interpretation pa: page_allocator "heap_ok N" free_set usable_set 4096 alloc_pages free_page_run for N
proof unfold_locales
  fix s n assume ok: "heap_ok N s" and n: "0 < n" "n \<le> (4096 :: int)"
  show "alloc_pages s n = Inr (None, s) \<or>
          (\<exists>x s'. alloc_pages s n = Inr (Some x, s') \<and> heap_ok N s' \<and> usable_set s' = usable_set s
             \<and> {x..<x + n} \<subseteq> free_set s \<and> free_set s' = free_set s - {x..<x + n})"
    using raw_pages_spec [OF ok n]
    by (auto simp: alloc_pages_def allocated_def keeps_def page_number_ptr page_ptr_nonzero)
next
  fix s n b assume "heap_ok N s" "0 < n" "{b..<b + n} \<subseteq> usable_set s - free_set s"
  then show "\<exists>s'. free_page_run s b n = Inr s' \<and> heap_ok N s' \<and> usable_set s' = usable_set s
               \<and> free_set s' = free_set s \<union> {b..<b + n}"
    using release_pages_spec [of N s n b] by (auto simp: free_page_run_def keeps_def)
qed (use free_subset_usable in blast)

section \<open>The consistency check\<close>

lemma validate_list_eq:
  assumes "dseg m c pr p xs 0" "\<forall>x\<in>set xs. page_ok x"
  shows "validate_list m c p success acc = Some (success, acc + int (length xs) * 2 ^ c * 4096)"
  using assms
proof (induction xs arbitrary: p pr acc)
  case Nil
  then show ?case by (simp add: validate_list.simps)
next
  case (Cons x xs)
  then show ?case
    using page_ptr_nonzero [of x]
    by (subst validate_list.simps) (auto simp: algebra_simps)
qed

lemma validate_classes_eq:
  assumes l: "lists s fl" and n: "n \<le> CLASS_COUNT"
  shows "validate_classes s n True acc =
    Some (True, acc + (\<Sum>c\<in>{CLASS_COUNT - n..<CLASS_COUNT}. int (length (fl c)) * 2 ^ c * 4096))"
  using n
proof (induction n arbitrary: acc)
  case (Suc n)
  define c where "c = CLASS_COUNT - Suc n"
  have c: "c < CLASS_COUNT" "CLASS_COUNT - n = Suc c" using Suc.prems by (auto simp: c_def)
  have "{c..<CLASS_COUNT} = insert c {Suc c..<CLASS_COUNT}" using c(1) by auto
  then show ?case
    using Suc validate_list_eq [OF lists_classD(1,3) [OF l c(1)]]
    by (simp add: c_def [symmetric] c(2) algebra_simps)
qed simp

lemma card_blocks:
  assumes l: "lists s fl" and wf: "wf_blocks N fl"
  shows "int (card (blocks fl)) = (\<Sum>c<CLASS_COUNT. int (length (fl c)) * 2 ^ c)"
proof -
  have one: "card (blk c x) = 2 ^ c" for c x by (simp add: blk_def nat_power_eq)
  have cls: "card (\<Union>x\<in>set (fl c). blk c x) = length (fl c) * 2 ^ c" if c: "c < CLASS_COUNT" for c
  proof -
    have "card (\<Union>x\<in>set (fl c). blk c x) = (\<Sum>x\<in>set (fl c). card (blk c x))"
      by (rule card_UN_disjoint) (use wf_blocks_disjoint [OF wf c _ c] in \<open>auto simp: blk_def [abs_def]\<close>)
    then show ?thesis using one lists_classD(2) [OF l c] by (simp add: distinct_card)
  qed
  have "card (blocks fl) = (\<Sum>c<CLASS_COUNT. card (\<Union>x\<in>set (fl c). blk c x))"
    unfolding blocks_def
  proof (rule card_UN_disjoint)
    show "\<forall>c\<in>{..<CLASS_COUNT}. finite (\<Union>x\<in>set (fl c). blk c x)" by (simp add: blk_def)
    show "\<forall>c\<in>{..<CLASS_COUNT}. \<forall>d\<in>{..<CLASS_COUNT}. c \<noteq> d \<longrightarrow>
        (\<Union>x\<in>set (fl c). blk c x) \<inter> (\<Union>x\<in>set (fl d). blk d x) = {}"
    proof (intro ballI impI)
      fix c d assume cd: "c \<in> {..<CLASS_COUNT}" "d \<in> {..<CLASS_COUNT}" "c \<noteq> d"
      then have "blk c x \<inter> blk d y = {}" if "x \<in> set (fl c)" "y \<in> set (fl d)" for x y
        using wf_blocks_disjoint [OF wf _ that(1) _ that(2)] by simp
      then show "(\<Union>x\<in>set (fl c). blk c x) \<inter> (\<Union>x\<in>set (fl d). blk d x) = {}" by blast
    qed
  qed simp
  then show ?thesis using cls by simp
qed

lemma validate_heap_ok:
  assumes "heap_ok N s"
  shows "validate_heap s = Some (Inr ())"
proof -
  obtain fl where inv: "heap_inv N s fl" using assms by (auto simp: heap_ok_def)
  note D = heap_invD [OF inv] and C = coreD [OF heap_invD(1) [OF inv]]
  have "(\<Sum>c\<in>{0..<CLASS_COUNT}. int (length (fl c)) * 2 ^ c * 4096) = free_memory s"
    unfolding D(8) card_blocks [OF C(1,2)]
    by (simp add: sum_distrib_left atLeast0LessThan mult.commute [of 4096])
  then show ?thesis
    using validate_classes_eq [OF C(1), of CLASS_COUNT 0] by (simp add: validate_heap_def)
qed

section \<open>Requests the allocator cannot serve\<close>

lemma alloc_raw_too_large:
  assumes ok: "heap_ok N s" and n: "4096 < count" "count < 2 ^ 63"
  shows "alloc_raw s count exact = Inl OutOfBounds"
proof -
  obtain k where k: "smallest_greater_power2 count = Inr (int k)" "\<forall>j. k \<le> j \<longleftrightarrow> count \<le> 2 ^ j"
    using smallest_greater_power2_iff [of count] n by auto
  have "\<not> count \<le> 2 ^ CLASS_COUNT" using n by (simp add: CLASS_COUNT_def)
  then have "CLASS_COUNT < k" using k(2) not_le by blast
  moreover have "length (classes s) = CLASS_COUNT"
    using ok by (auto simp: heap_ok_def dest!: heap_invD(1) coreD(4))
  ultimately show ?thesis using k(1) n find_class_up_beyond by (simp add: alloc_raw_def)
qed

section \<open>Zeroed pages\<close>

definition zeroed_pages :: "memory \<Rightarrow> s64 \<Rightarrow> (u64 \<times> memory) result" where
  "zeroed_pages s count =
     bindR (alloc_raw s count True) (\<lambda>(buf, s).
     if buf_data buf = 0 then Inr (0, s)
     else Inr (buf_data buf, s\<lparr>mem := memset (mem s) (buf_data buf) 0 (count * 4096)\<rparr>))"

lemma heap_inv_mem:
  assumes inv: "heap_inv N s fl" and same: "\<And>y a. y \<in> free_set s \<Longrightarrow> a \<in> page_addrs y \<Longrightarrow> m a = mem s a"
  shows "heap_inv N (s\<lparr>mem := m\<rparr>) fl"
proof -
  note D = heap_invD [OF inv] and C = coreD [OF heap_invD(1) [OF inv]]
  have free: "x \<in> free_set s" if "c < CLASS_COUNT" "x \<in> set (fl c)" for c x
    using blk_in_blocks [of c x fl] that blk_self D(6) by (auto simp: free_set_def)
  have "dseg m c 0 (freelist (classes s ! c)) (fl c) 0" if "c < CLASS_COUNT" for c
    using dseg_mem_cong [of "fl c" m "mem s"] free [OF that] same lists_classD(1) [OF C(1) that] by blast
  then have "lists (s\<lparr>mem := m\<rparr>) fl" using C(1) by (simp add: lists_def)
  then show ?thesis using inv by (simp add: heap_inv_def core_def)
qed

lemma heap_ok_mem:
  assumes "heap_ok N s" "\<And>y a. y \<in> free_set s \<Longrightarrow> a \<in> page_addrs y \<Longrightarrow> m a = mem s a"
  shows "heap_ok N (s\<lparr>mem := m\<rparr>)"
  using assms heap_inv_mem unfolding heap_ok_def by blast

lemma memset_loop_unaligned: "a AND mask 3 \<noteq> 0 \<Longrightarrow> memset_loop m p v n a = m a"
proof (induction n arbitrary: m p)
  case (Suc n)
  have "word_addr p AND mask 3 = 0" by (simp add: word_addr_def bit_eq_iff bit_simps)
  then have "a \<noteq> word_addr p" using Suc.prems by auto
  then show ?case using Suc by (simp add: store_byte_def)
qed simp

lemma page_off_aligned:
  assumes "page_ok y" "0 \<le> off" "off < 4096"
  shows "(page_ptr y + U64 off) AND mask 3 = 0 \<longleftrightarrow> off mod 8 = 0"
proof -
  have "uint ((page_ptr y + U64 off) AND mask 3) = uint (page_ptr y + U64 off) mod 8"
    unfolding take_bit_eq_mask [symmetric] unsigned_take_bit_eq by (simp add: take_bit_eq_mod)
  also have "\<dots> = (off + 8 * (y * 512 + 0x1ffff00000000000)) mod 8"
    unfolding uint_page_off [OF assms] by (simp add: algebra_simps)
  also have "\<dots> = off mod 8" by (rule mod_mult_self2)
  finally show ?thesis by (metis uint_0_iff)
qed

lemma memset_pages:
  assumes x: "page_ok x" "0 < n" "x + n \<le> 2 ^ 35" and y: "page_ok y" and a: "a \<in> page_addrs y"
  shows "memset m (page_ptr x) 0 (n * 4096) a =
     (if y \<in> {x..<x + n} \<and> a AND mask 3 = 0 then 0 else m a)"
proof (cases "a AND mask 3 = 0")
  case False
  then show ?thesis by (simp add: memset_def memset_loop_unaligned)
next
  case True
  obtain off where off: "a = page_ptr y + U64 off" "0 \<le> off" "off < 4096"
    using a by (auto simp: page_addrs_def)
  then have al: "off mod 8 = 0" using True page_off_aligned [OF y] by simp
  have x0: "uint (page_ptr x) = x * 4096 + 0xffff800000000000" using uint_page_off [OF x(1), of 0] by simp
  have bytes: "load_byte (memset m (page_ptr x) 0 (n * 4096)) (a + of_nat k) =
      (if y \<in> {x..<x + n} then 0 else load_byte m (a + of_nat k))" if k: "k < 8" for k
  proof -
    have "off + int k < 4096" using off al k by presburger
    moreover have "a + of_nat k = page_ptr y + U64 (off + int k)" by (simp add: off(1) add.assoc)
    ultimately have u: "uint (a + of_nat k) = y * 4096 + (off + int k) + 0xffff800000000000"
      using uint_page_off [OF y, of "off + int k"] off(2) by (simp add: add.assoc)
    have "uint (page_ptr x) \<le> uint (a + of_nat k) \<and> uint (a + of_nat k) < uint (page_ptr x) + n * 4096
        \<longleftrightarrow> y \<in> {x..<x + n}"
      unfolding u x0 using off \<open>off + int k < 4096\<close> by auto
    moreover have "uint (page_ptr x) + n * 4096 \<le> 2 ^ 64" using x0 x(3) by simp
    ultimately show ?thesis using load_memset [of "page_ptr x" "n * 4096"] by simp
  qed
  show ?thesis
  proof (cases "y \<in> {x..<x + n}")
    case T: True
    have "memset m (page_ptr x) 0 (n * 4096) a = (\<lambda>_. 0) a"
      by (rule word_eq_bytes [OF True]) (use bytes T in \<open>simp add: load_byte_def [of "\<lambda>_. 0"]\<close>)
    with T True show ?thesis by simp
  next
    case F: False
    have "memset m (page_ptr x) 0 (n * 4096) a = m a"
      by (rule word_eq_bytes [OF True]) (use bytes F in auto)
    with F show ?thesis by auto
  qed
qed

lemma zeroed_pages_spec:
  assumes ok: "heap_ok N s" and n: "0 < n" "n \<le> 4096"
  shows "(\<exists>x s'. zeroed_pages s n = Inr (page_ptr x, s') \<and> page_ok x \<and> allocated N s n x s'
            \<and> (\<forall>y\<in>{x..<x + n}. \<forall>k\<in>{0..<512}. mem s' (page_ptr y + U64 (8 * k)) = 0))
       \<or> zeroed_pages s n = Inr (0, s)
         \<and> (\<forall>k y. k < CLASS_COUNT \<longrightarrow> n \<le> 2 ^ k \<longrightarrow> 2 ^ k dvd y \<longrightarrow> \<not> {y..<y + 2 ^ k} \<subseteq> free_set s)"
proof -
  consider x t where "alloc_raw s n True = Inr (\<lparr>buf_data = page_ptr x, buf_count = n * 4096\<rparr>, t)"
      "allocated N s n x t" | "alloc_raw s n True = Inr (null_buffer, s)"
      "\<forall>k y. k < CLASS_COUNT \<longrightarrow> n \<le> 2 ^ k \<longrightarrow> 2 ^ k dvd y \<longrightarrow> \<not> {y..<y + 2 ^ k} \<subseteq> free_set s"
    using alloc_raw_exact [OF ok n] by blast
  then show ?thesis
  proof cases
    case 1
    have b: "0 \<le> x" "x + n \<le> 2 ^ 35" using 1(2) heap_ok_bound [OF ok] by (auto simp: allocated_def)
    then have px: "page_ok x" using n by (simp add: page_ok_def)
    define s' where "s' = t\<lparr>mem := memset (mem t) (page_ptr x) 0 (n * 4096)\<rparr>"
    have run: "zeroed_pages s n = Inr (page_ptr x, s')"
      using 1(1) page_ptr_nonzero [OF px] by (simp add: zeroed_pages_def s'_def)
    have m: "mem s' a = (if y \<in> {x..<x + n} \<and> a AND mask 3 = 0 then 0 else mem t a)"
      if "page_ok y" "a \<in> page_addrs y" for y a
      using memset_pages [OF px n(1) b(2) that] by (simp add: s'_def)
    have bound: "page_ok y" if "y \<in> free_set t" for y
      using that 1(2) heap_ok_bound [OF ok] heap_invD(5) bits_of_bounds [of "free_pages t"]
      by (fastforce simp: allocated_def heap_ok_def free_set_def page_ok_def)
    have "heap_ok N s'" unfolding s'_def
    proof (rule heap_ok_mem)
      fix y a assume y: "y \<in> free_set t" "a \<in> page_addrs y"
      then have "y \<notin> {x..<x + n}" using 1(2) by (auto simp: allocated_def)
      then show "memset (mem t) (page_ptr x) 0 (n * 4096) a = mem t a"
        using memset_pages [OF px n(1) b(2) bound [OF y(1)] y(2), of "mem t"] by auto
    qed (use 1(2) in \<open>simp add: allocated_def\<close>)
    moreover have "keeps (free_set s) s s'"
      using 1(2) m unfolding allocated_def keeps_def by (auto simp: s'_def usable_set_def)
    ultimately have "allocated N s n x s'" using 1(2) by (simp add: allocated_def s'_def free_set_def)
    moreover have "mem s' (page_ptr y + U64 (8 * k)) = 0" if "y \<in> {x..<x + n}" "k \<in> {0..<512}" for y k
    proof -
      have "page_ok y" using that b n by (auto simp: page_ok_def)
      moreover from this have "(page_ptr y + U64 (8 * k)) AND mask 3 = 0"
        using page_off_aligned [of y "8 * k"] that by simp
      moreover have "page_ptr y + U64 (8 * k) \<in> page_addrs y" unfolding page_addrs_def using that(2) by fastforce
      ultimately show ?thesis using m that by simp
    qed
    ultimately show ?thesis using run px by blast
  qed (simp add: zeroed_pages_def null_buffer_def)
qed

section \<open>Marking pages usable\<close>

lemma get_any_eq_Inr:
  assumes "bs_wf b"
  shows "BitSet__get_any b l u = Inr v \<longleftrightarrow>
           0 \<le> l \<and> l \<le> u \<and> u \<le> bs_count b \<and> v = ({l..<u} \<inter> bits_of b \<noteq> {})"
proof (cases "0 \<le> l \<and> l \<le> u \<and> u \<le> bs_count b")
  case True
  then show ?thesis using bs.get_any [OF assms] by auto
next
  case False
  then show ?thesis by (auto simp: BitSet__get_any_def check_range_def result_simps)
qed

lemma mark_usability_spec:
  assumes ok: "heap_ok N s" and b: "0 \<le> b" "b < N" "0 \<le> n" "b + n \<le> N"
    and free: "{b..<b + n} \<inter> free_set s = {}"
  shows "\<exists>s'. unsafe_mark_memory_usability s (page_ptr b) n v = Inr s' \<and> heap_ok N s'
           \<and> free_set s' = free_set s \<and> usable_set s' = put v {b..<b + n} (usable_set s) \<and> mem s' = mem s"
proof -
  obtain fl where inv: "heap_inv N s fl" using ok by (auto simp: heap_ok_def)
  note D = heap_invD [OF inv]
  have pg: "page_ok b" by (rule page_ok_in [OF D(9) b(1,2)])
  have range: "b \<le> b + n" "b + n \<le> bs_count (usable_pages s)" using b D(3) by simp_all
  obtain up where up: "BitSet__set_range (usable_pages s) b (b + n) v = Inr up" "bs_wf up"
    "bs_count up = N" "bits_of up = put v {b..<b + n} (bits_of (usable_pages s))"
    using bs.store_range [OF D(2) b(1) range] D(3) by metis
  obtain k where k: "BitSet__get_count (usable_pages s) b (b + n) = Inr k"
    using BitSet_get_count [OF D(2) b(1) range] by blast
  have any: "BitSet__get_any (free_pages s) b (b + n) = Inr False"
    using get_any_eq_Inr [OF D(4)] b free D(5) by (simp add: free_set_def)
  have "b + n < 2 ^ 63" using b(4) D(9) by simp
  then have "s64_chk (b + n) = Inr (b + n)" using b by (simp add: s64_okI)
  then have run: "unsafe_mark_memory_usability s (page_ptr b) n v = Inr (s\<lparr>usable_pages := up\<rparr>)"
    using any k up(1) page_ptr_nonzero [OF pg] physical_address_page [OF pg] page_addr_facts [OF pg]
    by (simp add: unsafe_mark_memory_usability_def Let_def)
  have "blocks fl \<inter> {b..<b + n} = {}" using free D(6) by (auto simp: free_set_def)
  then have "blocks fl \<subseteq> bits_of up" using up(4) D(7) by (auto simp: put_def)
  then have "heap_inv N (s\<lparr>usable_pages := up\<rparr>) fl"
    using inv up core_cong [OF D(1), of "s\<lparr>usable_pages := up\<rparr>"] by (simp add: heap_inv_def)
  then show ?thesis using run up(4) by (auto simp: heap_ok_def free_set_def usable_set_def)
qed

section \<open>A small heap\<close>

text \<open>Sixty-four usable pages, none of them free, and the same heap after eight pages are released.\<close>

definition full_bits :: BitSet where
  "full_bits = \<lparr>bs_data = [NOT 0], bs_count = 64\<rparr>"

definition empty_bits :: BitSet where
  "empty_bits = \<lparr>bs_data = [0], bs_count = 64\<rparr>"

definition sample_heap :: memory where
  "sample_heap = \<lparr>mem = (\<lambda>_. 0), free_memory = 0, usable_pages = full_bits, free_pages = empty_bits,
     classes = replicate CLASS_COUNT \<lparr>freelist = 0, buddies = empty_bits\<rparr>\<rparr>"

lemma sample_bits:
  "bs_wf full_bits" "bs_wf empty_bits" "bits_of full_bits = {0..<64}" "bits_of empty_bits = {}"
  by (auto simp: bs_wf_def full_bits_def empty_bits_def bits_of_def test_def bit_simps)

lemma sample_heap_ok: "heap_ok 64 sample_heap" "free_set sample_heap = {}" "usable_set sample_heap = {0..<64}"
proof -
  have "bits_ok 64 c empty_bits {}" for c
  proof -
    have "(64 :: int) \<le> 64 * 2 ^ Suc c" using one_le_power [of "2 :: int" "Suc c"] by linarith
    then show ?thesis using sample_bits by (simp add: bits_ok_def empty_bits_def mult.commute)
  qed
  then have "core 64 sample_heap (\<lambda>_. [])"
    by (simp add: core_def lists_def wf_blocks_def sample_heap_def)
  then show "heap_ok 64 sample_heap" using sample_bits
    unfolding heap_ok_def heap_inv_def
    by (intro exI [of _ "\<lambda>_. []"]) (simp add: sample_heap_def full_bits_def empty_bits_def blocks_def)
qed (simp_all add: free_set_def usable_set_def sample_heap_def sample_bits)

lemma sample_release:
  assumes "0 < n" "n \<le> 64"
  shows "\<exists>s. release_pages sample_heap (page_ptr 0) n = Inr s \<and> heap_ok 64 s \<and> free_set s = {0..<n} \<and> usable_set s = {0..<64}"
  using release_pages_spec [OF sample_heap_ok(1), of n 0] sample_heap_ok(2,3) assms by (auto simp: keeps_def)

lemma sample_released:
  "\<exists>s. release_pages sample_heap (page_ptr 0) 8 = Inr s \<and> heap_ok 64 s
     \<and> free_set s = {0..<8} \<and> usable_set s = {0..<64}"
  using sample_release [of 8] by simp

section \<open>Correctness of the allocator\<close>

text \<open>
  C3. An exact request for \<open>n\<close> pages of a consistent heap, \<open>n\<close> at most 4096, either
  returns \<open>n\<close> consecutive pages that were free, aligned to a power of two that is at least
  \<open>n\<close>, takes exactly them out of the free set and writes no page that was not free; or it
  returns \<^verbatim>\<open>NULL\<close> with the state unchanged, and then no naturally aligned run of
  free pages of a class that could hold the request exists.
\<close>

theorem alloc_raw_exact_correct:
  assumes "heap_ok N s" "0 < n" "n \<le> 4096"
  shows "(\<exists>x s'. alloc_raw s n True = Inr (\<lparr>buf_data = page_ptr x, buf_count = n * 4096\<rparr>, s')
            \<and> heap_ok N s' \<and> {x..<x + n} \<subseteq> free_set s \<and> free_set s' = free_set s - {x..<x + n}
            \<and> free_memory s' = free_memory s - n * 4096 \<and> keeps (free_set s) s s'
            \<and> (\<exists>k. n \<le> 2 ^ k \<and> 2 ^ k dvd x))
       \<or> alloc_raw s n True = Inr (null_buffer, s)
         \<and> (\<forall>k y. k < CLASS_COUNT \<longrightarrow> n \<le> 2 ^ k \<longrightarrow> 2 ^ k dvd y \<longrightarrow> \<not> {y..<y + 2 ^ k} \<subseteq> free_set s)"
  using alloc_raw_exact [OF assms] unfolding allocated_def by blast

theorem alloc_raw_exact_correct_witness:
  "\<exists>s x s'. release_pages sample_heap (page_ptr 0) 8 = Inr s
     \<and> alloc_raw s 3 True = Inr (\<lparr>buf_data = page_ptr x, buf_count = 12288\<rparr>, s')
     \<and> heap_ok 64 s' \<and> free_set s' = {0..<8} - {x..<x + 3}"
proof -
  obtain s where s: "release_pages sample_heap (page_ptr 0) 8 = Inr s" "heap_ok 64 s" "free_set s = {0..<8}"
    using sample_released by blast
  have "\<not> (\<forall>k y. k < CLASS_COUNT \<longrightarrow> (3 :: int) \<le> 2 ^ k \<longrightarrow> 2 ^ k dvd y \<longrightarrow> \<not> {y..<y + 2 ^ k} \<subseteq> free_set s)"
    unfolding s(3) not_all by (rule exI [of _ 3], rule exI [of _ 0]) (simp add: CLASS_COUNT_def)
  then show ?thesis using alloc_raw_exact_correct [OF s(2), of 3] s by auto
qed

text \<open>
  C4. A request that may be shortened returns \<^verbatim>\<open>NULL\<close> only when no page is free at all.
  Otherwise it returns some number \<open>m\<close> of the pages asked for; when \<open>m\<close> is less than
  asked, it is a power of two and no naturally aligned run of a larger class is free.
\<close>

theorem alloc_raw_inexact_correct:
  assumes "heap_ok N s" "0 < n" "n \<le> 4096"
  shows "(\<exists>x s' m. alloc_raw s n False = Inr (\<lparr>buf_data = page_ptr x, buf_count = m * 4096\<rparr>, s')
            \<and> heap_ok N s' \<and> 0 < m \<and> m \<le> n
            \<and> {x..<x + m} \<subseteq> free_set s \<and> free_set s' = free_set s - {x..<x + m} \<and> keeps (free_set s) s s'
            \<and> (m < n \<longrightarrow> (\<exists>j. m = 2 ^ j) \<and>
               (\<forall>k y. k < CLASS_COUNT \<longrightarrow> m < 2 ^ k \<longrightarrow> 2 ^ k dvd y \<longrightarrow> \<not> {y..<y + 2 ^ k} \<subseteq> free_set s)))
       \<or> alloc_raw s n False = Inr (null_buffer, s) \<and> free_set s = {}"
  using alloc_raw_inexact [OF assms] unfolding allocated_def by blast

theorem alloc_raw_inexact_correct_witness:
  "\<exists>s x s' m. release_pages sample_heap (page_ptr 0) 8 = Inr s \<and> 0 < m \<and> m \<le> 100
     \<and> alloc_raw s 100 False = Inr (\<lparr>buf_data = page_ptr x, buf_count = m * 4096\<rparr>, s')
     \<and> free_set s' = {0..<8} - {x..<x + m}"
proof -
  obtain s where s: "release_pages sample_heap (page_ptr 0) 8 = Inr s" "heap_ok 64 s" "free_set s = {0..<8}"
    using sample_released by blast
  then show ?thesis using alloc_raw_inexact_correct [OF s(2), of 100] by auto
qed

text \<open>
  C5. Releasing a run of usable pages none of which is free succeeds, adds exactly these
  pages to the free set, accounts for their bytes, keeps the heap consistent and writes only
  pages that are free afterwards.
\<close>

theorem release_pages_correct:
  assumes "heap_ok N s" "0 < n" "{b..<b + n} \<subseteq> usable_set s - free_set s"
  shows "\<exists>s'. release_pages s (page_ptr b) n = Inr s' \<and> heap_ok N s'
           \<and> free_set s' = free_set s \<union> {b..<b + n} \<and> free_memory s' = free_memory s + n * 4096
           \<and> keeps (free_set s') s s'"
  using assms by (rule release_pages_spec)

theorem release_pages_correct_witness:
  "\<exists>s'. release_pages sample_heap (page_ptr 3) 5 = Inr s' \<and> heap_ok 64 s' \<and> free_set s' = {3..<8}
     \<and> free_memory s' = 20480"
proof -
  have "{3..<3 + 5} \<subseteq> usable_set sample_heap - free_set sample_heap" by (auto simp: sample_heap_ok)
  then have "\<exists>s'. release_pages sample_heap (page_ptr 3) 5 = Inr s' \<and> heap_ok 64 s'
      \<and> free_set s' = free_set sample_heap \<union> {3..<3 + 5} \<and> free_memory s' = free_memory sample_heap + 5 * 4096
      \<and> keeps (free_set s') sample_heap s'"
    using release_pages_correct [OF sample_heap_ok(1), of 5 3] by simp
  then show ?thesis by (auto simp: sample_heap_ok) (simp add: sample_heap_def)
qed

text \<open>
  C6. The checks of \<^verbatim>\<open>release_pages\<close> are exact: on a consistent heap the call passes if and
  only if the run lies inside the page range, every page of it is usable and none is free. A
  double release, or the release of a page that was never usable, always panics.
\<close>

theorem release_pages_accepts_iff:
  assumes "heap_ok N s" "0 \<le> b" "b < N"
  shows "(\<exists>s'. release_pages s (page_ptr b) n = Inr s') \<longleftrightarrow>
           0 \<le> n \<and> b + n \<le> N \<and> {b..<b + n} \<subseteq> usable_set s - free_set s"
  using assms by (rule release_pages_Inr_iff)

theorem release_pages_accepts_iff_witness:
  "\<exists>s. release_pages sample_heap (page_ptr 0) 8 = Inr s
     \<and> \<not> (\<exists>s'. release_pages s (page_ptr 7) 2 = Inr s')"
proof -
  obtain s where s: "release_pages sample_heap (page_ptr 0) 8 = Inr s" "heap_ok 64 s" "free_set s = {0..<8}"
    using sample_released by blast
  have "(7 :: int) \<in> {7..<7 + 2}" by simp
  then have "\<not> {7..<7 + 2} \<subseteq> usable_set s - free_set s" unfolding s(3) by fastforce
  then show ?thesis using release_pages_accepts_iff [OF s(2), of 7 2] s(1) by auto
qed

text \<open>
  C7. Any sequence of requests runs without a panic when every request is for one to 4096 pages and the client
  only gives back runs of pages it owns: after it the pages the client owns and the free pages are disjoint and
  together are the pages there were at the start, and the heap is consistent.
\<close>

theorem request_sequences_safe:
  assumes "heap_ok N s" "own \<inter> free_set s = {}" "own \<union> free_set s \<subseteq> usable_set s"
    and "list_all (asks_within 4096) rs"
  shows "\<exists>own' s'. serve_all (serve alloc_pages free_page_run) rs (own, s) = Inr (own', s')
           \<and> heap_ok N s' \<and> own' \<inter> free_set s' = {} \<and> own' \<union> free_set s' = own \<union> free_set s"
  using pa.serve_all_balanced [of N "own \<union> free_set s" "(own, s)" rs] assms
  by (auto simp: pa.balanced_def)

theorem request_sequences_safe_witness:
  "\<exists>own' s'. serve_all (serve alloc_pages free_page_run) [Release 0 16, Alloc 5, Alloc 2, Release 40 3]
       ({0..<64}, sample_heap) = Inr (own', s') \<and> own' \<inter> free_set s' = {} \<and> own' \<union> free_set s' = {0..<64}"
proof -
  have "{0..<64} \<union> free_set sample_heap \<subseteq> usable_set sample_heap" by (simp add: sample_heap_ok)
  moreover have "list_all (asks_within 4096) [Release 0 16, Alloc 5, Alloc 2, Release 40 3]" by simp
  ultimately show ?thesis
    using request_sequences_safe [OF sample_heap_ok(1), of "{0..<64}" "[Release 0 16, Alloc 5, Alloc 2, Release 40 3]"]
    unfolding sample_heap_ok(2) by blast
qed

text \<open>
  C8. \<^verbatim>\<open>zeroed_pages\<close> returns freshly allocated pages in which every 8-byte word is zero,
  and clearing them changes no other page; or \<^verbatim>\<open>NULL\<close> with the state unchanged when no
  aligned run of free pages can hold the request.
\<close>

theorem zeroed_pages_correct:
  assumes "heap_ok N s" "0 < n" "n \<le> 4096"
  shows "(\<exists>x s'. zeroed_pages s n = Inr (page_ptr x, s') \<and> heap_ok N s' \<and> {x..<x + n} \<subseteq> free_set s
            \<and> free_set s' = free_set s - {x..<x + n} \<and> keeps (free_set s) s s'
            \<and> (\<forall>y\<in>{x..<x + n}. \<forall>k\<in>{0..<512}. mem s' (page_ptr y + U64 (8 * k)) = 0))
       \<or> zeroed_pages s n = Inr (0, s)
         \<and> (\<forall>k y. k < CLASS_COUNT \<longrightarrow> n \<le> 2 ^ k \<longrightarrow> 2 ^ k dvd y \<longrightarrow> \<not> {y..<y + 2 ^ k} \<subseteq> free_set s)"
  using zeroed_pages_spec [OF assms] unfolding allocated_def by blast

theorem zeroed_pages_correct_witness:
  "\<exists>s x s'. release_pages sample_heap (page_ptr 0) 8 = Inr s
     \<and> zeroed_pages s 1 = Inr (page_ptr x, s') \<and> mem s' (page_ptr x + U64 (8 * 7)) = 0"
proof -
  obtain s where s: "release_pages sample_heap (page_ptr 0) 8 = Inr s" "heap_ok 64 s" "free_set s = {0..<8}"
    using sample_released by blast
  have "\<not> (\<forall>k y. k < CLASS_COUNT \<longrightarrow> (1 :: int) \<le> 2 ^ k \<longrightarrow> 2 ^ k dvd y \<longrightarrow> \<not> {y..<y + 2 ^ k} \<subseteq> free_set s)"
    unfolding s(3) not_all by (rule exI [of _ 0], rule exI [of _ 0]) (simp add: CLASS_COUNT_def)
  then obtain x s' where "zeroed_pages s 1 = Inr (page_ptr x, s')"
    "\<forall>y\<in>{x..<x + 1}. \<forall>k\<in>{0..<512}. mem s' (page_ptr y + U64 (8 * k)) = 0"
    using zeroed_pages_correct [OF s(2), of 1] by auto
  then have "mem s' (page_ptr x + U64 (8 * 7)) = 0" by fastforce
  with \<open>zeroed_pages s 1 = Inr (page_ptr x, s')\<close> s(1) show ?thesis by blast
qed

text \<open>
  C9. On a consistent heap the walk of \<^verbatim>\<open>validate_heap\<close> over all free lists ends and its
  assertion holds: every block carries the class of its list and the sizes add up to the
  recorded free memory.
\<close>

theorem validate_heap_passes:
  assumes "heap_ok N s"
  shows "validate_heap s = Some (Inr ())"
  using assms by (rule validate_heap_ok)

theorem validate_heap_passes_witness:
  "\<exists>s. release_pages sample_heap (page_ptr 0) 8 = Inr s \<and> validate_heap s = Some (Inr ())"
proof -
  obtain s where "release_pages sample_heap (page_ptr 0) 8 = Inr s" "heap_ok 64 s"
    using sample_released by blast
  then show ?thesis using validate_heap_passes [of 64 s] by blast
qed

text \<open>
  C10. A request for more than 4096 pages starts its search beyond the last class and reads
  past the array of classes: the search loop stops only when its index equals the number of
  classes.
\<close>

theorem alloc_raw_over_4096_out_of_bounds:
  assumes "heap_ok N s" "4096 < n" "n < 2 ^ 63"
  shows "alloc_raw s n exact = Inl OutOfBounds"
  using assms by (rule alloc_raw_too_large)

theorem alloc_raw_over_4096_out_of_bounds_witness:
  "alloc_raw sample_heap 5000 True = Inl OutOfBounds"
  using alloc_raw_over_4096_out_of_bounds [OF sample_heap_ok(1), of 5000 True] by simp

text \<open>
  Marking a run of pages, none of them free, as usable or not changes exactly those pages
  of the usable set and keeps the heap consistent.
\<close>

theorem mark_memory_usability_correct:
  assumes "heap_ok N s" "0 \<le> b" "b < N" "0 \<le> n" "b + n \<le> N" "{b..<b + n} \<inter> free_set s = {}"
  shows "\<exists>s'. unsafe_mark_memory_usability s (page_ptr b) n v = Inr s' \<and> heap_ok N s'
           \<and> free_set s' = free_set s \<and> usable_set s' = put v {b..<b + n} (usable_set s) \<and> mem s' = mem s"
  using assms by (rule mark_usability_spec)

theorem mark_memory_usability_correct_witness:
  "\<exists>s'. unsafe_mark_memory_usability sample_heap (page_ptr 2) 3 False = Inr s'
     \<and> usable_set s' = {0..<64} - {2..<5}"
  using mark_memory_usability_correct [OF sample_heap_ok(1), of 2 3 False] by (auto simp: sample_heap_ok put_def)

end
