(* ===== verification/Page_Tables.thy ===== *)
theory Page_Tables
  imports Page_Allocator
begin

text \<open>
  The four-level page tables of \<^verbatim>\<open>src/kern/page_tables.c\<close>. A table is a page whose
  512 words are its entries, read and written through the kernel's mapping of physical memory
  (the memory of \<open>Free_Lists\<close>); new tables come from \<^verbatim>\<open>zeroed_pages\<close>. Pointers are
  addresses, \<^verbatim>\<open>NULL\<close> is 0.
\<close>

definition ENTRY_COUNT :: int where
  "ENTRY_COUNT = 512"

definition PTE_PRESENT :: u64 where "PTE_PRESENT = 1"
definition PTE_WRITABLE :: u64 where "PTE_WRITABLE = push_bit 1 1"
definition PTE_USER_ACCESSIBLE :: u64 where "PTE_USER_ACCESSIBLE = push_bit 2 1"
definition PTE_HUGE_PAGE :: u64 where "PTE_HUGE_PAGE = push_bit 7 1"
definition PTE_NOT_EMPTY :: u64 where "PTE_NOT_EMPTY = push_bit 9 1"
definition PTE_NO_EXECUTE :: u64 where "PTE_NO_EXECUTE = push_bit 63 1"
definition PTE_ADDRESS :: u64 where "PTE_ADDRESS = 0x000ffffffffff000"

definition PTE_KERNEL :: u64 where
  "PTE_KERNEL = PTE_WRITABLE OR PTE_NO_EXECUTE OR PTE_PRESENT OR PTE_NOT_EMPTY"
definition PTE_KERNEL_EXE :: u64 where
  "PTE_KERNEL_EXE = PTE_PRESENT OR PTE_NOT_EMPTY"
definition PTE_USER :: u64 where
  "PTE_USER = PTE_WRITABLE OR PTE_NO_EXECUTE OR PTE_PRESENT OR PTE_USER_ACCESSIBLE OR PTE_NOT_EMPTY"

record PageTableIndices =
  i0 :: u16
  i1 :: u16
  i2 :: u16
  i3 :: u16
  i4 :: u16

definition page_table_indices :: "u64 \<Rightarrow> PageTableIndices" where
  "page_table_indices address =
     (let p1 = drop_bit 12 address; p2 = drop_bit 9 p1; p3 = drop_bit 9 p2; p4 = drop_bit 9 p3 in
      \<lparr>i0 = ucast (address mod 4096), i1 = ucast (p1 mod 512), i2 = ucast (p2 mod 512),
       i3 = ucast (p3 mod 512), i4 = ucast (p4 mod 512)\<rparr>)"

definition indices_to_address :: "PageTableIndices \<Rightarrow> u64" where
  "indices_to_address ind =
     (let address = push_bit 39 (ucast (i4 ind)) OR push_bit 30 (ucast (i3 ind))
                    OR push_bit 21 (ucast (i2 ind)) OR push_bit 12 (ucast (i1 ind))
      in signed_drop_bit 16 (push_bit 16 address))"

definition make_pte :: "u64 \<Rightarrow> u64 \<Rightarrow> u64 result" where
  "make_pte ptr flags =
     (if ptr = 0 then Inr 0
      else bindR (physical_address ptr) (\<lambda>a. Inr ((a AND PTE_ADDRESS) OR flags)))"

definition pte_address :: "u64 \<Rightarrow> u64 result" where
  "pte_address entry =
     (if entry = 0 then Inr 0
      else kernel_ptr (signed_drop_bit 16 (push_bit 16 (entry AND PTE_ADDRESS))))"

definition load_entry :: "memory \<Rightarrow> u64 \<Rightarrow> u16 \<Rightarrow> u64" where
  "load_entry s table i = mem s (table + 8 * ucast i)"

definition store_entry :: "memory \<Rightarrow> u64 \<Rightarrow> u16 \<Rightarrow> u64 \<Rightarrow> memory" where
  "store_entry s table i e = store s (table + 8 * ucast i) e"

definition translate :: "memory \<Rightarrow> u64 \<Rightarrow> u64 \<Rightarrow> u64 result" where
  "translate s p4 virtual =
     (if p4 = 0 then Inr 0 else
      let ind = page_table_indices virtual in
      bindR (pte_address (load_entry s p4 (i4 ind))) (\<lambda>p3.
      if p3 = 0 then Inr 0 else
      bindR (pte_address (load_entry s p3 (i3 ind))) (\<lambda>p2.
      if p2 = 0 then Inr 0 else
      let p2_entry = load_entry s p2 (i2 ind) in
      bindR (pte_address p2_entry) (\<lambda>page.
      if page = 0 then Inr 0 else
      if p2_entry AND PTE_HUGE_PAGE \<noteq> 0
      then Inr (page + push_bit 12 (ucast (i1 ind)) + ucast (i0 ind))
      else bindR (pte_address (load_entry s page (i1 ind))) (\<lambda>a. Inr (a + ucast (i0 ind)))))))"

definition ok_ptr :: "u64 \<Rightarrow> u64 \<Rightarrow> bool result" where
  "ok_ptr p align = (if p = 0 then Inr False else is_aligned p align)"

text \<open>
  The step both mapping functions repeat on the way down: follow an entry, or hang a zeroed
  page below it. The result 0 is the early return for want of memory.
\<close>

definition next_table :: "memory \<Rightarrow> u64 \<Rightarrow> u16 \<Rightarrow> u64 \<Rightarrow> (u64 \<times> memory) result" where
  "next_table s table i flags =
     bindR (pte_address (load_entry s table i)) (\<lambda>p.
     if p \<noteq> 0 then Inr (p, s) else
     bindR (zeroed_pages s 1) (\<lambda>(p, s).
     if p = 0 then Inr (0, s) else
     bindR (make_pte p flags) (\<lambda>e. Inr (p, store_entry s table i e))))"

definition map_page :: "memory \<Rightarrow> u64 \<Rightarrow> u64 \<Rightarrow> u64 \<Rightarrow> u64 \<Rightarrow> (bool \<times> memory) result" where
  "map_page s p4 virtual kern flags =
     (let ind = page_table_indices virtual in
      bindR (ok_ptr p4 4096) (\<lambda>ok. if \<not> ok then Inr (False, s) else
      bindR (ok_ptr kern 4096) (\<lambda>ok. if \<not> ok then Inr (False, s) else
      bindR (ok_ptr virtual 4096) (\<lambda>ok. if \<not> ok then Inr (False, s) else
      bindR (next_table s p4 (i4 ind) flags) (\<lambda>(p3, s). if p3 = 0 then Inr (False, s) else
      bindR (next_table s p3 (i3 ind) flags) (\<lambda>(p2, s). if p2 = 0 then Inr (False, s) else
      bindR (next_table s p2 (i2 ind) flags) (\<lambda>(p1, s). if p1 = 0 then Inr (False, s) else
      if load_entry s p1 (i1 ind) \<noteq> 0 then Inr (False, s) else
      bindR (make_pte kern flags) (\<lambda>e. Inr (True, store_entry s p1 (i1 ind) e)))))))))"

definition map_2MB_page :: "memory \<Rightarrow> u64 \<Rightarrow> u64 \<Rightarrow> u64 \<Rightarrow> u64 \<Rightarrow> (bool \<times> memory) result" where
  "map_2MB_page s p4 virtual kern flags =
     (let ind = page_table_indices virtual in
      bindR (ok_ptr p4 4096) (\<lambda>ok. if \<not> ok then Inr (False, s) else
      bindR (ok_ptr kern 0x200000) (\<lambda>ok. if \<not> ok then Inr (False, s) else
      bindR (ok_ptr virtual 0x200000) (\<lambda>ok. if \<not> ok then Inr (False, s) else
      bindR (next_table s p4 (i4 ind) flags) (\<lambda>(p3, s). if p3 = 0 then Inr (False, s) else
      bindR (next_table s p3 (i3 ind) flags) (\<lambda>(p2, s). if p2 = 0 then Inr (False, s) else
      if load_entry s p2 (i2 ind) \<noteq> 0 then Inr (False, s) else
      bindR (make_pte kern (flags OR PTE_HUGE_PAGE)) (\<lambda>e.
      Inr (True, store_entry s p2 (i2 ind) e))))))))"

function map_region_loop ::
    "memory \<Rightarrow> u64 \<Rightarrow> u64 \<Rightarrow> u64 \<Rightarrow> s64 \<Rightarrow> s64 \<Rightarrow> u64 \<Rightarrow> (bool \<times> memory) result" where
  "map_region_loop s p4 virtual ptr sz mapped flags =
     (if mapped \<ge> sz then Inr (True, s) else
      bindR (is_aligned virtual 0x200000) (\<lambda>va.
      bindR (is_aligned ptr 0x200000) (\<lambda>pa.
      if va \<and> pa \<and> sz - mapped \<ge> 0x200000
      then bindR (map_2MB_page s p4 virtual ptr flags) (\<lambda>(res, s).
           if \<not> res then Inr (False, s)
           else map_region_loop s p4 (virtual + 0x200000) (ptr + 0x200000) sz (mapped + 0x200000) flags)
      else bindR (map_page s p4 virtual ptr flags) (\<lambda>(res, s).
           if \<not> res then Inr (False, s)
           else map_region_loop s p4 (virtual + 4096) (ptr + 4096) sz (mapped + 4096) flags))))"
  by pat_completeness auto
termination
  by (relation "measure (\<lambda>(s, p4, v, p, sz, mapped, f). nat (sz - mapped))") auto

declare map_region_loop.simps [simp del]

definition map_region :: "memory \<Rightarrow> u64 \<Rightarrow> u64 \<Rightarrow> u64 \<Rightarrow> s64 \<Rightarrow> u64 \<Rightarrow> (bool \<times> memory) result" where
  "map_region s p4 virtual kern count flags =
     bindR (ok_ptr p4 4096) (\<lambda>ok. if \<not> ok then Inr (False, s) else
     bindR (ok_ptr kern 4096) (\<lambda>ok. if \<not> ok then Inr (False, s) else
     bindR (ok_ptr virtual 4096) (\<lambda>ok. if \<not> ok then Inr (False, s) else
     bindR (s64_chk (count * 4096)) (\<lambda>sz.
     map_region_loop s p4 virtual kern sz 0 flags))))"

text \<open>
  The search of \<^verbatim>\<open>region_size\<close> ends only when a translation differs from the expected
  address; \<open>None\<close> is not returning.
\<close>

partial_function (option) region_size_loop ::
    "memory \<Rightarrow> u64 \<Rightarrow> u64 \<Rightarrow> u64 \<Rightarrow> s64 \<Rightarrow> s64 result option" where
  "region_size_loop s p4 virt expected count =
     (case translate s p4 virt of
        Inl e \<Rightarrow> Some (Inl e)
      | Inr addr \<Rightarrow>
          if addr = 0 then Some (Inr count)
          else if addr \<noteq> expected then Some (Inr count)
          else region_size_loop s p4 (virt + 4096) (expected + 4096) (count + 1))"

definition region_size :: "memory \<Rightarrow> u64 \<Rightarrow> u64 \<Rightarrow> s64 result option" where
  "region_size s p4 virt =
     (case translate s p4 virt of
        Inl e \<Rightarrow> Some (Inl e)
      | Inr expected \<Rightarrow> if expected = 0 then Some (Inr 0) else region_size_loop s p4 virt expected 0)"

text \<open>\<^verbatim>\<open>copy_mapping\<close> looks up the same \<^verbatim>\<open>virt\<close> in every round.\<close>

partial_function (option) copy_mapping_loop ::
    "memory \<Rightarrow> u64 \<Rightarrow> u64 \<Rightarrow> u64 \<Rightarrow> s64 \<Rightarrow> u64 \<Rightarrow> (bool \<times> memory) result option" where
  "copy_mapping_loop s dest src virt count flags =
     (if \<not> count > 0 then Some (Inr (True, s)) else
      (case translate s src virt of
         Inl e \<Rightarrow> Some (Inl e)
       | Inr ptr \<Rightarrow>
           if ptr = 0 then Some (Inr (False, s)) else
           Option.bind (region_size s src virt) (\<lambda>r.
           (case r of
              Inl e \<Rightarrow> Some (Inl e)
            | Inr sz \<Rightarrow>
                if sz = 0 then Some (Inr (False, s)) else
                (case map_region s dest virt ptr (min_s64 sz count) flags of
                   Inl e \<Rightarrow> Some (Inl e)
                 | Inr (res, s) \<Rightarrow>
                     if \<not> res then Some (Inr (False, s))
                     else copy_mapping_loop s dest src virt (count - sz) flags)))))"

definition copy_mapping :: "memory \<Rightarrow> u64 \<Rightarrow> u64 \<Rightarrow> u64 \<Rightarrow> s64 \<Rightarrow> u64 \<Rightarrow> (bool \<times> memory) result option" where
  "copy_mapping s dest src virt count flags =
     (case align_down virt 4096 of
        Inl e \<Rightarrow> Some (Inl e)
      | Inr virt \<Rightarrow> copy_mapping_loop s dest src virt count flags)"

text \<open>Destroying a table releases every table below it, then the table itself.\<close>

fun destroy_entries :: "(memory \<Rightarrow> u64 \<Rightarrow> memory result) \<Rightarrow> memory \<Rightarrow> u64 \<Rightarrow> nat \<Rightarrow> memory result" where
  "destroy_entries inner s table 0 = Inr s"
| "destroy_entries inner s table (Suc n) =
     bindR (inner s (load_entry s table (of_nat (512 - Suc n)))) (\<lambda>s. destroy_entries inner s table n)"

fun destroy_table_inner :: "nat \<Rightarrow> memory \<Rightarrow> u64 \<Rightarrow> u64 \<Rightarrow> memory result" where
  "destroy_table_inner 0 s table entry = Inr s"
| "destroy_table_inner (Suc level) s table entry =
     (if table = 0 then Inr s else
      if entry AND PTE_HUGE_PAGE \<noteq> 0 then Inr s else
      bindR (if level > 0
             then destroy_entries (\<lambda>s e. bindR (pte_address e) (\<lambda>p. destroy_table_inner level s p e)) s table 512
             else Inr s) (\<lambda>s.
      release_pages s table 1))"

definition destroy_table :: "memory \<Rightarrow> u64 \<Rightarrow> memory result" where
  "destroy_table s p4 = destroy_table_inner 4 s p4 0"

fun destroy_bb_table_inner :: "nat \<Rightarrow> memory \<Rightarrow> u64 \<Rightarrow> u64 \<Rightarrow> memory result" where
  "destroy_bb_table_inner 0 s table entry = Inr s"
| "destroy_bb_table_inner (Suc level) s table entry =
     (if table = 0 then Inr s else
      if entry AND PTE_HUGE_PAGE \<noteq> 0 then Inr s else
      bindR (if level > 0
             then destroy_entries (\<lambda>s e. bindR (pte_address e) (\<lambda>p. destroy_bb_table_inner level s p e)) s table 512
             else Inr s) (\<lambda>s.
      bindR (unsafe_mark_memory_usability s table 1 True) (\<lambda>s.
      release_pages s table 1)))"

definition destroy_bootboot_table :: "memory \<Rightarrow> u64 \<Rightarrow> memory result" where
  "destroy_bootboot_table s p4 = destroy_bb_table_inner 4 s p4 0"

end
