(* ===== verification/Page_Walk.thy ===== *)
theory Page_Walk
  imports Page_Tables
begin

text \<open>
  The tree of page tables as a mathematical object: entries by page number and index, the
  well-formedness of the tree, the walk that finds the entry for a virtual address, and what
  storing one entry does to every walk.
\<close>

section \<open>Entries\<close>

definition entry :: "memory \<Rightarrow> int \<Rightarrow> int \<Rightarrow> u64" where
  "entry s t i = mem s (page_ptr t + U64 (8 * i))"

definition idx :: "nat \<Rightarrow> u64 \<Rightarrow> int" where
  "idx l va = uint va div 2 ^ (3 + 9 * l) mod 512"

definition huge :: "u64 \<Rightarrow> bool" where
  "huge e \<longleftrightarrow> e AND PTE_HUGE_PAGE \<noteq> 0"

definition pte_page :: "u64 \<Rightarrow> int" where
  "pte_page e = uint (drop_bit 12 (e AND PTE_ADDRESS))"

lemma idx_bounds [simp]: "0 \<le> idx l va" "idx l va < 512"
  by (simp_all add: idx_def)

lemma uint_drop_bit: "uint (drop_bit n w) = uint w div 2 ^ n" for w :: u64
proof -
  have "take_bit 64 (uint w) = uint w" using uint_bounded [of w] by (simp add: take_bit_int_eq_self)
  then show ?thesis by (simp add: unsigned_drop_bit_eq drop_bit_int_def)
qed

lemma slot_offset: "8 * ucast (ucast (drop_bit n va mod 512 :: u64) :: u16) = U64 (8 * (uint va div 2 ^ n mod 512))"
proof -
  have u: "uint (drop_bit n va mod 512 :: u64) = uint va div 2 ^ n mod 512"
    by (simp add: uint_mod_distrib uint_drop_bit)
  have "ucast (ucast (drop_bit n va mod 512 :: u64) :: u16) = take_bit 16 (drop_bit n va mod 512 :: u64)"
    by (rule bit_word_eqI) (auto simp: bit_simps)
  also have "\<dots> = drop_bit n va mod 512"
    using u by (simp add: word_uint_eq_iff unsigned_take_bit_eq take_bit_int_eq_self_iff)
  also have "\<dots> = U64 (uint va div 2 ^ n mod 512)" by (metis u word_of_int_uint)
  finally show ?thesis by simp
qed

lemma load_entry_idx:
  "load_entry s (page_ptr t) (i4 (page_table_indices va)) = entry s t (idx 4 va)"
  "load_entry s (page_ptr t) (i3 (page_table_indices va)) = entry s t (idx 3 va)"
  "load_entry s (page_ptr t) (i2 (page_table_indices va)) = entry s t (idx 2 va)"
  "load_entry s (page_ptr t) (i1 (page_table_indices va)) = entry s t (idx 1 va)"
  by (simp_all add: load_entry_def entry_def page_table_indices_def Let_def slot_offset idx_def)

lemma store_entry_idx:
  "store_entry s (page_ptr t) (i4 (page_table_indices va)) e = store s (page_ptr t + U64 (8 * idx 4 va)) e"
  "store_entry s (page_ptr t) (i3 (page_table_indices va)) e = store s (page_ptr t + U64 (8 * idx 3 va)) e"
  "store_entry s (page_ptr t) (i2 (page_table_indices va)) e = store s (page_ptr t + U64 (8 * idx 2 va)) e"
  "store_entry s (page_ptr t) (i1 (page_table_indices va)) e = store s (page_ptr t + U64 (8 * idx 1 va)) e"
  by (simp_all add: store_entry_def page_table_indices_def Let_def slot_offset idx_def)

lemma entry_addr: "0 \<le> i \<Longrightarrow> i < 512 \<Longrightarrow> page_ptr t + U64 (8 * i) \<in> page_addrs t"
  unfolding page_addrs_def by fastforce

lemma entry_store:
  assumes "page_ok t" "page_ok u" "0 \<le> i" "i < 512" "0 \<le> j" "j < 512"
  shows "entry (store s (page_ptr t + U64 (8 * i)) e) u j = (if u = t \<and> j = i then e else entry s u j)"
  using page_off_inject [OF assms(2,1), of "8 * j" "8 * i"] assms by (auto simp: entry_def)

section \<open>Entries and addresses\<close>

definition flags_ok :: "u64 \<Rightarrow> bool" where
  "flags_ok f \<longleftrightarrow> f \<noteq> 0 \<and> f AND PTE_ADDRESS = 0 \<and> \<not> huge f"

lemma PTE_ADDRESS_bit: "bit PTE_ADDRESS n \<longleftrightarrow> 12 \<le> n \<and> n < 52"
proof -
  have "PTE_ADDRESS = push_bit 12 (mask 40)" by (simp add: PTE_ADDRESS_def push_bit_eq_mult mask_eq_exp_minus_1)
  then have "bit PTE_ADDRESS n \<longleftrightarrow> bit (push_bit 12 (mask 40) :: u64) n" by metis
  then show ?thesis by (auto simp: bit_simps)
qed

lemma kernel_flags_ok: "flags_ok PTE_KERNEL" "flags_ok PTE_KERNEL_EXE" "flags_ok PTE_USER"
  by (simp_all add: flags_ok_def huge_def PTE_KERNEL_def PTE_KERNEL_EXE_def PTE_USER_def PTE_WRITABLE_def
      PTE_NO_EXECUTE_def PTE_PRESENT_def PTE_NOT_EMPTY_def PTE_USER_ACCESSIBLE_def PTE_HUGE_PAGE_def PTE_ADDRESS_def)

lemma page_word_bit:
  assumes "page_ok k" "bit (U64 (k * 4096)) n"
  shows "12 \<le> n \<and> n < 47"
proof -
  have "k * 4096 = push_bit 12 k" by (simp add: push_bit_eq_mult)
  then have n: "n < 64" "12 \<le> n" "bit k (n - 12)" using assms(2) by (auto simp: bit_simps)
  have "take_bit 35 k = k" using assms(1) by (simp add: take_bit_int_eq_self_iff page_ok_def)
  then have "n - 12 < 35" using n(3) by (metis bit_take_bit_iff)
  with n show ?thesis by simp
qed

lemma page_word_mask:
  assumes "page_ok k" "w = U64 (k * 4096)" "f AND PTE_ADDRESS = 0"
  shows "(w OR f) AND PTE_ADDRESS = w"
proof (rule bit_word_eqI)
  fix n
  have "\<not> (bit f n \<and> bit PTE_ADDRESS n)" using assms(3) by (metis bit_0_eq bit_and_iff bot_apply bot_bool_def)
  moreover have "12 \<le> n \<and> n < 47" if "bit w n" using page_word_bit [OF assms(1)] that assms(2) by blast
  ultimately show "bit ((w OR f) AND PTE_ADDRESS) n = bit w n"
    by (auto simp: bit_and_iff bit_or_iff PTE_ADDRESS_bit)
qed

lemma make_pte_page:
  assumes "page_ok k"
  shows "make_pte (page_ptr k) f = Inr (U64 (k * 4096) OR f)"
  using page_word_mask [OF assms refl, of 0] physical_address_page [OF assms] page_ptr_nonzero [OF assms]
  by (simp add: make_pte_def)

lemma pte_page_make:
  assumes "page_ok k" "f AND PTE_ADDRESS = 0"
  shows "pte_page (U64 (k * 4096) OR f) = k"
proof -
  have "uint (U64 (k * 4096)) = k * 4096"
    using assms(1) by (intro uint_word_of_int_small) (auto simp: page_ok_def)
  then show ?thesis
    unfolding pte_page_def page_word_mask [OF assms(1) refl assms(2)] uint_drop_bit by simp
qed

lemma pte_address_page:
  assumes "e \<noteq> 0" "page_ok (pte_page e)"
  shows "pte_address e = Inr (page_ptr (pte_page e))"
proof -
  define w where "w = e AND PTE_ADDRESS"
  have w: "w = U64 (pte_page e * 4096)"
  proof -
    have "w = push_bit 12 (drop_bit 12 w)"
      unfolding w_def by (rule bit_word_eqI) (auto simp: bit_simps PTE_ADDRESS_bit)
    also have "\<dots> = U64 (pte_page e) * 4096" by (simp add: pte_page_def push_bit_eq_mult w_def)
    finally show ?thesis by simp
  qed
  have "signed_drop_bit 16 (push_bit 16 w) = w"
  proof (rule bit_word_eqI)
    fix n assume "n < LENGTH(64)"
    moreover have "\<not> bit w m" if "47 \<le> m" for m
      using page_word_bit [OF assms(2), of m] that unfolding w by auto
    ultimately show "bit (signed_drop_bit 16 (push_bit 16 w)) n = bit w n"
      by (auto simp: bit_signed_drop_bit_iff bit_push_bit_iff not_le)
  qed
  then have "pte_address e = kernel_ptr w" using assms(1) by (simp add: pte_address_def w_def del: push_bit_and)
  then show ?thesis using w kernel_ptr_page [OF assms(2)] by simp
qed

lemma pte_address_zero: "pte_address 0 = Inr 0"
  by (simp add: pte_address_def)

section \<open>The tree of tables\<close>

text \<open>
  \<open>lv\<close> gives the level of every page that is a table. In a well-formed tree no table is a
  free page, an entry of a table points to a table of the next level unless it maps a page, and
  no two entries point to the same table.
\<close>

definition child :: "memory \<Rightarrow> nat \<Rightarrow> int \<Rightarrow> int \<Rightarrow> int option" where
  "child s l t i =
     (let e = entry s t i in if e = 0 \<or> l \<le> 1 \<or> l = 2 \<and> huge e then None else Some (pte_page e))"

definition pt_ok :: "int \<Rightarrow> memory \<Rightarrow> (int \<rightharpoonup> nat) \<Rightarrow> int \<Rightarrow> bool" where
  "pt_ok N s lv p \<longleftrightarrow> lv p = Some 4 \<and> dom lv \<subseteq> {0..<N} - free_set s \<and> ran lv \<subseteq> {1..4}
     \<and> (\<forall>t l i c. lv t = Some l \<longrightarrow> 0 \<le> i \<longrightarrow> i < 512 \<longrightarrow> child s l t i = Some c \<longrightarrow> lv c = Some (l - 1))
     \<and> (\<forall>t l i u m j c. lv t = Some l \<longrightarrow> lv u = Some m \<longrightarrow> 0 \<le> i \<longrightarrow> i < 512 \<longrightarrow> 0 \<le> j \<longrightarrow> j < 512 \<longrightarrow>
          child s l t i = Some c \<longrightarrow> child s m u j = Some c \<longrightarrow> t = u \<and> i = j)
     \<and> (\<forall>t i. t \<in> dom lv \<longrightarrow> 0 \<le> i \<longrightarrow> i < 512 \<longrightarrow> page_ok (pte_page (entry s t i)))"

fun view :: "memory \<Rightarrow> nat \<Rightarrow> int \<Rightarrow> u64 \<Rightarrow> (u64 \<times> nat) option" where
  "view s 0 t va = None"
| "view s (Suc l) t va =
     (let e = entry s t (idx (Suc l) va) in
      if e = 0 then None
      else if l = 0 \<or> l = 1 \<and> huge e then Some (e, Suc l)
      else view s l (pte_page e) va)"

text \<open>\<open>via s l t va l0 t0\<close>: the walk for \<open>va\<close> from table \<open>t\<close> of level \<open>l\<close> comes to table \<open>t0\<close> of level \<open>l0\<close>.\<close>

fun via :: "memory \<Rightarrow> nat \<Rightarrow> int \<Rightarrow> u64 \<Rightarrow> nat \<Rightarrow> int \<Rightarrow> bool" where
  "via s 0 t va l0 t0 = False"
| "via s (Suc l) t va l0 t0 =
     (if Suc l = l0 then t = t0
      else case child s (Suc l) t (idx (Suc l) va) of None \<Rightarrow> False | Some c \<Rightarrow> via s l c va l0 t0)"

definition target :: "(u64 \<times> nat) option \<Rightarrow> u64 \<Rightarrow> u64" where
  "target v va = (case v of None \<Rightarrow> 0
     | Some (e, l) \<Rightarrow> page_ptr (pte_page e) + U64 (uint va mod 2 ^ (3 + 9 * l)))"

lemma pt_okD:
  assumes "pt_ok N s lv p"
  shows "lv p = Some 4" "dom lv \<subseteq> {0..<N} - free_set s"
    "\<And>t l. lv t = Some l \<Longrightarrow> 1 \<le> l \<and> l \<le> 4"
    "\<And>t l i c. lv t = Some l \<Longrightarrow> 0 \<le> i \<Longrightarrow> i < 512 \<Longrightarrow> child s l t i = Some c \<Longrightarrow> lv c = Some (l - 1)"
    "\<And>t l i u m j c. lv t = Some l \<Longrightarrow> lv u = Some m \<Longrightarrow> 0 \<le> i \<Longrightarrow> i < 512 \<Longrightarrow> 0 \<le> j \<Longrightarrow> j < 512 \<Longrightarrow>
       child s l t i = Some c \<Longrightarrow> child s m u j = Some c \<Longrightarrow> t = u \<and> i = j"
    "\<And>t l i. lv t = Some l \<Longrightarrow> 0 \<le> i \<Longrightarrow> i < 512 \<Longrightarrow> page_ok (pte_page (entry s t i))"
proof -
  note A = assms [unfolded pt_ok_def]
  note C = A [THEN conjunct2, THEN conjunct2, THEN conjunct2]
  show "lv p = Some 4" "dom lv \<subseteq> {0..<N} - free_set s" by (simp_all add: A)
  show "1 \<le> l \<and> l \<le> 4" if "lv t = Some l" for t l
    using A [THEN conjunct2, THEN conjunct2, THEN conjunct1] that ranI [of lv t l] by auto
  show "lv c = Some (l - 1)" if "lv t = Some l" "0 \<le> i" "i < 512" "child s l t i = Some c" for t l i c
    using C [THEN conjunct1] that by blast
  show "t = u \<and> i = j" if "lv t = Some l" "lv u = Some m" "0 \<le> i" "i < 512" "0 \<le> j" "j < 512"
    "child s l t i = Some c" "child s m u j = Some c" for t l i u m j c
    using C [THEN conjunct2, THEN conjunct1] that by blast
  show "page_ok (pte_page (entry s t i))" if "lv t = Some l" "0 \<le> i" "i < 512" for t l i
    using C [THEN conjunct2, THEN conjunct2] that by blast
qed

lemma pt_okI:
  assumes "lv p = Some 4" "dom lv \<subseteq> {0..<N} - free_set s" "\<And>t l. lv t = Some l \<Longrightarrow> 1 \<le> l \<and> l \<le> 4"
    and lvl: "\<And>t l i c. lv t = Some l \<Longrightarrow> 0 \<le> i \<Longrightarrow> i < 512 \<Longrightarrow> child s l t i = Some c \<Longrightarrow> lv c = Some (l - 1)"
    and uni: "\<And>t l i u m j c. lv t = Some l \<Longrightarrow> 0 \<le> i \<Longrightarrow> i < 512 \<Longrightarrow> child s l t i = Some c \<Longrightarrow>
       lv u = Some m \<Longrightarrow> 0 \<le> j \<Longrightarrow> j < 512 \<Longrightarrow> child s m u j = Some c \<Longrightarrow> t = u \<and> i = j"
    and pg: "\<And>t i. t \<in> dom lv \<Longrightarrow> 0 \<le> i \<Longrightarrow> i < 512 \<Longrightarrow> page_ok (pte_page (entry s t i))"
  shows "pt_ok N s lv p"
proof -
  have "ran lv \<subseteq> {1..4}" using assms(3) by (auto simp: ran_def)
  then show ?thesis unfolding pt_ok_def
    using assms(1,2) by (intro conjI allI impI) (assumption | rule lvl uni [THEN conjunct1] uni [THEN conjunct2] pg)+
qed

lemma child_next: "entry s t i \<noteq> 0 \<Longrightarrow> 2 < l \<or> l = 2 \<and> \<not> huge (entry s t i) \<Longrightarrow>
    child s l t i = Some (pte_page (entry s t i))"
  by (auto simp: child_def Let_def)

lemma via_reaches:
  assumes pt: "pt_ok N s lv p"
  shows "via s l t va l0 t0 \<Longrightarrow> lv t = Some l \<Longrightarrow> lv t0 = Some l0 \<and> l0 \<le> l"
proof (induction l arbitrary: t)
  case (Suc l)
  show ?case
  proof (cases "Suc l = l0")
    case False
    then obtain c where c: "child s (Suc l) t (idx (Suc l) va) = Some c" "via s l c va l0 t0"
      using Suc.prems by (auto split: option.splits)
    have "lv c = Some l" using pt_okD(4) [OF pt Suc.prems(2) _ _ c(1)] by simp
    then show ?thesis using Suc.IH [OF c(2)] by simp
  qed (use Suc.prems in auto)
qed simp

text \<open>Walks that meet in a table have taken the same way.\<close>

lemma via_parent:
  assumes "via s l t va l0 t0" "l0 < l"
  shows "\<exists>u. via s l t va (Suc l0) u \<and> child s (Suc l0) u (idx (Suc l0) va) = Some t0"
  using assms
proof (induction l arbitrary: t)
  case (Suc l)
  then obtain c where c: "child s (Suc l) t (idx (Suc l) va) = Some c" "via s l c va l0 t0"
    by (auto split: option.splits)
  show ?case
  proof (cases "l = l0")
    case True
    have "0 < l" using c(2) by (cases l) auto
    then have "t0 = c" using c(2) True by (cases l) auto
    then show ?thesis using c(1) True by (intro exI [of _ t]) simp
  next
    case False
    then show ?thesis using Suc.IH [OF c(2)] Suc.prems c(1) by auto
  qed
qed simp

lemma via_same_way:
  assumes pt: "pt_ok N s lv p" and l0: "l0 \<le> 4"
  shows "via s 4 p va l0 t0 \<Longrightarrow> via s 4 p va' l0 t0 \<Longrightarrow> l0 < j \<Longrightarrow> j \<le> 4 \<Longrightarrow> idx j va = idx j va'"
  using l0
proof (induction "4 - l0" arbitrary: l0 t0)
  case (Suc n)
  then have less: "l0 < 4" by simp
  obtain u where u: "via s 4 p va (Suc l0) u" "child s (Suc l0) u (idx (Suc l0) va) = Some t0"
    using via_parent [OF Suc.prems(1) less] by blast
  obtain w where w: "via s 4 p va' (Suc l0) w" "child s (Suc l0) w (idx (Suc l0) va') = Some t0"
    using via_parent [OF Suc.prems(2) less] by blast
  have lv: "lv u = Some (Suc l0)" "lv w = Some (Suc l0)"
    using via_reaches [OF pt u(1) pt_okD(1) [OF pt]] via_reaches [OF pt w(1) pt_okD(1) [OF pt]] by blast+
  have same: "u = w \<and> idx (Suc l0) va = idx (Suc l0) va'"
    using pt_okD(5) [OF pt lv _ _ _ _ u(2) w(2)] by simp
  show ?case
  proof (cases "j = Suc l0")
    case False
    then show ?thesis using Suc.hyps(1) [of "Suc l0" u] Suc.hyps(2) Suc.prems less u(1) w(1) same by simp
  qed (use same in simp)
qed simp

section \<open>Translation\<close>

lemma uint_mod_word: "ucast (ucast (va mod 4096 :: u64) :: u16) = U64 (uint va mod 4096)"
proof -
  have u: "uint (va mod 4096) = uint va mod 4096" by (simp add: uint_mod_distrib)
  have "ucast (ucast (va mod 4096 :: u64) :: u16) = take_bit 16 (va mod 4096 :: u64)"
    by (rule bit_word_eqI) (auto simp: bit_simps)
  also have "\<dots> = va mod 4096"
    using u by (simp add: word_uint_eq_iff unsigned_take_bit_eq take_bit_int_eq_self_iff)
  also have "\<dots> = U64 (uint va mod 4096)" by (metis u word_of_int_uint)
  finally show ?thesis .
qed

lemma page_offset:
  "ucast (i0 (page_table_indices va)) = U64 (uint va mod 4096)"
  "push_bit 12 (ucast (i1 (page_table_indices va))) + ucast (i0 (page_table_indices va)) = U64 (uint va mod 2 ^ 21)"
proof -
  show p0: "ucast (i0 (page_table_indices va)) = U64 (uint va mod 4096)"
    by (simp add: page_table_indices_def Let_def uint_mod_word)
  have "8 * ucast (i1 (page_table_indices va)) = U64 (8 * idx 1 va)"
    by (simp add: page_table_indices_def Let_def slot_offset idx_def)
  then have "512 * (8 * ucast (i1 (page_table_indices va))) = 512 * U64 (8 * idx 1 va)" by (simp only:)
  then have "push_bit 12 (ucast (i1 (page_table_indices va))) = U64 (4096 * idx 1 va)"
    by (simp add: push_bit_eq_mult mult.commute)
  moreover have "4096 * idx 1 va + uint va mod 4096 = uint va mod 2 ^ 21"
    using mod_mult2_eq' [of "uint va" 4096 512] by (simp add: idx_def)
  ultimately show "push_bit 12 (ucast (i1 (page_table_indices va))) + ucast (i0 (page_table_indices va))
      = U64 (uint va mod 2 ^ 21)"
    unfolding p0 by (metis wi_hom_add)
qed

lemma pte_address_entry:
  assumes pt: "pt_ok N s lv p" and t: "lv t = Some l" and i: "0 \<le> i" "i < 512"
  shows "pte_address (entry s t i) = Inr (if entry s t i = 0 then 0 else page_ptr (pte_page (entry s t i)))"
  using pt_okD(6) [OF pt t i] by (simp add: pte_address_page pte_address_zero)

lemma table_page_ok: "pt_ok N s lv p \<Longrightarrow> N \<le> 2 ^ 35 \<Longrightarrow> lv t = Some l \<Longrightarrow> page_ok t"
  using pt_okD(2) [of N s lv p] by (force simp: page_ok_def)

lemma child_table:
  assumes pt: "pt_ok N s lv p" and t: "lv t = Some l" and e: "entry s t i \<noteq> 0" "0 \<le> i" "i < 512"
    and l: "2 < l \<or> l = 2 \<and> \<not> huge (entry s t i)"
  shows "lv (pte_page (entry s t i)) = Some (l - 1)"
  using pt_okD(4) [OF pt t e(2,3)] child_next [OF e(1) l] by blast

lemma translate_view:
  assumes pt: "pt_ok N s lv p" and N: "N \<le> 2 ^ 35" and va: "view s 4 p va \<noteq> None \<or> uint va mod 4096 = 0"
  shows "translate s (page_ptr p) va = Inr (target (view s 4 p va) va)"
proof -
  note addr = pte_address_entry [OF pt] and ok = table_page_ok [OF pt N] and nz = page_ptr_nonzero
  have lv4: "lv p = Some 4" by (rule pt_okD(1) [OF pt])
  define e4 where "e4 = entry s p (idx 4 va)"
  define t3 where "t3 = pte_page e4"
  define e3 where "e3 = entry s t3 (idx 3 va)"
  define t2 where "t2 = pte_page e3"
  define e2 where "e2 = entry s t2 (idx 2 va)"
  define t1 where "t1 = pte_page e2"
  define e1 where "e1 = entry s t1 (idx 1 va)"
  note defs = e4_def t3_def e3_def t2_def e2_def t1_def e1_def
  have v: "view s 4 p va = (if e4 = 0 \<or> e3 = 0 \<or> e2 = 0 then None else if huge e2 then Some (e2, 2)
                            else if e1 = 0 then None else Some (e1, 1))"
    by (simp add: numeral_eq_Suc Let_def defs)
  have t3: "lv t3 = Some 3" if "e4 \<noteq> 0"
    using child_table [OF pt lv4] that by (simp add: defs)
  have t2: "lv t2 = Some 2" if "e4 \<noteq> 0" "e3 \<noteq> 0"
    using child_table [OF pt t3 [OF that(1)]] that(2) by (simp add: defs)
  have t1: "lv t1 = Some 1" if "e4 \<noteq> 0" "e3 \<noteq> 0" "e2 \<noteq> 0" "\<not> huge e2"
    using child_table [OF pt t2 [OF that(1,2)]] that(3,4) by (simp add: defs)
  have a4: "pte_address e4 = Inr (if e4 = 0 then 0 else page_ptr t3)"
    using addr [OF lv4] by (simp add: defs)
  have a3: "pte_address e3 = Inr (if e3 = 0 then 0 else page_ptr t2)" if "e4 \<noteq> 0"
    using addr [OF t3 [OF that]] by (simp add: defs)
  have a2: "pte_address e2 = Inr (if e2 = 0 then 0 else page_ptr t1)" "page_ok t1" if "e4 \<noteq> 0" "e3 \<noteq> 0"
    using addr [OF t2 [OF that]] pt_okD(6) [OF pt t2 [OF that]] by (simp_all add: defs)
  have a1: "pte_address e1 = Inr (if e1 = 0 then 0 else page_ptr (pte_page e1))"
    if "e4 \<noteq> 0" "e3 \<noteq> 0" "e2 \<noteq> 0" "\<not> huge e2"
    using addr [OF t1 [OF that]] by (simp add: defs)
  have nz': "page_ptr p \<noteq> 0" "e4 \<noteq> 0 \<Longrightarrow> page_ptr t3 \<noteq> 0" "e4 \<noteq> 0 \<Longrightarrow> e3 \<noteq> 0 \<Longrightarrow> page_ptr t2 \<noteq> 0"
    "e4 \<noteq> 0 \<Longrightarrow> e3 \<noteq> 0 \<Longrightarrow> page_ptr t1 \<noteq> 0"
    using nz ok lv4 t3 t2 a2(2) by blast+
  have off: "push_bit 12 (ucast (i1 (page_table_indices va))) + U64 (uint va mod 4096) = U64 (uint va mod 2 ^ 21)"
    using page_offset(2) [of va] unfolding page_offset(1) .
  note walk = load_entry_idx page_offset(1) off [simplified] e1_def [symmetric, unfolded One_nat_def] add.assoc nz' a4 a3 a2 a1 huge_def [symmetric] defs [symmetric]
  consider "e4 = 0" | "e4 \<noteq> 0" "e3 = 0" | "e4 \<noteq> 0" "e3 \<noteq> 0" "e2 = 0"
    | "e4 \<noteq> 0" "e3 \<noteq> 0" "e2 \<noteq> 0" "huge e2" | "e4 \<noteq> 0" "e3 \<noteq> 0" "e2 \<noteq> 0" "\<not> huge e2"
    by blast
  then have "translate s (page_ptr p) va =
     (if e4 = 0 \<or> e3 = 0 \<or> e2 = 0 then Inr 0
      else if huge e2 then Inr (page_ptr t1 + U64 (uint va mod 2 ^ 21))
      else if e1 = 0 then Inr (U64 (uint va mod 4096)) else Inr (page_ptr (pte_page e1) + U64 (uint va mod 4096)))"
    unfolding translate_def Let_def by cases (simp_all add: walk pte_address_zero)
  then show ?thesis using v va by (auto simp: target_def t1_def split: if_splits)
qed

section \<open>Encodings\<close>

lemma index_fields:
  "i4 (page_table_indices va) = ucast (take_bit 9 (drop_bit 39 va))"
  "i3 (page_table_indices va) = ucast (take_bit 9 (drop_bit 30 va))"
  "i2 (page_table_indices va) = ucast (take_bit 9 (drop_bit 21 va))"
  "i1 (page_table_indices va) = ucast (take_bit 9 (drop_bit 12 va))"
  by (simp_all add: page_table_indices_def Let_def take_bit_eq_mod)

lemma field_bit:
  "bit (push_bit k (ucast (ucast (take_bit 9 (drop_bit k va) :: u64) :: u16)) :: u64) n
     \<longleftrightarrow> k \<le> n \<and> n < k + 9 \<and> n < 64 \<and> bit va n"
  by (auto simp: bit_simps dest: bit_imp_le_length)

lemma index_bits:
  "push_bit 39 (ucast (i4 (page_table_indices va))) OR push_bit 30 (ucast (i3 (page_table_indices va)))
     OR push_bit 21 (ucast (i2 (page_table_indices va))) OR push_bit 12 (ucast (i1 (page_table_indices va)))
   = (va AND mask 48) AND NOT (mask 12)" (is "?l = ?r")
proof (rule bit_word_eqI)
  fix n assume n: "n < LENGTH(64)"
  have "bit ?l n \<longleftrightarrow> (39 \<le> n \<and> n < 48 \<or> 30 \<le> n \<and> n < 39 \<or> 21 \<le> n \<and> n < 30 \<or> 12 \<le> n \<and> n < 21) \<and> bit va n"
    using n unfolding index_fields bit_or_iff field_bit by auto
  also have "\<dots> \<longleftrightarrow> 12 \<le> n \<and> n < 48 \<and> bit va n" by auto
  also have "\<dots> \<longleftrightarrow> bit ?r n" using n by (auto simp: bit_and_iff bit_not_iff bit_mask_iff)
  finally show "bit ?l n = bit ?r n" .
qed

lemma aligned_low_bits:
  fixes va :: u64
  assumes "4096 dvd uint va" "n < 12"
  shows "\<not> bit va n"
proof -
  obtain q where "uint va = push_bit 12 q" using assms(1) by (auto simp: push_bit_eq_mult mult.commute)
  then have "\<not> bit (uint va) n" using assms(2) by (simp add: bit_push_bit_iff)
  then show ?thesis using assms(2) by (simp add: bit_uint_iff)
qed

text \<open>
  A canonical, page-aligned virtual address is restored from its table indices, sign
  extension of the upper sixteen bits included.
\<close>

theorem indices_roundtrip:
  assumes "signed_drop_bit 16 (push_bit 16 va) = va" "4096 dvd uint va"
  shows "indices_to_address (page_table_indices va) = va"
proof -
  have "push_bit 16 ((va AND mask 48) AND NOT (mask 12)) = push_bit 16 va"
    by (rule bit_word_eqI)
      (use aligned_low_bits [OF assms(2)] in \<open>auto simp: bit_push_bit_iff bit_and_iff bit_not_iff bit_mask_iff\<close>)
  then show ?thesis using assms(1) unfolding indices_to_address_def Let_def index_bits by simp
qed

theorem indices_roundtrip_witness:
  "indices_to_address (page_table_indices 0xffff800000201000) = 0xffff800000201000"
proof -
  have "signed_drop_bit 16 (push_bit 16 (0xffff800000201000 :: u64)) = 0xffff800000201000" by code_simp
  then show ?thesis using indices_roundtrip [of "0xffff800000201000"] by simp
qed

text \<open>
  The entry made for a page and a set of flags gives back the page's address, and its bits
  outside the address field are the flags.
\<close>

theorem pte_roundtrip:
  assumes "page_ok k" "flags_ok f"
  shows "\<exists>e. make_pte (page_ptr k) f = Inr e \<and> pte_address e = Inr (page_ptr k) \<and> e AND NOT PTE_ADDRESS = f"
proof -
  have f: "f \<noteq> 0" "f AND PTE_ADDRESS = 0" using assms(2) by (simp_all add: flags_ok_def)
  have "U64 (k * 4096) OR f \<noteq> 0" using f(1) by (metis or_eq_0_iff)
  moreover have "pte_page (U64 (k * 4096) OR f) = k" by (rule pte_page_make [OF assms(1) f(2)])
  ultimately have "pte_address (U64 (k * 4096) OR f) = Inr (page_ptr k)"
    using pte_address_page assms(1) by metis
  moreover have "(U64 (k * 4096) OR f) AND NOT PTE_ADDRESS = f"
  proof (rule bit_word_eqI)
    fix n assume n: "n < LENGTH(64)"
    have "\<not> (bit f n \<and> bit PTE_ADDRESS n)" using f(2) by (metis bit_0_eq bit_and_iff bot_apply bot_bool_def)
    moreover have "bit PTE_ADDRESS n" if "bit (U64 (k * 4096)) n"
      using page_word_bit [OF assms(1) that] by (simp add: PTE_ADDRESS_bit)
    ultimately show "bit ((U64 (k * 4096) OR f) AND NOT PTE_ADDRESS) n = bit f n"
      using n by (simp only: bit_and_iff bit_or_iff bit_not_iff) (auto simp: possible_bit_def)
  qed
  ultimately show ?thesis using make_pte_page [OF assms(1)] by blast
qed

theorem pte_roundtrip_witness:
  "\<exists>e. make_pte (page_ptr 77) PTE_KERNEL = Inr e \<and> pte_address e = Inr (page_ptr 77) \<and> e AND NOT PTE_ADDRESS = PTE_KERNEL"
  using pte_roundtrip [OF _ kernel_flags_ok(1), of 77] by (simp add: page_ok_def)

end
