(* ===== verification/Quads.thy ===== *)
theory Quads
  imports Page_Allocator
begin

text \<open>
  How many requests the allocator can still meet. Most requests of the kernel are for one, two or four pages; each takes pages
  from at most one aligned run of four pages, and each succeeds while a whole free run is left. So the number of free runs
  is a budget from which every request takes at most one.
\<close>

definition quads :: "int set \<Rightarrow> int set" where
  "quads P = {y. 4 dvd y \<and> {y..<y + 4} \<subseteq> P}"

definition free_quads :: "memory \<Rightarrow> int set" where
  "free_quads s = {y. 4 dvd y \<and> {y..<y + 4} \<subseteq> free_set s}"

lemma free_quads_eq: "free_quads s = quads (free_set s)"
  by (simp add: free_quads_def quads_def)

text \<open>\<open>spends k s s'\<close>: at most \<open>k\<close> runs of free pages were broken up on the way from \<open>s\<close> to \<open>s'\<close>.\<close>

definition spends :: "nat \<Rightarrow> memory \<Rightarrow> memory \<Rightarrow> bool" where
  "spends k s s' \<longleftrightarrow> card (free_quads s) \<le> card (free_quads s') + k"

lemma spends_refl [simp]: "spends k s s"
  by (simp add: spends_def)

lemma spends_trans: "spends j s s1 \<Longrightarrow> spends k s1 s2 \<Longrightarrow> j + k \<le> m \<Longrightarrow> spends m s s2"
  by (simp add: spends_def)

lemma spends_mono: "spends j s s' \<Longrightarrow> j \<le> k \<Longrightarrow> spends k s s'"
  by (simp add: spends_def)

lemma free_quads_cong: "free_set s = free_set s' \<Longrightarrow> free_quads s = free_quads s'"
  by (simp add: free_quads_def)

lemma spends_cong: "free_set s' = free_set s'' \<Longrightarrow> spends k s s' \<Longrightarrow> spends k s s''"
  using free_quads_cong [of s' s''] by (simp add: spends_def)

lemma free_quads_free: "free_quads s \<subseteq> free_set s"
proof
  fix y assume "y \<in> free_quads s"
  then have "{y..<y + 4} \<subseteq> free_set s" by (simp add: free_quads_def)
  moreover have "y \<in> {y..<y + 4}" by simp
  ultimately show "y \<in> free_set s" by blast
qed

lemma free_quads_finite: "heap_ok N s \<Longrightarrow> finite (free_quads s)"
proof -
  assume "heap_ok N s"
  then obtain fl where "heap_inv N s fl" by (auto simp: heap_ok_def)
  then have "free_set s \<subseteq> {0..<N}" using heap_invD(5) bits_of_bounds [of "free_pages s"] by (fastforce simp: free_set_def)
  then show ?thesis using free_quads_free by (meson finite_atLeastLessThan_int finite_subset subset_trans)
qed

lemma spends_grow: "heap_ok N s' \<Longrightarrow> free_set s \<subseteq> free_set s' \<Longrightarrow> spends 0 s s'"
  unfolding spends_def using card_mono [OF free_quads_finite, of N s' "free_quads s"] by (force simp: free_quads_def)

lemma spends_all: "spends k s s' \<Longrightarrow> free_set s' = {} \<Longrightarrow> card (free_quads s) \<le> k"
  using free_quads_free [of s'] by (simp add: spends_def)

lemma allocated_quads:
  assumes ok: "heap_ok N s" and a: "allocated N s n x s'" and n: "n = 1 \<or> n = 2 \<or> n = 4"
  shows "spends 1 s s'"
proof -
  obtain k where k: "n \<le> 2 ^ k" "2 ^ k dvd x" and f: "free_set s' = free_set s - {x..<x + n}" using a by (auto simp: allocated_def)
  have dv: "n dvd x"
  proof -
    have "n = 2 ^ 0 \<or> n = 2 ^ 1 \<or> n = 2 ^ 2" using n by simp
    then obtain j :: nat where j: "n = 2 ^ j" by blast
    then have "j \<le> k" using k(1) by (metis power_le_imp_le_exp one_less_numeral_iff semiring_norm(76))
    then have "n dvd 2 ^ k" using j by (simp add: le_imp_power_dvd)
    then show ?thesis using k(2) dvd_trans by blast
  qed
  have "free_quads s \<subseteq> insert (4 * (x div 4)) (free_quads s')"
  proof
    fix y assume y: "y \<in> free_quads s"
    show "y \<in> insert (4 * (x div 4)) (free_quads s')"
    proof (cases "y = 4 * (x div 4)")
      case False
      have "{y..<y + 4} \<inter> {x..<x + n} = {}" using y False dv n by (auto simp: free_quads_def elim!: dvdE)
      then show ?thesis using y f by (auto simp: free_quads_def)
    qed simp
  qed
  moreover have "finite (free_quads s')" using free_quads_finite a by (auto simp: allocated_def)
  ultimately have "card (free_quads s) \<le> card (insert (4 * (x div 4)) (free_quads s'))" by (simp add: card_mono)
  also have "\<dots> \<le> Suc (card (free_quads s'))" by (rule card_insert_le_m1) simp_all
  finally show ?thesis by (simp add: spends_def)
qed

lemma quad_zeroed:
  assumes ok: "heap_ok N s" and q: "0 < card (free_quads s)" and n: "n = 1 \<or> n = 2 \<or> n = 4"
  obtains x s' where "zeroed_pages s n = Inr (page_ptr x, s')" "page_ptr x \<noteq> 0" "allocated N s n x s'" "spends 1 s s'"
proof -
  obtain y where y: "4 dvd y" "{y..<y + 4} \<subseteq> free_set s" using q by (auto simp: free_quads_def card_gt_0_iff)
  have "\<not> (\<forall>k y. k < CLASS_COUNT \<longrightarrow> n \<le> 2 ^ k \<longrightarrow> 2 ^ k dvd y \<longrightarrow> \<not> {y..<y + 2 ^ k} \<subseteq> free_set s)"
    unfolding not_all using y n by (intro exI [of _ 2] exI [of _ y]) (auto simp: CLASS_COUNT_def)
  then obtain x s' where "zeroed_pages s n = Inr (page_ptr x, s')" "page_ok x" "allocated N s n x s'"
    using zeroed_pages_spec [OF ok, of n] n by auto
  then show thesis using that page_ptr_nonzero allocated_quads [OF ok _ n] by blast
qed

section \<open>Runs in an interval\<close>

lemma quads_subset: "quads P \<subseteq> P"
proof
  fix y assume "y \<in> quads P"
  then have "{y..<y + 4} \<subseteq> P" by (simp add: quads_def)
  moreover have "y \<in> {y..<y + 4}" by simp
  ultimately show "y \<in> P" by blast
qed

lemma quads_interval:
  assumes "{a..<b} \<subseteq> P" "finite P"
  shows "b - a \<le> 4 * int (card (quads P \<inter> {a..<b})) + 6"
proof -
  let ?f = "\<lambda>i. 4 * int i + 4 * ((a + 3) div 4)" and ?n = "nat ((b - 4 * ((a + 3) div 4)) div 4)"
  have "?f ` {..<?n} \<subseteq> quads P \<inter> {a..<b}"
  proof
    fix y assume "y \<in> ?f ` {..<?n}"
    then obtain i where i: "y = ?f i" "i < ?n" by auto
    have "a \<le> y" "y + 4 \<le> b" using i by auto
    then show "y \<in> quads P \<inter> {a..<b}" using assms(1) i(1) by (auto simp: quads_def)
  qed
  then have "card (?f ` {..<?n}) \<le> card (quads P \<inter> {a..<b})"
    using assms(2) finite_subset [OF quads_subset assms(2)] by (intro card_mono) auto
  moreover have "card (?f ` {..<?n}) = ?n" by (subst card_image) (auto simp: inj_on_def)
  ultimately show ?thesis by linarith
qed

end
