(* ===== verification/Page_Map.thy ===== *)
theory Page_Map
  imports Page_Walk Quads
begin

text \<open>
  Correctness of the mapping functions of \<^verbatim>\<open>src/kern/page_tables.c\<close>: a new table hung
  into the tree changes no translation, a new leaf entry changes the translation of its own
  page only, and neither disturbs the allocator or any page that is not a table.
\<close>

section \<open>One entry changes\<close>

definition slot_view :: "memory \<Rightarrow> nat \<Rightarrow> u64 \<Rightarrow> u64 \<Rightarrow> (u64 \<times> nat) option" where
  "slot_view s l e va = (if e = 0 then None else if l = 1 \<or> l = 2 \<and> huge e then Some (e, l)
                   else view s (l - 1) (pte_page e) va)"

lemma view_hit: "view s (Suc l) t va = slot_view s (Suc l) (entry s t (idx (Suc l) va)) va"
proof -
  define e where "e = entry s t (idx (Suc l) va)"
  show ?thesis by (auto simp: slot_view_def Let_def e_def [symmetric])
qed

lemma view_upd:
  assumes pt: "pt_ok N s lv p" and t0: "lv t0 = Some l0" and zero: "entry s t0 k0 = 0"
    and other: "\<And>t i. t \<in> dom lv \<Longrightarrow> 0 \<le> i \<Longrightarrow> i < 512 \<Longrightarrow> (t, i) \<noteq> (t0, k0) \<Longrightarrow> entry s' t i = entry s t i"
  shows "lv t = Some l \<Longrightarrow> view s' l t va =
     (if via s l t va l0 t0 \<and> idx l0 va = k0 then slot_view s' l0 (entry s' t0 k0) va else view s l t va)"
proof (induction l arbitrary: t)
  case (Suc l)
  let ?i = "idx (Suc l) va"
  show ?case
  proof (cases "(t, ?i) = (t0, k0)")
    case True
    then show ?thesis using Suc.prems t0 view_hit by auto
  next
    case False
    have e: "entry s' t ?i = entry s t ?i" using other [of t ?i] False Suc.prems by auto
    show ?thesis
    proof (cases "child s (Suc l) t ?i")
      case None
      then have "view s' (Suc l) t va = view s (Suc l) t va"
        using e by (auto simp: child_def Let_def split: if_splits)
      moreover have "\<not> (via s (Suc l) t va l0 t0 \<and> idx l0 va = k0)" using None False by auto
      ultimately show ?thesis by (simp only: if_False)
    next
      case (Some c)
      then have c: "entry s t ?i \<noteq> 0" "c = pte_page (entry s t ?i)" "\<not> (l = 0 \<or> l = 1 \<and> huge (entry s t ?i))"
        by (auto simp: child_def Let_def split: if_splits)
      have lvc: "lv c = Some l" using pt_okD(4) [OF pt Suc.prems _ _ Some] by simp
      have step: "view s' (Suc l) t va = view s' l c va" "view s (Suc l) t va = view s l c va"
        using c e by (auto simp: Let_def)
      show ?thesis
      proof (cases "Suc l = l0")
        case True
        then have "\<not> via s l c va l0 t0" using via_reaches [OF pt _ lvc] by fastforce
        then show ?thesis using step Suc.IH [OF lvc] False True by auto
      qed (use step Suc.IH [OF lvc] Some in auto)
    qed
  qed
qed simp

lemma via_zero: "via s l t va l0 t0 \<Longrightarrow> entry s t0 (idx l0 va) = 0 \<Longrightarrow> view s l t va = None"
proof (induction l arbitrary: t)
  case (Suc l)
  show ?case
  proof (cases "Suc l = l0")
    case False
    then obtain c where c: "child s (Suc l) t (idx (Suc l) va) = Some c" "via s l c va l0 t0"
      using Suc.prems by (auto split: option.splits)
    then show ?thesis using Suc.IH [OF c(2) Suc.prems(2)]
      by (auto simp: child_def Let_def split: if_splits)
  qed (use Suc.prems in auto)
qed simp

lemma view_empty_table:
  assumes "\<And>i. 0 \<le> i \<Longrightarrow> i < 512 \<Longrightarrow> entry s c i = 0"
  shows "view s l c va = None"
  using assms by (cases l) auto

section \<open>Hanging an empty table into the tree\<close>

lemma pte_page_zero: "pte_page 0 = 0" "page_ok 0"
  by (simp_all add: pte_page_def page_ok_def)

lemma link_child:
  assumes other: "\<And>t i. t \<in> dom lv \<Longrightarrow> 0 \<le> i \<Longrightarrow> i < 512 \<Longrightarrow> (t, i) \<noteq> (t0, k0) \<Longrightarrow> entry s' t i = entry s t i"
    and "lv t = Some l" "0 \<le> i" "i < 512" "(t, i) \<noteq> (t0, k0)"
  shows "child s' l t i = child s l t i" "entry s' t i = entry s t i"
  using assms by (auto simp: child_def domI)

lemma pt_ok_link:
  assumes pt: "pt_ok N s lv p" and t0: "lv t0 = Some l0" "2 \<le> l0" "0 \<le> k0" "k0 < 512"
    and zero: "entry s t0 k0 = 0" and c: "c \<notin> dom lv" "0 \<le> c" "c < N" "c \<notin> free_set s'" "page_ok c"
    and fs: "free_set s' \<subseteq> free_set s"
    and other: "\<And>t i. t \<in> dom lv \<Longrightarrow> 0 \<le> i \<Longrightarrow> i < 512 \<Longrightarrow> (t, i) \<noteq> (t0, k0) \<Longrightarrow> entry s' t i = entry s t i"
    and e: "pte_page (entry s' t0 k0) = c" "entry s' t0 k0 \<noteq> 0" "\<not> huge (entry s' t0 k0)"
    and empty: "\<And>i. 0 \<le> i \<Longrightarrow> i < 512 \<Longrightarrow> entry s' c i = 0"
  shows "pt_ok N s' (lv(c \<mapsto> l0 - 1)) p"
proof -
  note D = pt_okD [OF pt] and same = link_child [of lv t0 k0 s' s, OF other]
  have cp: "p \<noteq> c" "t0 \<noteq> c" using D(1) t0(1) c(1) by auto
  have ch: "child s' l t i = (if t = c then None else if (t, i) = (t0, k0) then Some c else child s l t i)"
    if "(lv(c \<mapsto> l0 - 1)) t = Some l" "0 \<le> i" "i < 512" for t l i
  proof -
    consider "t = c" | "t \<noteq> c" "(t, i) = (t0, k0)" | "t \<noteq> c" "(t, i) \<noteq> (t0, k0)" by blast
    then show ?thesis
    proof cases
      case 1 then show ?thesis using empty that by (simp add: child_def)
    next
      case 2 then show ?thesis using e t0(1,2) that by (auto simp: child_def Let_def)
    next
      case 3 then show ?thesis using same(1) [of t l] that by auto
    qed
  qed
  have old: "lv d \<noteq> None" if "lv t = Some l" "0 \<le> i" "i < 512" "child s l t i = Some d" for t l i d
    using D(4) [OF that] by simp
  have sub: "dom (lv(c \<mapsto> l0 - 1)) \<subseteq> {0..<N} - free_set s'" using D(2) c fs by auto
  have rn: "1 \<le> l0 - 1 \<and> l0 - 1 \<le> 4" using D(3) [OF t0(1)] t0(2) by linarith
  show ?thesis unfolding pt_ok_def
  proof (intro conjI allI impI)
    show "ran (lv(c \<mapsto> l0 - 1)) \<subseteq> {1..4}" using D(3) rn c(1) by (auto simp: ran_def split: if_splits)
  next
    fix t l i d assume a: "(lv(c \<mapsto> l0 - 1)) t = Some l" "0 \<le> i" "i < 512" "child s' l t i = Some d"
    then show "(lv(c \<mapsto> l0 - 1)) d = Some (l - 1)"
      using ch [OF a(1-3)] D(4) [of t l i d] t0(1) old [of t l i d] c(1) by (auto split: if_splits)
  next
    fix t l i u m j d
    assume a: "(lv(c \<mapsto> l0 - 1)) t = Some l" "(lv(c \<mapsto> l0 - 1)) u = Some m" "0 \<le> i" "i < 512" "0 \<le> j" "j < 512"
      "child s' l t i = Some d" "child s' m u j = Some d"
    have dd: "d \<noteq> c" if "t \<noteq> c" "child s l t i = Some d" using that old [of t l i d] a c(1) by auto
    have ee: "d \<noteq> c" if "u \<noteq> c" "child s m u j = Some d" using that old [of u m j d] a c(1) by auto
    show "t = u" "i = j"
      using a(7,8) dd ee D(5) [of t l u m i j d] a(1-6) unfolding ch [OF a(1,3,4)] ch [OF a(2,5,6)]
      by (auto split: if_splits)
  next
    fix t and i :: int assume "t \<in> dom (lv(c \<mapsto> l0 - 1))" "0 \<le> i" "i < 512"
    then show "page_ok (pte_page (entry s' t i))"
      using empty same(2) [of t] D(6) e(1) c(5) pte_page_zero
      by (cases "t = c"; cases "(t, i) = (t0, k0)") auto
  qed (use D(1) cp sub in auto)
qed

lemma view_link:
  assumes pt: "pt_ok N s lv p" and t0: "lv t0 = Some l0" "2 \<le> l0" and zero: "entry s t0 k0 = 0"
    and other: "\<And>t i. t \<in> dom lv \<Longrightarrow> 0 \<le> i \<Longrightarrow> i < 512 \<Longrightarrow> (t, i) \<noteq> (t0, k0) \<Longrightarrow> entry s' t i = entry s t i"
    and e: "pte_page (entry s' t0 k0) = c" "\<not> huge (entry s' t0 k0)"
    and empty: "\<And>i. 0 \<le> i \<Longrightarrow> i < 512 \<Longrightarrow> entry s' c i = 0"
  shows "view s' 4 p va = view s 4 p va"
proof -
  have "slot_view s' l0 (entry s' t0 k0) va = None"
    using e t0(2) view_empty_table [OF empty] by (simp add: slot_view_def)
  then show ?thesis
    using view_upd [OF pt t0(1) zero other pt_okD(1) [OF pt], of va] via_zero [of s 4 p va l0 t0] zero by auto
qed

section \<open>Setting a leaf entry\<close>

lemma pt_ok_leaf:
  assumes pt: "pt_ok N s lv p" and t0: "lv t0 = Some l0" and zero: "entry s t0 k0 = 0" and fs: "free_set s' = free_set s"
    and other: "\<And>t i. t \<in> dom lv \<Longrightarrow> 0 \<le> i \<Longrightarrow> i < 512 \<Longrightarrow> (t, i) \<noteq> (t0, k0) \<Longrightarrow> entry s' t i = entry s t i"
    and e: "page_ok (pte_page (entry s' t0 k0))" "l0 = 1 \<or> l0 = 2 \<and> huge (entry s' t0 k0)"
  shows "pt_ok N s' lv p"
proof -
  note D = pt_okD [OF pt]
  have ch: "child s' l t i = child s l t i" if "lv t = Some l" "0 \<le> i" "i < 512" for t l i
  proof (cases "(t, i) = (t0, k0)")
    case True
    then show ?thesis using e(2) t0 that(1) zero by (auto simp: child_def Let_def)
  next
    case False
    then show ?thesis using link_child(1) [of lv t0 k0 s' s t l i, OF other] that by blast
  qed
  have pg: "page_ok (pte_page (entry s' t i))" if "t \<in> dom lv" "0 \<le> i" "i < 512" for t i
    using other [OF that] D(6) that e(1) by (cases "(t, i) = (t0, k0)") auto
  show ?thesis unfolding pt_ok_def
  proof (intro conjI allI impI)
    show "ran lv \<subseteq> {1..4}" using D(3) by (auto simp: ran_def)
  next
    fix t l i c assume "lv t = Some l" "0 \<le> i" "i < 512" "child s' l t i = Some c"
    then show "lv c = Some (l - 1)" using D(4) ch by metis
  next
    fix t l i u m j c assume "lv t = Some l" "lv u = Some m" "0 \<le> i" "i < 512" "0 \<le> j" "j < 512"
      "child s' l t i = Some c" "child s' m u j = Some c"
    then show "t = u" "i = j" using D(5) [of t l u m i j c] ch by metis+
  qed (use D(1,2) fs pg in auto)
qed

definition same_slot :: "nat \<Rightarrow> u64 \<Rightarrow> u64 \<Rightarrow> bool" where
  "same_slot l va va' \<longleftrightarrow> (\<forall>j. l \<le> j \<and> j \<le> 4 \<longrightarrow> idx j va = idx j va')"

lemma same_slot_via:
  assumes "via s l t va l0 t0" "\<And>j. l0 < j \<Longrightarrow> j \<le> l \<Longrightarrow> idx j va = idx j va'" "l0 \<le> l"
  shows "via s l t va' l0 t0"
  using assms
proof (induction l arbitrary: t)
  case (Suc l)
  show ?case
  proof (cases "Suc l = l0")
    case False
    then have "idx (Suc l) va = idx (Suc l) va'" using Suc.prems(2) [of "Suc l"] Suc.prems(3) by simp
    then show ?thesis using Suc False by (auto split: option.splits)
  qed (use Suc.prems in auto)
qed simp

lemma view_leaf:
  assumes pt: "pt_ok N s lv p" and t0: "lv t0 = Some l0" and zero: "entry s t0 (idx l0 va) = 0"
    and other: "\<And>t i. t \<in> dom lv \<Longrightarrow> 0 \<le> i \<Longrightarrow> i < 512 \<Longrightarrow> (t, i) \<noteq> (t0, idx l0 va) \<Longrightarrow> entry s' t i = entry s t i"
    and e: "entry s' t0 (idx l0 va) \<noteq> 0" "l0 = 1 \<or> l0 = 2 \<and> huge (entry s' t0 (idx l0 va))"
    and way: "via s 4 p va l0 t0"
  shows "view s' 4 p va' = (if same_slot l0 va va' then Some (entry s' t0 (idx l0 va), l0) else view s 4 p va')"
proof -
  have l0: "l0 \<le> 4" using pt_okD(3) [OF pt t0] by simp
  have "via s 4 p va' l0 t0 \<and> idx l0 va' = idx l0 va \<longleftrightarrow> same_slot l0 va va'"
  proof
    assume a: "via s 4 p va' l0 t0 \<and> idx l0 va' = idx l0 va"
    show "same_slot l0 va va'" unfolding same_slot_def
    proof (intro allI impI)
      fix j assume "l0 \<le> j \<and> j \<le> 4"
      then show "idx j va = idx j va'"
        using a via_same_way [OF pt l0 way, of va' j] by (cases "j = l0") auto
    qed
  next
    assume "same_slot l0 va va'"
    then show "via s 4 p va' l0 t0 \<and> idx l0 va' = idx l0 va"
      using same_slot_via [OF way, of va'] l0 by (auto simp: same_slot_def)
  qed
  moreover have "slot_view s' l0 (entry s' t0 (idx l0 va)) va' = Some (entry s' t0 (idx l0 va), l0)"
    using e by (auto simp: slot_view_def)
  ultimately show ?thesis
    using view_upd [OF pt t0 zero other pt_okD(1) [OF pt], of va'] by simp
qed

section \<open>Growing the tree\<close>

text \<open>In a rooted tree every table but the root hangs below another, and only tables hang above level 2.\<close>

definition rooted :: "memory \<Rightarrow> (int \<rightharpoonup> nat) \<Rightarrow> int \<Rightarrow> bool" where
  "rooted s lv p \<longleftrightarrow>
     (\<forall>t\<in>dom lv. t = p \<or> (\<exists>u l i. lv u = Some l \<and> 0 \<le> i \<and> i < 512 \<and> child s l u i = Some t))
     \<and> (\<forall>t l i. lv t = Some l \<longrightarrow> 2 < l \<longrightarrow> 0 \<le> i \<longrightarrow> i < 512 \<longrightarrow> \<not> huge (entry s t i))"

definition grows :: "int \<Rightarrow> int \<Rightarrow> memory \<Rightarrow> (int \<rightharpoonup> nat) \<Rightarrow> memory \<Rightarrow> (int \<rightharpoonup> nat) \<Rightarrow> bool" where
  "grows N p s lv s' lv' \<longleftrightarrow> heap_ok N s' \<and> pt_ok N s' lv' p \<and> lv \<subseteq>\<^sub>m lv'
     \<and> dom lv' \<subseteq> dom lv \<union> free_set s \<and> free_set s' \<subseteq> free_set s \<and> usable_set s' = usable_set s
     \<and> free_set s' \<union> dom lv' = free_set s \<union> dom lv \<and> (rooted s lv p \<longrightarrow> rooted s' lv' p)
     \<and> (\<forall>x a. page_ok x \<longrightarrow> x \<notin> free_set s \<longrightarrow> x \<notin> dom lv \<longrightarrow> a \<in> page_addrs x \<longrightarrow> mem s' a = mem s a)"

text \<open>\<open>fills lv s s'\<close>: no entry of a table is emptied. In a \<open>leafy\<close> tree no table of the lowest level is empty.\<close>

definition fills :: "(int \<rightharpoonup> nat) \<Rightarrow> memory \<Rightarrow> memory \<Rightarrow> bool" where
  "fills lv s s' \<longleftrightarrow> (\<forall>t\<in>dom lv. \<forall>i. 0 \<le> i \<longrightarrow> i < 512 \<longrightarrow> entry s t i \<noteq> 0 \<longrightarrow> entry s' t i \<noteq> 0)"

lemma fills_refl [simp]: "fills lv s s"
  by (simp add: fills_def)

lemma fills_trans: "fills lv s s1 \<Longrightarrow> fills lv1 s1 s2 \<Longrightarrow> lv \<subseteq>\<^sub>m lv1 \<Longrightarrow> fills lv s s2"
  unfolding fills_def using map_le_implies_dom_le [of lv lv1] by blast

definition leafy :: "memory \<Rightarrow> (int \<rightharpoonup> nat) \<Rightarrow> bool" where
  "leafy s lv \<longleftrightarrow> (\<forall>t. lv t = Some 1 \<longrightarrow> (\<exists>i. 0 \<le> i \<and> i < 512 \<and> entry s t i \<noteq> 0))"

lemma leafy_fills:
  assumes "leafy s lv" "fills lv s s'" "\<And>t. lv' t = Some 1 \<Longrightarrow> lv t = Some 1 \<or> t = c" "0 \<le> i" "i < 512" "entry s' c i \<noteq> 0"
  shows "leafy s' lv'"
  using assms unfolding leafy_def fills_def by (metis domI)

definition extends :: "int \<Rightarrow> int \<Rightarrow> memory \<Rightarrow> (int \<rightharpoonup> nat) \<Rightarrow> memory \<Rightarrow> (int \<rightharpoonup> nat) \<Rightarrow> bool" where
  "extends N p s lv s' lv' \<longleftrightarrow> grows N p s lv s' lv' \<and> (\<forall>va. view s' 4 p va = view s 4 p va)
     \<and> (\<forall>t l i c. lv t = Some l \<longrightarrow> 0 \<le> i \<longrightarrow> i < 512 \<longrightarrow> child s l t i = Some c \<longrightarrow> child s' l t i = Some c)
     \<and> fills lv s s'"

lemma grows_trans:
  assumes "grows N p s lv s1 lv1" "grows N p s1 lv1 s2 lv2"
  shows "grows N p s lv s2 lv2"
proof -
  have "mem s2 a = mem s a" if "page_ok x" "x \<notin> free_set s" "x \<notin> dom lv" "a \<in> page_addrs x" for x a
  proof -
    have "x \<notin> free_set s1" "x \<notin> dom lv1" using assms(1) that unfolding grows_def by blast+
    then have "mem s2 a = mem s1 a" using assms(2) that unfolding grows_def by blast
    also have "\<dots> = mem s a" using assms(1) that unfolding grows_def by blast
    finally show ?thesis .
  qed
  moreover have "lv \<subseteq>\<^sub>m lv1" "lv1 \<subseteq>\<^sub>m lv2" using assms by (simp_all add: grows_def)
  then have "lv \<subseteq>\<^sub>m lv2" by (rule map_le_trans)
  moreover have "free_set s2 \<union> dom lv2 = free_set s \<union> dom lv" "rooted s lv p \<longrightarrow> rooted s2 lv2 p"
    using assms unfolding grows_def by simp_all
  moreover have "dom lv2 \<subseteq> dom lv \<union> free_set s" "free_set s2 \<subseteq> free_set s" using assms unfolding grows_def by blast+
  ultimately show ?thesis using assms unfolding grows_def by simp
qed

lemma map_le_Some: "lv \<subseteq>\<^sub>m lv' \<Longrightarrow> lv t = Some l \<Longrightarrow> lv' t = Some l"
  unfolding map_le_def by (metis domI)

lemma extends_trans:
  assumes "extends N p s lv s1 lv1" "extends N p s1 lv1 s2 lv2"
  shows "extends N p s lv s2 lv2"
proof -
  have "lv \<subseteq>\<^sub>m lv1" using assms(1) by (simp add: extends_def grows_def)
  then have "child s2 l t i = Some c" if "lv t = Some l" "0 \<le> i" "i < 512" "child s l t i = Some c" for t l i c
    using assms that map_le_Some [of lv lv1 t l] unfolding extends_def by blast
  moreover have "fills lv s s2" using assms fills_trans [OF _ _ \<open>lv \<subseteq>\<^sub>m lv1\<close>] unfolding extends_def by blast
  moreover have "grows N p s lv s2 lv2" using assms grows_trans unfolding extends_def by blast
  ultimately show ?thesis using assms unfolding extends_def by simp
qed

lemma extends_refl: "heap_ok N s \<Longrightarrow> pt_ok N s lv p \<Longrightarrow> extends N p s lv s lv"
  by (simp add: extends_def grows_def)

lemma huge_bit: "huge e \<longleftrightarrow> bit e 7"
proof -
  have "e AND PTE_HUGE_PAGE = 0 \<longleftrightarrow> \<not> bit e 7"
    unfolding PTE_HUGE_PAGE_def by (simp add: bit_iff_and_push_bit_not_eq_0)
  then show ?thesis by (simp add: huge_def)
qed

lemma pte_facts:
  assumes "page_ok c" "flags_ok f"
  shows "U64 (c * 4096) OR f \<noteq> 0" "\<not> huge (U64 (c * 4096) OR f)" "pte_page (U64 (c * 4096) OR f) = c"
proof -
  have "f \<noteq> 0" using assms(2) by (simp add: flags_ok_def)
  then show "U64 (c * 4096) OR f \<noteq> 0" by (metis or_eq_0_iff)
  have "\<not> bit (U64 (c * 4096)) 7" using page_word_bit [OF assms(1), of 7] by auto
  then show "\<not> huge (U64 (c * 4096) OR f)"
    using assms(2) unfolding flags_ok_def huge_bit by (metis bit_or_iff)
  show "pte_page (U64 (c * 4096) OR f) = c"
    using assms by (intro pte_page_make) (auto simp: flags_ok_def)
qed

lemma store_entry_frame:
  fixes e :: u64
  assumes ok: "heap_ok N s" and t: "t \<notin> free_set s" "page_ok t" and i: "0 \<le> i" "i < 512"
  defines "s' \<equiv> store s (page_ptr t + U64 (8 * i)) e"
  shows "heap_ok N s'" "free_set s' = free_set s" "usable_set s' = usable_set s"
    "\<And>x a. page_ok x \<Longrightarrow> x \<noteq> t \<Longrightarrow> a \<in> page_addrs x \<Longrightarrow> mem s' a = mem s a"
proof -
  have off: "mem s' a = mem s a" if "page_ok x" "x \<noteq> t" "a \<in> page_addrs x" for x a
    using page_addrs_disjoint [of x t] entry_addr [OF i, of t] that t(2) by (auto simp: s'_def)
  then show "\<And>x a. page_ok x \<Longrightarrow> x \<noteq> t \<Longrightarrow> a \<in> page_addrs x \<Longrightarrow> mem s' a = mem s a" .
  have "s' = s\<lparr>mem := mem s'\<rparr>" by (simp add: s'_def store_def)
  moreover have "heap_ok N (s\<lparr>mem := mem s'\<rparr>)"
  proof (rule heap_ok_mem [OF ok])
    fix y a assume y: "y \<in> free_set s" "a \<in> page_addrs y"
    have "page_ok y" using y(1) heap_ok_bound [OF ok] ok bits_of_bounds [of "free_pages s"]
      by (auto simp: heap_ok_def heap_inv_def free_set_def page_ok_def)
    then show "mem s' a = mem s a" using off [of y a] y t(1) by blast
  qed
  ultimately show "heap_ok N s'" by simp
  show "free_set s' = free_set s" "usable_set s' = usable_set s"
    by (simp_all add: s'_def store_def free_set_def usable_set_def)
qed

lemma huge_zero [simp]: "\<not> huge 0"
  by (simp add: huge_def)

lemma rooted_link:
  assumes r: "rooted s lv p" and t: "lv t = Some l" and c: "c \<notin> dom lv"
    and kept: "\<And>u m j d. lv u = Some m \<Longrightarrow> 0 \<le> j \<Longrightarrow> j < 512 \<Longrightarrow> child s m u j = Some d \<Longrightarrow> child s' m u j = Some d"
    and below: "child s' l t i = Some c" "0 \<le> i" "i < 512"
    and plain: "\<And>u j. u \<in> dom lv \<Longrightarrow> 0 \<le> j \<Longrightarrow> j < 512 \<Longrightarrow> entry s' u j = entry s u j \<or> \<not> huge (entry s' u j)"
    and empty: "\<And>j. 0 \<le> j \<Longrightarrow> j < 512 \<Longrightarrow> entry s' c j = 0"
  shows "rooted s' (lv(c \<mapsto> k)) p"
proof -
  have "\<exists>u m j. (lv(c \<mapsto> k)) u = Some m \<and> 0 \<le> j \<and> j < 512 \<and> child s' m u j = Some d" if d: "d \<in> dom (lv(c \<mapsto> k))" "d \<noteq> p" for d
  proof (cases "d = c")
    case True
    then show ?thesis using t c below by (intro exI [of _ t] exI [of _ l] exI [of _ i]) auto
  next
    case False
    then obtain u m j where u: "lv u = Some m" "0 \<le> j" "j < 512" "child s m u j = Some d"
      using r d unfolding rooted_def by auto
    then show ?thesis using kept [OF u] c by (intro exI [of _ u] exI [of _ m] exI [of _ j]) auto
  qed
  moreover have "\<not> huge (entry s' u j)" if u: "(lv(c \<mapsto> k)) u = Some m" "2 < m" "0 \<le> j" "j < 512" for u m j
  proof (cases "u = c")
    case False
    then have "lv u = Some m" using u(1) by simp
    then show ?thesis using plain [of u j] r u unfolding rooted_def by (metis domI)
  qed (use empty u in simp)
  ultimately show ?thesis unfolding rooted_def by blast
qed

lemma rooted_leaf:
  assumes r: "rooted s lv p" and t: "lv t = Some l" "l \<le> 2" and zero: "entry s t i = 0"
    and other: "\<And>u j. u \<in> dom lv \<Longrightarrow> 0 \<le> j \<Longrightarrow> j < 512 \<Longrightarrow> (u, j) \<noteq> (t, i) \<Longrightarrow> entry s' u j = entry s u j"
  shows "rooted s' lv p"
proof -
  have kept: "child s' m u j = Some d" if "lv u = Some m" "0 \<le> j" "j < 512" "child s m u j = Some d" for u m j d
    using that zero other [of u j] by (cases "(u, j) = (t, i)") (auto simp: child_def domI)
  then have "\<exists>u m j. lv u = Some m \<and> 0 \<le> j \<and> j < 512 \<and> child s' m u j = Some d" if "d \<in> dom lv" "d \<noteq> p" for d
    using r that unfolding rooted_def by blast
  moreover have "\<not> huge (entry s' u j)" if u: "lv u = Some m" "2 < m" "0 \<le> j" "j < 512" for u m j
  proof -
    have "(u, j) \<noteq> (t, i)" using u t by auto
    then show ?thesis using r u other [of u j] unfolding rooted_def by (metis domI)
  qed
  ultimately show ?thesis unfolding rooted_def by blast
qed

lemma link_step:
  assumes ok: "heap_ok N s" and pt: "pt_ok N s lv p" and t: "lv t = Some l" "2 \<le> l"
    and i: "0 \<le> i" "i < 512" and zero: "entry s t i = 0" and f: "flags_ok f"
    and z: "allocated N s 1 c s1" "page_ok c" "\<forall>k\<in>{0..<512}. mem s1 (page_ptr c + U64 (8 * k)) = 0"
  defines "s' \<equiv> store s1 (page_ptr t + U64 (8 * i)) (U64 (c * 4096) OR f)"
  shows "extends N p s lv s' (lv(c \<mapsto> l - 1)) \<and> child s' l t i = Some c"
proof -
  note N = heap_ok_bound [OF ok] and D = pt_okD [OF pt]
  have A: "heap_ok N s1" "c \<in> free_set s" "free_set s1 = free_set s - {c}" "usable_set s1 = usable_set s"
    "\<And>x a. page_ok x \<Longrightarrow> x \<notin> free_set s \<Longrightarrow> a \<in> page_addrs x \<Longrightarrow> mem s1 a = mem s a" "0 \<le> c" "c < N"
    using z(1) by (auto simp: allocated_def keeps_def)
  have tabs: "page_ok u" "u \<notin> free_set s" if "u \<in> dom lv" for u
    using table_page_ok [OF pt N] D(2) that by blast+
  have tok: "page_ok t" "t \<notin> free_set s" "t \<noteq> c" using tabs [of t] t(1) A(2) by auto
  have cl: "c \<notin> dom lv" using D(2) A(2) by blast
  have t1: "t \<notin> free_set s1" using tok A(3) by blast
  note S = store_entry_frame [OF A(1) t1 tok(1) i, where e = "U64 (c * 4096) OR f", folded s'_def]
  have ent: "entry s' u j = (if u = t \<and> j = i then U64 (c * 4096) OR f else entry s u j)"
    if "u \<in> dom lv" "0 \<le> j" "j < 512" for u j
    using entry_store [OF tok(1) tabs(1) [OF that(1)] i that(2,3), of s1] A(5) [OF tabs [OF that(1)] entry_addr [OF that(2,3)]]
    by (auto simp: s'_def entry_def)
  then have other: "entry s' u j = entry s u j" if "u \<in> dom lv" "0 \<le> j" "j < 512" "(u, j) \<noteq> (t, i)" for u j
    using that by auto
  have new: "entry s' t i = U64 (c * 4096) OR f" using ent [of t i] t(1) i by auto
  have empty: "entry s' c j = 0" if "0 \<le> j" "j < 512" for j
    using entry_store [OF tok(1) z(2) i that, of s1] z(3) that tok(3) by (auto simp: s'_def entry_def)
  note P = pte_facts [OF z(2) f, folded new]
  have "pt_ok N s' (lv(c \<mapsto> l - 1)) p"
    by (rule pt_ok_link [OF pt t i zero cl A(6,7) _ z(2) _ other P(3,1,2) empty]) (use S(2) A(3) in auto)
  moreover have "mem s' a = mem s a" if "page_ok x" "x \<notin> free_set s" "x \<notin> dom lv" "a \<in> page_addrs x" for x a
    using S(4) [OF that(1) _ that(4)] A(5) that t(1) by (metis domI)
  moreover have "lv \<subseteq>\<^sub>m lv(c \<mapsto> l - 1)" using cl by (auto simp: map_le_def)
  moreover have kept: "child s' m u j = Some d" if "lv u = Some m" "0 \<le> j" "j < 512" "child s m u j = Some d" for u m j d
    using that zero other [of u j] by (cases "(u, j) = (t, i)") (auto simp: child_def domI)
  moreover have below: "child s' l t i = Some c" using P t(2) by (auto simp: child_def Let_def)
  moreover have "rooted s' (lv(c \<mapsto> l - 1)) p" if "rooted s lv p"
    by (rule rooted_link [OF that t(1) cl kept below i _ empty]) (use ent P(2) new in auto)
  ultimately have "grows N p s lv s' (lv(c \<mapsto> l - 1))"
    using S(1-3) A cl unfolding grows_def by auto
  moreover have "view s' 4 p va = view s 4 p va" for va
    by (rule view_link [OF pt t zero other P(3,2) empty])
  moreover have "fills lv s s'" unfolding fills_def using other zero by (metis prod.inject)
  ultimately show ?thesis using kept below by (auto simp: extends_def)
qed

section \<open>Walking down\<close>

lemma via_view: "via s l t va l0 t0 \<Longrightarrow> view s l t va = slot_view s l0 (entry s t0 (idx l0 va)) va"
proof (induction l arbitrary: t)
  case (Suc l)
  show ?case
  proof (cases "Suc l = l0")
    case True
    then show ?thesis using Suc.prems view_hit by auto
  next
    case False
    then obtain c where c: "child s (Suc l) t (idx (Suc l) va) = Some c" "via s l c va l0 t0"
      using Suc.prems by (auto split: option.splits)
    then have "view s (Suc l) t va = view s l c va" by (auto simp: child_def Let_def split: if_splits)
    then show ?thesis using Suc.IH [OF c(2)] by simp
  qed
qed simp

lemma via_step:
  assumes "via s l t va (Suc l0) u" "child s (Suc l0) u (idx (Suc l0) va) = Some c" "0 < l0"
  shows "via s l t va l0 c"
  using assms
proof (induction l arbitrary: t)
  case (Suc l)
  show ?case
  proof (cases "l = l0")
    case True
    then show ?thesis using Suc.prems by (cases l) auto
  next
    case False
    then obtain d where d: "child s (Suc l) t (idx (Suc l) va) = Some d" "via s l d va (Suc l0) u"
      using Suc.prems by (auto split: option.splits)
    have "l0 \<le> l" using d(2)
    proof (induction l arbitrary: d)
      case (Suc k)
      then show ?case by (cases "Suc k = Suc l0") (auto split: option.splits dest: Suc.IH)
    qed simp
    then show ?thesis using Suc.IH [OF d(2) Suc.prems(2,3)] d(1) by auto
  qed
qed simp

lemma via_extends:
  assumes pt: "pt_ok N s lv p" and ext: "extends N p s lv s' lv'"
  shows "via s l t va l0 t0 \<Longrightarrow> lv t = Some l \<Longrightarrow> via s' l t va l0 t0"
proof (induction l arbitrary: t)
  case (Suc l)
  show ?case
  proof (cases "Suc l = l0")
    case False
    then obtain c where c: "child s (Suc l) t (idx (Suc l) va) = Some c" "via s l c va l0 t0"
      using Suc.prems by (auto split: option.splits)
    have "lv c = Some l" using pt_okD(4) [OF pt Suc.prems(2) _ _ c(1)] by simp
    moreover have "child s' (Suc l) t (idx (Suc l) va) = Some c"
      using ext Suc.prems(2) c(1) idx_bounds unfolding extends_def by blast
    ultimately show ?thesis using Suc.IH [OF c(2)] False by simp
  qed (use Suc.prems in auto)
qed simp

definition walk_to :: "int \<Rightarrow> int \<Rightarrow> memory \<Rightarrow> (int \<rightharpoonup> nat) \<Rightarrow> memory \<Rightarrow> (int \<rightharpoonup> nat) \<Rightarrow> u64 \<Rightarrow> nat \<Rightarrow> int \<Rightarrow> bool" where
  "walk_to N p s lv s' lv' va l t \<longleftrightarrow> extends N p s lv s' lv' \<and> lv' t = Some l \<and> via s' 4 p va l t"

lemma zeroed_pages_one:
  assumes "heap_ok N s"
  shows "(\<exists>c s1. zeroed_pages s 1 = Inr (page_ptr c, s1) \<and> page_ok c \<and> allocated N s 1 c s1
            \<and> (\<forall>k\<in>{0..<512}. mem s1 (page_ptr c + U64 (8 * k)) = 0))
       \<or> zeroed_pages s 1 = Inr (0, s) \<and> free_set s = {}"
proof -
  have none: "free_set s = {}"
    if "\<forall>k y. k < CLASS_COUNT \<longrightarrow> (1 :: int) \<le> 2 ^ k \<longrightarrow> 2 ^ k dvd y \<longrightarrow> \<not> {y..<y + 2 ^ k} \<subseteq> free_set s"
  proof -
    have "\<not> {y..<y + 1} \<subseteq> free_set s" for y using that [rule_format, of 0 y] by (simp add: CLASS_COUNT_def)
    moreover have "{y..<y + 1} = {y}" for y :: int by auto
    ultimately show ?thesis by auto
  qed
  have one: "c \<in> {c..<c + 1}" for c :: int by simp
  show ?thesis using zeroed_pages_spec [OF assms, of 1] none one by (simp only: one_le_numeral zero_less_one) blast
qed

text \<open>\<open>low_tables l c lv lv'\<close>: the only new table of the lowest level is \<open>c\<close>, and only when \<open>l\<close> is the lowest level.\<close>

definition low_tables :: "nat \<Rightarrow> int \<Rightarrow> (int \<rightharpoonup> nat) \<Rightarrow> (int \<rightharpoonup> nat) \<Rightarrow> bool" where
  "low_tables l c lv lv' \<longleftrightarrow> (\<forall>t. lv' t = Some 1 \<longrightarrow> lv t = Some 1 \<or> l = 1 \<and> t = c)"

lemma low_tables_refl [simp]: "low_tables l c lv lv"
  by (simp add: low_tables_def)

lemma low_tables_new: "low_tables l c lv (lv(c \<mapsto> l))"
  by (simp add: low_tables_def)

lemma next_table_spec:
  assumes w: "walk_to N p s0 lv0 s lv va (Suc l) t" and l: "0 < l" and f: "flags_ok f"
    and ix: "8 * ucast ix = U64 (8 * idx (Suc l) va)" and nh: "\<And>e. view s0 4 p va \<noteq> Some (e, Suc l)"
  shows "next_table s (page_ptr t) ix f = Inr (0, s) \<and> free_set s = {} \<or>
    (\<exists>c s' lv'. next_table s (page_ptr t) ix f = Inr (page_ptr c, s') \<and> page_ptr c \<noteq> 0 \<and> walk_to N p s0 lv0 s' lv' va l c
       \<and> spends 1 s s' \<and> low_tables l c lv lv')"
proof -
  let ?i = "idx (Suc l) va" and ?e = "entry s t (idx (Suc l) va)"
  have ext: "extends N p s0 lv0 s lv" and t: "lv t = Some (Suc l)" and way: "via s 4 p va (Suc l) t"
    using w by (auto simp: walk_to_def)
  have ok: "heap_ok N s" and pt: "pt_ok N s lv p" using ext by (auto simp: extends_def grows_def)
  note N = heap_ok_bound [OF ok]
  have io: "load_entry s (page_ptr t) ix = ?e" "\<And>s e. store_entry s (page_ptr t) ix e = store s (page_ptr t + U64 (8 * ?i)) e"
    by (simp_all add: load_entry_def store_entry_def ix entry_def)
  have "\<not> (?e \<noteq> 0 \<and> Suc l = 2 \<and> huge ?e)"
    using via_view [OF way] ext nh [of ?e] by (auto simp: slot_view_def extends_def)
  then have cn: "child s (Suc l) t ?i = Some (pte_page ?e)" if "?e \<noteq> 0"
    using that l by (auto simp: child_def Let_def)
  show ?thesis
  proof (cases "?e = 0")
    case False
    note c = cn [OF False]
    have lc: "lv (pte_page ?e) = Some l" using pt_okD(4) [OF pt t _ _ c] by simp
    have "page_ptr (pte_page ?e) \<noteq> 0" using page_ptr_nonzero [OF table_page_ok [OF pt N lc]] .
    moreover have "next_table s (page_ptr t) ix f = Inr (page_ptr (pte_page ?e), s)"
      using pte_address_entry [OF pt t, of ?i] False calculation by (simp add: next_table_def io)
    moreover have "walk_to N p s0 lv0 s lv va l (pte_page ?e)"
      using ext lc via_step [OF way c l] by (simp add: walk_to_def)
    ultimately show ?thesis using spends_refl low_tables_refl by blast
  next
    case True
    have "(\<exists>c s1. zeroed_pages s 1 = Inr (page_ptr c, s1) \<and> page_ok c \<and> allocated N s 1 c s1
            \<and> (\<forall>k\<in>{0..<512}. mem s1 (page_ptr c + U64 (8 * k)) = 0)) \<or> zeroed_pages s 1 = Inr (0, s) \<and> free_set s = {}"
      using zeroed_pages_one [OF ok] by blast
    then consider c s1 where "zeroed_pages s 1 = Inr (page_ptr c, s1)" "page_ok c" "allocated N s 1 c s1"
        "\<forall>k\<in>{0..<512}. mem s1 (page_ptr c + U64 (8 * k)) = 0" | "zeroed_pages s 1 = Inr (0, s)" "free_set s = {}" by blast
    then show ?thesis
    proof cases
      case 1
      define s' where "s' = store s1 (page_ptr t + U64 (8 * ?i)) (U64 (c * 4096) OR f)"
      have st: "extends N p s lv s' (lv(c \<mapsto> Suc l - 1))" "child s' (Suc l) t ?i = Some c"
        using link_step [OF ok pt t _ _ _ True f 1(3,2,4)] l by (auto simp: s'_def)
      have "next_table s (page_ptr t) ix f = Inr (page_ptr c, s')"
        using True 1(1) page_ptr_nonzero [OF 1(2)] make_pte_page [OF 1(2), of f]
        by (simp add: next_table_def io pte_address_zero s'_def)
      moreover have "walk_to N p s0 lv0 s' (lv(c \<mapsto> Suc l - 1)) va l c"
        using extends_trans [OF ext st(1)] via_step [OF via_extends [OF pt st(1) way pt_okD(1) [OF pt]] st(2) l]
        by (simp add: walk_to_def)
      moreover have "spends 1 s s'" by (rule spends_cong [OF _ allocated_quads [OF ok 1(3)]]) (simp_all add: s'_def store_def free_set_def)
      moreover have "low_tables l c lv (lv(c \<mapsto> Suc l - 1))" using low_tables_new by simp
      ultimately show ?thesis using page_ptr_nonzero [OF 1(2)] by blast
    qed (simp add: next_table_def io pte_address_zero True)
  qed
qed

section \<open>Slots of virtual addresses\<close>

text \<open>The part of a virtual address that selects the entry of level \<open>l\<close>: its page for level 1.\<close>

definition vslot :: "nat \<Rightarrow> u64 \<Rightarrow> int" where
  "vslot l va = uint va div 2 ^ (3 + 9 * l) mod 2 ^ (9 * (5 - l))"

lemma idx_eq_bits: "idx j va = idx j va' \<longleftrightarrow> (\<forall>n<9. bit va (3 + 9 * j + n) = bit va' (3 + 9 * j + n))"
proof -
  have "idx j va = take_bit 9 (drop_bit (3 + 9 * j) (uint va))" for va
    by (simp add: idx_def take_bit_eq_mod drop_bit_eq_div)
  then show ?thesis by (auto simp: bit_eq_iff bit_simps bit_uint_iff dest: bit_imp_le_length)
qed

lemma vslot_eq_bits: "vslot l va = vslot l va' \<longleftrightarrow> (\<forall>n<9 * (5 - l). bit va (3 + 9 * l + n) = bit va' (3 + 9 * l + n))"
proof -
  have "vslot l va = take_bit (9 * (5 - l)) (drop_bit (3 + 9 * l) (uint va))" for va
    by (simp add: vslot_def take_bit_eq_mod drop_bit_eq_div)
  then show ?thesis by (auto simp: bit_eq_iff bit_simps bit_uint_iff dest: bit_imp_le_length)
qed

lemma same_slot_iff:
  assumes "l \<le> 4"
  shows "same_slot l va va' \<longleftrightarrow> vslot l va = vslot l va'"
proof
  assume a: "same_slot l va va'"
  show "vslot l va = vslot l va'" unfolding vslot_eq_bits
  proof (intro allI impI)
    fix n assume n: "n < 9 * (5 - l)"
    define j where "j = l + n div 9"
    have "n div 9 < 5 - l" using n by (simp add: less_mult_imp_div_less mult.commute)
    then have "j \<le> 4" "l \<le> j" using assms by (auto simp: j_def)
    then have "idx j va = idx j va'" using a by (simp add: same_slot_def)
    moreover have "3 + 9 * j + n mod 9 = 3 + 9 * l + n" by (simp add: j_def algebra_simps)
    ultimately show "bit va (3 + 9 * l + n) = bit va' (3 + 9 * l + n)"
      unfolding idx_eq_bits by (metis mod_less_divisor zero_less_numeral)
  qed
next
  assume a: "vslot l va = vslot l va'"
  show "same_slot l va va'" unfolding same_slot_def idx_eq_bits
  proof (intro allI impI)
    fix j n :: nat assume j: "l \<le> j \<and> j \<le> 4" "n < 9"
    then have "9 * (j - l) + n < 9 * (5 - l)" "3 + 9 * l + (9 * (j - l) + n) = 3 + 9 * j + n" by auto
    then show "bit va (3 + 9 * j + n) = bit va' (3 + 9 * j + n)"
      using a unfolding vslot_eq_bits by metis
  qed
qed

section \<open>Mapping one page\<close>

definition maps :: "int \<Rightarrow> memory \<Rightarrow> memory \<Rightarrow> u64 \<Rightarrow> nat \<Rightarrow> u64 \<Rightarrow> bool" where
  "maps p s s' va l e \<longleftrightarrow> view s 4 p va = None \<and>
     (\<forall>va'. view s' 4 p va' = (if vslot l va = vslot l va' then Some (e, l) else view s 4 p va'))"

lemma is_aligned_nums:
  "is_aligned v 4096 = Inr (4096 dvd uint v)" "is_aligned v 0x200000 = Inr (0x200000 dvd uint v)"
  using is_aligned_pow2 [of 12 v] is_aligned_pow2 [of 21 v] by simp_all

lemma page_ptr_aligned: "page_ok x \<Longrightarrow> ok_ptr (page_ptr x) 4096 = Inr True"
  using uint_page_off [of x 0] page_ptr_nonzero [of x] by (simp add: ok_ptr_def is_aligned_nums dvd_add)

lemma leaf_step:
  assumes w: "walk_to N p s0 lv0 s lv va l t" and l: "l = 1 \<or> l = 2 \<and> huge e" and e: "e \<noteq> 0" "page_ok (pte_page e)"
    and zero: "entry s t (idx l va) = 0"
  defines "s' \<equiv> store s (page_ptr t + U64 (8 * idx l va)) e"
  shows "grows N p s0 lv0 s' lv \<and> maps p s0 s' va l e \<and> fills lv0 s0 s' \<and> entry s' t (idx l va) \<noteq> 0"
proof -
  have ext: "extends N p s0 lv0 s lv" and t: "lv t = Some l" and way: "via s 4 p va l t"
    using w by (auto simp: walk_to_def)
  have gr: "grows N p s0 lv0 s lv" and vw: "\<And>va. view s 4 p va = view s0 4 p va" using ext by (auto simp: extends_def)
  have ok: "heap_ok N s" and pt: "pt_ok N s lv p" using gr by (auto simp: grows_def)
  have tabs: "page_ok u" "u \<notin> free_set s" if "u \<in> dom lv" for u
    using table_page_ok [OF pt heap_ok_bound [OF ok]] pt_okD(2) [OF pt] that by blast+
  have tok: "page_ok t" "t \<notin> free_set s" using tabs t by blast+
  note S = store_entry_frame [OF ok tok(2,1) idx_bounds [of l va], where e = e, folded s'_def]
  have ent: "entry s' u j = (if u = t \<and> j = idx l va then e else entry s u j)"
    if "u \<in> dom lv" "0 \<le> j" "j < 512" for u j
    using entry_store [OF tok(1) tabs(1) [OF that(1)] idx_bounds that(2,3)] by (simp add: s'_def)
  then have other: "entry s' u j = entry s u j" if "u \<in> dom lv" "0 \<le> j" "j < 512" "(u, j) \<noteq> (t, idx l va)" for u j
    using that by auto
  have new: "entry s' t (idx l va) = e" using ent [of t "idx l va"] t by auto
  have l4: "l \<le> 4" using l by auto
  have leaf: "pt_ok N s' lv p"
    by (rule pt_ok_leaf [OF pt t zero S(2) other]) (use new l e in auto)
  have v': "view s' 4 p va' = (if same_slot l va va' then Some (e, l) else view s 4 p va')" for va'
    using view_leaf [OF pt t zero other _ _ way, of va'] new l e by auto
  have l2: "l \<le> 2" using l by auto
  have rl: "rooted s' lv p" if r: "rooted s lv p" by (rule rooted_leaf [OF r t l2 zero other])
  have "view s 4 p va = None" using via_zero [OF way zero] .
  then have "maps p s0 s' va l e" using v' vw same_slot_iff [OF l4] by (simp add: maps_def)
  moreover have "mem s' a = mem s a" if "page_ok x" "x \<notin> dom lv" "a \<in> page_addrs x" for x a
    using S(4) [OF that(1) _ that(3)] that(2) t by blast
  then have "grows N p s lv s' lv" unfolding grows_def using S(1-3) leaf rl by auto
  moreover have "fills lv s s'" unfolding fills_def using other zero by (metis prod.inject)
  then have "fills lv0 s0 s'" using ext fills_trans [of lv0 s0 s lv s'] by (simp add: extends_def grows_def)
  ultimately show ?thesis using grows_trans [OF gr] new e(1) by auto
qed

lemma walk_start: "heap_ok N s \<Longrightarrow> pt_ok N s lv p \<Longrightarrow> walk_to N p s lv s lv va 4 p"
  using extends_refl pt_okD(1) by (auto simp: walk_to_def numeral_eq_Suc)

lemma slot_words:
  "8 * ucast (i4 (page_table_indices va)) = U64 (8 * idx 4 va)"
  "8 * ucast (i3 (page_table_indices va)) = U64 (8 * idx 3 va)"
  "8 * ucast (i2 (page_table_indices va)) = U64 (8 * idx 2 va)"
  by (simp_all add: page_table_indices_def Let_def slot_offset idx_def)

lemma walk_to_extends: "walk_to N p s lv s' lv' va l t \<Longrightarrow> extends N p s lv s' lv'"
  by (simp add: walk_to_def)

text \<open>What a call that maps nothing leaves behind: perhaps new empty tables, and the same translations.\<close>

definition unmapped :: "int \<Rightarrow> int \<Rightarrow> memory \<Rightarrow> (int \<rightharpoonup> nat) \<Rightarrow> memory \<Rightarrow> u64 \<Rightarrow> bool" where
  "unmapped N p s lv s' va \<longleftrightarrow> (\<exists>lv'. extends N p s lv s' lv') \<and> (view s 4 p va \<noteq> None \<or> free_set s' = {})"

lemma unmappedI: "walk_to N p s lv s' lv' va l t \<Longrightarrow> view s 4 p va \<noteq> None \<or> free_set s' = {} \<Longrightarrow> unmapped N p s lv s' va"
  unfolding unmapped_def walk_to_def by blast

lemma walk_next:
  assumes w: "walk_to N p s0 lv0 s lv va (Suc l) t" and l: "0 < l" and f: "flags_ok f"
    and ix: "8 * ucast ix = U64 (8 * idx (Suc l) va)" and nh: "\<And>e. view s0 4 p va \<noteq> Some (e, Suc l)"
  defines "r \<equiv> (\<lambda>K. bindR (next_table s (page_ptr t) ix f) (\<lambda>(q, s). if q = 0 then Inr (False, s) else K q s))"
  obtains "\<And>K. r K = Inr (False, s)" "unmapped N p s0 lv0 s va" "free_set s = {}"
  | c s' lv' where "\<And>K. r K = K (page_ptr c) s'" "walk_to N p s0 lv0 s' lv' va l c" "spends 1 s s'" "low_tables l c lv lv'"
  using next_table_spec [OF w l f ix nh] unmappedI [OF w] by (auto simp: r_def)

lemma leaf_entry:
  assumes "walk_to N p s0 lv0 s lv va l t" "entry s t (idx l va) \<noteq> 0" "l = 1 \<or> l = 2 \<and> \<not> (\<exists>e. view s0 4 p va = None)"
  shows "unmapped N p s0 lv0 s va"
  using assms via_view [of s 4 p va l t] unmappedI [OF assms(1)]
  by (auto simp: walk_to_def extends_def slot_view_def)

lemma map_page_spec:
  assumes ok: "heap_ok N s" and pt: "pt_ok N s lv p" and f: "flags_ok f" and k: "page_ok k"
    and va: "va \<noteq> 0" "4096 dvd uint va" and nh: "\<And>e. view s 4 p va \<noteq> Some (e, 2)"
  shows "(\<exists>s' lv'. map_page s (page_ptr p) va (page_ptr k) f = Inr (True, s') \<and> grows N p s lv s' lv'
            \<and> maps p s s' va 1 (U64 (k * 4096) OR f) \<and> spends 3 s s' \<and> (leafy s lv \<longrightarrow> leafy s' lv'))
       \<or> (\<exists>s'. map_page s (page_ptr p) va (page_ptr k) f = Inr (False, s') \<and> unmapped N p s lv s' va \<and> spends 3 s s')"
proof -
  have pp: "page_ok p" using table_page_ok [OF pt heap_ok_bound [OF ok] pt_okD(1) [OF pt]] .
  have "ok_ptr va 4096 = Inr True" using va by (simp add: ok_ptr_def is_aligned_nums)
  note start = page_ptr_aligned [OF pp] page_ptr_aligned [OF k] this map_page_def Let_def
  have no: "view s 4 p va \<noteq> Some (e, Suc 3)" "view s 4 p va \<noteq> Some (e, Suc 2)" "view s 4 p va \<noteq> Some (e, Suc 1)" for e
    using nh by (auto simp: numeral_eq_Suc Let_def)
  have w4: "walk_to N p s lv s lv va (Suc 3) p" using walk_start [OF ok pt, of va] by simp
  show ?thesis
  proof (rule walk_next [OF w4 _ f _ no(1), of "i4 (page_table_indices va)"])
    fix c3 s3 lv3 assume r3: "\<And>K. bindR (next_table s (page_ptr p) (i4 (page_table_indices va)) f)
        (\<lambda>(q, s). if q = 0 then Inr (False, s) else K q s) = K (page_ptr c3) s3"
      and w3: "walk_to N p s lv s3 lv3 va 3 c3" and p3: "spends 1 s s3" and l3: "low_tables 3 c3 lv lv3"
    show ?thesis
    proof (rule walk_next [of N p s lv s3 lv3 va 2 c3 f "i3 (page_table_indices va)"])
      fix c2 s2 lv2 assume r2: "\<And>K. bindR (next_table s3 (page_ptr c3) (i3 (page_table_indices va)) f)
          (\<lambda>(q, s). if q = 0 then Inr (False, s) else K q s) = K (page_ptr c2) s2"
        and w2: "walk_to N p s lv s2 lv2 va 2 c2" and p2: "spends 1 s3 s2" and l2: "low_tables 2 c2 lv3 lv2"
      show ?thesis
      proof (rule walk_next [OF w2 [folded Suc_1] _ f _ no(3), of "i2 (page_table_indices va)"])
        fix c1 s1 lv1 assume r1: "\<And>K. bindR (next_table s2 (page_ptr c2) (i2 (page_table_indices va)) f)
            (\<lambda>(q, s). if q = 0 then Inr (False, s) else K q s) = K (page_ptr c1) s1"
          and w1: "walk_to N p s lv s1 lv1 va 1 c1" and p1: "spends 1 s2 s1" and l1: "low_tables 1 c1 lv2 lv1"
        have sp: "spends 2 s s2" "spends 3 s s1" using p3 p2 p1 by (auto intro: spends_trans)
        have low: "lv t = Some 1 \<or> t = c1" if "lv1 t = Some 1" for t using l3 l2 l1 that by (auto simp: low_tables_def)
        show ?thesis
        proof (cases "entry s1 c1 (idx 1 va) = 0")
          case True
          have "spends 3 s (store s1 (page_ptr c1 + U64 (8 * idx 1 va)) (U64 (k * 4096) OR f))"
            by (rule spends_cong [OF _ sp(2)]) (simp add: store_def free_set_def)
          moreover have leaf: "grows N p s lv (store s1 (page_ptr c1 + U64 (8 * idx 1 va)) (U64 (k * 4096) OR f)) lv1"
              "maps p s (store s1 (page_ptr c1 + U64 (8 * idx 1 va)) (U64 (k * 4096) OR f)) va 1 (U64 (k * 4096) OR f)"
              "fills lv s (store s1 (page_ptr c1 + U64 (8 * idx 1 va)) (U64 (k * 4096) OR f))"
              "entry (store s1 (page_ptr c1 + U64 (8 * idx 1 va)) (U64 (k * 4096) OR f)) c1 (idx 1 va) \<noteq> 0"
            using leaf_step [OF w1 _ _ _ True, of "U64 (k * 4096) OR f"] pte_facts [OF k f] k by auto
          moreover note leafy_fills [OF _ leaf(3) low _ _ leaf(4)]
          ultimately show ?thesis
            using True by (auto simp: start r3 r2 r1 load_entry_idx store_entry_idx make_pte_page k)
        next
          case False
          then show ?thesis using leaf_entry [OF w1 False] sp(2) by (simp add: start r3 r2 r1 load_entry_idx)
        qed
      qed (use slot_words(3) [folded Suc_1] r3 r2 spends_trans [OF p3 p2, of 3] in \<open>auto simp: start\<close>)
    qed (use w3 f slot_words no r3 spends_mono [OF p3, of 3] in \<open>auto simp: start\<close>)
  qed (use slot_words in \<open>auto simp: start\<close>)
qed

lemma next_table_present:
  assumes "pt_ok N s lv p" "N \<le> 2 ^ 35" "lv t = Some l" "8 * ucast ix = U64 (8 * i)" "0 \<le> i" "i < 512" "entry s t i \<noteq> 0"
  shows "next_table s (page_ptr t) ix f = Inr (page_ptr (pte_page (entry s t i)), s)"
proof -
  have "load_entry s (page_ptr t) ix = entry s t i" by (simp add: load_entry_def entry_def assms(4))
  then show ?thesis
    using pte_address_entry [OF assms(1,3,5,6)] page_ptr_nonzero [OF pt_okD(6) [OF assms(1,3,5,6)]] assms(7)
    by (simp add: next_table_def)
qed

text \<open>Where the three tables above a page exist, \<^verbatim>\<open>map_page\<close> takes no page from the allocator.\<close>

lemma map_page_present:
  fixes s p va
  defines "c3 \<equiv> pte_page (entry s p (idx 4 va))"
  defines "c2 \<equiv> pte_page (entry s c3 (idx 3 va))"
  defines "c1 \<equiv> pte_page (entry s c2 (idx 2 va))"
  assumes ok: "heap_ok N s" and pt: "pt_ok N s lv p" and k: "page_ok k" and va: "va \<noteq> 0" "4096 dvd uint va"
    and e: "entry s p (idx 4 va) \<noteq> 0" "entry s c3 (idx 3 va) \<noteq> 0" "entry s c2 (idx 2 va) \<noteq> 0"
  shows "map_page s (page_ptr p) va (page_ptr k) f =
           Inr (if entry s c1 (idx 1 va) \<noteq> 0 then (False, s)
                else (True, store s (page_ptr c1 + U64 (8 * idx 1 va)) (U64 (k * 4096) OR f)))"
proof -
  note N = heap_ok_bound [OF ok]
  have l3: "lv c3 = Some 3" using child_table [OF pt pt_okD(1) [OF pt] e(1)] by (simp add: c3_def)
  have l2: "lv c2 = Some 2" using child_table [OF pt l3 e(2)] by (simp add: c2_def)
  note nexts = next_table_present [OF pt N pt_okD(1) [OF pt] slot_words(1) idx_bounds e(1), folded c3_def]
    next_table_present [OF pt N l3 slot_words(2) idx_bounds e(2), folded c2_def]
    next_table_present [OF pt N l2 slot_words(3) idx_bounds e(3), folded c1_def]
  have "page_ok c1" using pt_okD(6) [OF pt l2, of "idx 2 va"] by (simp add: c1_def)
  moreover have "ok_ptr va 4096 = Inr True" using va by (simp add: ok_ptr_def is_aligned_nums)
  ultimately show ?thesis
    using nexts page_ptr_nonzero table_page_ok [OF pt N] l3 l2 pt_okD(1) [OF pt] k
    by (simp add: map_page_def Let_def page_ptr_aligned load_entry_idx store_entry_idx make_pte_page)
qed

text \<open>\<open>warm s p va\<close>: the lowest table above the page of \<open>va\<close> exists.\<close>

definition warm :: "memory \<Rightarrow> int \<Rightarrow> u64 \<Rightarrow> bool" where
  "warm s p va \<longleftrightarrow> (\<exists>t. via s 4 p va 1 t)"

lemma map_page_warm:
  assumes "heap_ok N s" "pt_ok N s lv p" "page_ok k" "va \<noteq> 0" "4096 dvd uint va" "warm s p va"
    and "map_page s (page_ptr p) va (page_ptr k) f = Inr (r, s')"
  shows "free_set s' = free_set s"
proof -
  obtain t where "via s 4 p va 1 t" using assms(6) by (auto simp: warm_def)
  then have "entry s p (idx 4 va) \<noteq> 0" "entry s (pte_page (entry s p (idx 4 va))) (idx 3 va) \<noteq> 0"
    "entry s (pte_page (entry s (pte_page (entry s p (idx 4 va))) (idx 3 va))) (idx 2 va) \<noteq> 0"
    by (auto simp: numeral_eq_Suc child_def Let_def split: if_splits option.splits)
  from map_page_present [OF assms(1-5) this, of f] show ?thesis
    using assms(7) by (auto simp: store_def free_set_def split: if_splits)
qed

lemma view_warm: "view s 4 p va = Some (e, 1) \<Longrightarrow> warm s p va"
  by (auto simp: warm_def numeral_eq_Suc child_def Let_def split: if_splits)

lemma warm_slot: "warm s p va \<Longrightarrow> vslot 2 va = vslot 2 va' \<Longrightarrow> warm s p va'"
proof -
  assume "warm s p va" "vslot 2 va = vslot 2 va'"
  then obtain t where t: "via s 4 p va 1 t" "same_slot 2 va va'" using same_slot_iff [of 2] by (auto simp: warm_def)
  have "via s 4 p va' 1 t" by (rule same_slot_via [OF t(1)]) (use t(2) in \<open>auto simp: same_slot_def\<close>)
  then show ?thesis by (auto simp: warm_def)
qed

section \<open>Mapping a large page\<close>

lemma page_ptr_2MB: "page_ok k \<Longrightarrow> 0x200000 dvd uint (page_ptr k) \<longleftrightarrow> 512 dvd k"
proof -
  assume "page_ok k"
  then have u: "uint (page_ptr k) = 4096 * k + 0xffff800000000000" using uint_page_off [of k 0] by simp
  have "(0x200000 :: int) = 4096 * 512" "(0xffff800000000000 :: int) = 4096 * (512 * 0x7fffc000000)" by simp_all
  then have "0x200000 dvd uint (page_ptr k) \<longleftrightarrow> 4096 * 512 dvd 4096 * (k + 512 * 0x7fffc000000)"
    unfolding u by (simp add: distrib_left)
  also have "\<dots> \<longleftrightarrow> 512 dvd k + 512 * 0x7fffc000000" by (subst dvd_mult_cancel_left) simp
  also have "\<dots> \<longleftrightarrow> 512 dvd k" by (rule dvd_add_left_iff) simp
  finally show ?thesis .
qed

lemma huge_pte_facts:
  assumes "page_ok c" "flags_ok f"
  shows "U64 (c * 4096) OR (f OR PTE_HUGE_PAGE) \<noteq> 0" "huge (U64 (c * 4096) OR (f OR PTE_HUGE_PAGE))"
    "pte_page (U64 (c * 4096) OR (f OR PTE_HUGE_PAGE)) = c"
proof -
  have b: "bit PTE_HUGE_PAGE 7" by (simp add: PTE_HUGE_PAGE_def bit_simps)
  show "huge (U64 (c * 4096) OR (f OR PTE_HUGE_PAGE))" unfolding huge_bit bit_or_iff by (simp add: b)
  then show "U64 (c * 4096) OR (f OR PTE_HUGE_PAGE) \<noteq> 0" unfolding huge_bit by force
  have "PTE_HUGE_PAGE AND PTE_ADDRESS = 0" by (simp add: PTE_HUGE_PAGE_def PTE_ADDRESS_def)
  then have "(f OR PTE_HUGE_PAGE) AND PTE_ADDRESS = 0"
    using assms(2) by (simp add: flags_ok_def and.commute [of _ PTE_ADDRESS] bit.conj_disj_distrib)
  then show "pte_page (U64 (c * 4096) OR (f OR PTE_HUGE_PAGE)) = c" by (rule pte_page_make [OF assms(1)])
qed

text \<open>The pages under a slot of level 2.\<close>

lemma page_in_slot:
  assumes "0x200000 dvd uint va" "0 \<le> i" "i < 512"
  shows "idx 1 (va + U64 (4096 * i)) = i" "vslot 2 (va + U64 (4096 * i)) = vslot 2 va"
proof -
  obtain q where q: "uint va = 0x200000 * q" using assms(1) by blast
  have "0 \<le> q" "q < 2 ^ 43" using uint_bounded [of va] by (simp_all add: q) (use q uint_nonnegative [of va] in linarith)
  then have "0 \<le> uint va + 4096 * i" "uint va + 4096 * i < 2 ^ 64" using assms by (simp_all add: q)
  then have "uint (U64 (uint va + 4096 * i)) = uint va + 4096 * i" by (rule uint_word_of_int_small)
  moreover have "va + U64 (4096 * i) = U64 (uint va + 4096 * i)" by simp
  ultimately have u: "uint (va + U64 (4096 * i)) = 4096 * (512 * q + i)" using q by simp
  show "idx 1 (va + U64 (4096 * i)) = i" unfolding idx_def u using assms(2,3) by simp
  have "4096 * (512 * q + i) = 4096 * i + 0x200000 * q" by simp
  then have "4096 * (512 * q + i) div 0x200000 = q" using assms(2,3) by (simp only: div_mult_self2)
  then show "vslot 2 (va + U64 (4096 * i)) = vslot 2 va" unfolding vslot_def u by (simp add: q)
qed

text \<open>An entry of level 2 that is not empty is a large page or leads to a table of the lowest level, which maps some page
  when the tree is leafy.\<close>

lemma large_slot_taken:
  assumes w: "walk_to N p s0 lv0 s lv va 2 t" and e: "entry s t (idx 2 va) \<noteq> 0" and al: "0x200000 dvd uint va"
    and low: "\<And>u. lv u = Some 1 \<Longrightarrow> lv0 u = Some 1" and leafy: "leafy s0 lv0"
  shows "\<exists>i\<in>{0..<512}. view s0 4 p (va + U64 (4096 * i)) \<noteq> None"
proof -
  have same: "view s 4 p va' = view s0 4 p va'" for va' using w by (simp add: walk_to_def extends_def)
  show ?thesis
  proof (cases "huge (entry s t (idx 2 va))")
    case True
    then have "view s 4 p va \<noteq> None" using w e via_view [of s 4 p va 2 t] by (simp add: walk_to_def slot_view_def)
    then show ?thesis using same by (intro bexI [of _ 0]) auto
  next
    case False
    let ?c = "pte_page (entry s t (idx 2 va))"
    have pt: "pt_ok N s lv p" "lv t = Some 2" and fl: "fills lv0 s0 s" and way: "via s 4 p va 2 t"
      using w by (auto simp: walk_to_def extends_def grows_def)
    have c: "child s 2 t (idx 2 va) = Some ?c" using child_next [OF e] False by simp
    have "lv ?c = Some 1" using child_table [OF pt e] False by simp
    then have c0: "lv0 ?c = Some 1" by (rule low)
    then obtain i where i: "0 \<le> i" "i < 512" "entry s0 ?c i \<noteq> 0" using leafy by (auto simp: leafy_def)
    then have ei: "entry s ?c i \<noteq> 0" using fl c0 unfolding fills_def by blast
    let ?va = "va + U64 (4096 * i)"
    note ps = page_in_slot [OF al i(1,2)]
    have ss: "same_slot 2 va ?va" using ps(2) same_slot_iff [of 2 va ?va] by simp
    then have "via s 4 p ?va 2 t" using same_slot_via [OF way, of ?va] by (simp add: same_slot_def)
    moreover have "idx 2 ?va = idx 2 va" using ss by (simp add: same_slot_def)
    ultimately have "via s 4 p ?va 1 ?c" using via_step [of s 4 p ?va 1 t ?c] c by (simp add: numeral_2_eq_2)
    then have "view s 4 p ?va \<noteq> None" using via_view [of s 4 p ?va 1 ?c] ei ps(1) by (simp add: slot_view_def)
    then show ?thesis using i(1,2) same by (intro bexI [of _ i]) auto
  qed
qed

lemma map_2MB_page_spec:
  assumes ok: "heap_ok N s" and pt: "pt_ok N s lv p" and f: "flags_ok f" and k: "page_ok k" "512 dvd k"
    and va: "va \<noteq> 0" "0x200000 dvd uint va"
  shows "(\<exists>s' lv'. map_2MB_page s (page_ptr p) va (page_ptr k) f = Inr (True, s') \<and> grows N p s lv s' lv'
            \<and> maps p s s' va 2 (U64 (k * 4096) OR (f OR PTE_HUGE_PAGE)) \<and> spends 2 s s' \<and> (leafy s lv \<longrightarrow> leafy s' lv'))
       \<or> (\<exists>s' lv'. map_2MB_page s (page_ptr p) va (page_ptr k) f = Inr (False, s') \<and> extends N p s lv s' lv' \<and> spends 2 s s'
            \<and> (leafy s lv \<longrightarrow> (\<exists>i\<in>{0..<512}. view s 4 p (va + U64 (4096 * i)) \<noteq> None) \<or> free_set s' = {}))"
proof -
  have pp: "page_ok p" using table_page_ok [OF pt heap_ok_bound [OF ok] pt_okD(1) [OF pt]] .
  have "ok_ptr va 0x200000 = Inr True" "ok_ptr (page_ptr k) 0x200000 = Inr True"
    using va k page_ptr_2MB page_ptr_nonzero by (simp_all add: ok_ptr_def is_aligned_nums)
  note start = page_ptr_aligned [OF pp] this map_2MB_page_def Let_def
  have no: "view s 4 p va \<noteq> Some (e, Suc 3)" "view s 4 p va \<noteq> Some (e, Suc 2)" for e
    by (auto simp: numeral_eq_Suc Let_def)
  have w4: "walk_to N p s lv s lv va (Suc 3) p" using walk_start [OF ok pt, of va] by simp
  show ?thesis
  proof (rule walk_next [OF w4 _ f _ no(1), of "i4 (page_table_indices va)"])
    fix c3 s3 lv3 assume r3: "\<And>K. bindR (next_table s (page_ptr p) (i4 (page_table_indices va)) f)
        (\<lambda>(q, s). if q = 0 then Inr (False, s) else K q s) = K (page_ptr c3) s3"
      and w3: "walk_to N p s lv s3 lv3 va 3 c3" and p3: "spends 1 s s3" and l3: "low_tables 3 c3 lv lv3"
    show ?thesis
    proof (rule walk_next [of N p s lv s3 lv3 va 2 c3 f "i3 (page_table_indices va)"])
      fix c2 s2 lv2 assume r2: "\<And>K. bindR (next_table s3 (page_ptr c3) (i3 (page_table_indices va)) f)
          (\<lambda>(q, s). if q = 0 then Inr (False, s) else K q s) = K (page_ptr c2) s2"
        and w2: "walk_to N p s lv s2 lv2 va 2 c2" and p2: "spends 1 s3 s2" and l2: "low_tables 2 c2 lv3 lv2"
      have sp: "spends 2 s s2" using p3 p2 by (auto intro: spends_trans)
      have low: "lv t = Some 1" if "lv2 t = Some 1" for t using l3 l2 that by (auto simp: low_tables_def)
      show ?thesis
      proof (cases "entry s2 c2 (idx 2 va) = 0")
        case True
        have "spends 2 s (store s2 (page_ptr c2 + U64 (8 * idx 2 va)) (U64 (k * 4096) OR (f OR PTE_HUGE_PAGE)))"
          by (rule spends_cong [OF _ sp]) (simp add: store_def free_set_def)
        moreover have leaf: "grows N p s lv (store s2 (page_ptr c2 + U64 (8 * idx 2 va)) (U64 (k * 4096) OR (f OR PTE_HUGE_PAGE))) lv2"
            "maps p s (store s2 (page_ptr c2 + U64 (8 * idx 2 va)) (U64 (k * 4096) OR (f OR PTE_HUGE_PAGE))) va 2 (U64 (k * 4096) OR (f OR PTE_HUGE_PAGE))"
            "fills lv s (store s2 (page_ptr c2 + U64 (8 * idx 2 va)) (U64 (k * 4096) OR (f OR PTE_HUGE_PAGE)))"
          using leaf_step [OF w2 _ _ _ True, of "U64 (k * 4096) OR (f OR PTE_HUGE_PAGE)"] huge_pte_facts [OF k(1) f] k by auto
        moreover have "leafy s lv \<longrightarrow> leafy (store s2 (page_ptr c2 + U64 (8 * idx 2 va)) (U64 (k * 4096) OR (f OR PTE_HUGE_PAGE))) lv2"
          using leaf(3) low unfolding leafy_def fills_def by (metis domI)
        ultimately show ?thesis
          using True by (auto simp: start r3 r2 load_entry_idx store_entry_idx make_pte_page k)
      next
        case False
        have "leafy s lv \<longrightarrow> (\<exists>i\<in>{0..<512}. view s 4 p (va + U64 (4096 * i)) \<noteq> None)" using large_slot_taken [OF w2 False va(2) low] by blast
        then show ?thesis using walk_to_extends [OF w2] False sp by (auto simp: start r3 r2 load_entry_idx)
      qed
    qed (use w3 f slot_words no r3 spends_mono [OF p3, of 2] in \<open>auto simp: start unmapped_def\<close>)
  qed (use slot_words in \<open>auto simp: start unmapped_def\<close>)
qed

section \<open>Mapping a region\<close>

text \<open>The virtual page number \<open>V\<close> as an address.\<close>

definition vaddr :: "int \<Rightarrow> u64" where
  "vaddr V = U64 (4096 * V)"

lemma uint_vaddr: "0 \<le> V \<Longrightarrow> V < 2 ^ 52 \<Longrightarrow> uint (vaddr V) = 4096 * V"
  unfolding vaddr_def by (rule uint_word_of_int_small) auto

lemma vaddr_add: "vaddr (V + n) = vaddr V + U64 (4096 * n)"
  by (simp add: vaddr_def distrib_left)

lemma page_ptr_add: "page_ptr (k + n) = page_ptr k + U64 (4096 * n)"
  by (simp add: page_ptr_def algebra_simps)

lemma vslot_vaddr:
  assumes "0 \<le> V" "V < 2 ^ 52"
  shows "vslot 1 (vaddr V) = V mod 2 ^ 36" "vslot 2 (vaddr V) = V div 512 mod 2 ^ 27"
proof -
  show "vslot 1 (vaddr V) = V mod 2 ^ 36" by (simp add: vslot_def uint_vaddr [OF assms])
  have "4096 * V div (4096 * 512) = V div 512" by (rule div_mult_mult1) simp
  then show "vslot 2 (vaddr V) = V div 512 mod 2 ^ 27" by (simp add: vslot_def uint_vaddr [OF assms])
qed

lemma vslot_split: "vslot 1 va = 512 * vslot 2 va + idx 1 va"
proof -
  have "vslot 1 va = uint va div 4096 mod (512 * 2 ^ 27)" by (simp add: vslot_def)
  also have "\<dots> = 512 * (uint va div 4096 div 512 mod 2 ^ 27) + uint va div 4096 mod 512"
    by (rule zmod_zmult2_eq) simp
  also have "uint va div 4096 div 512 = uint va div 0x200000" by (simp add: zdiv_zmult2_eq [symmetric])
  finally show ?thesis by (simp add: vslot_def idx_def)
qed

definition in_region :: "int \<Rightarrow> int \<Rightarrow> u64 \<Rightarrow> bool" where
  "in_region V n va \<longleftrightarrow> (\<exists>j\<in>{0..<n}. vslot 1 va = vslot 1 (vaddr (V + j)))"

lemma in_region_split:
  "0 \<le> m \<Longrightarrow> m \<le> n \<Longrightarrow> in_region V n va \<longleftrightarrow> in_region V m va \<or> in_region (V + m) (n - m) va"
proof -
  assume m: "0 \<le> m" "m \<le> n"
  have "in_region (V + m) (n - m) va \<longleftrightarrow> (\<exists>j\<in>{m..<n}. vslot 1 va = vslot 1 (vaddr (V + j)))"
    unfolding in_region_def
  proof safe
    fix j assume "j \<in> {0..<n - m}" "vslot 1 va = vslot 1 (vaddr (V + m + j))"
    then show "\<exists>j\<in>{m..<n}. vslot 1 va = vslot 1 (vaddr (V + j))"
      by (intro bexI [of _ "m + j"]) (auto simp: add.assoc)
  next
    fix j assume "j \<in> {m..<n}" "vslot 1 va = vslot 1 (vaddr (V + j))"
    then show "\<exists>j\<in>{0..<n - m}. vslot 1 va = vslot 1 (vaddr (V + m + j))"
      by (intro bexI [of _ "j - m"]) auto
  qed
  moreover have "{0..<n} = {0..<m} \<union> {m..<n}" using m by auto
  ultimately show ?thesis by (auto simp: in_region_def)
qed

lemma vslot_inject:
  assumes "0 \<le> a" "a < b" "b < 2 ^ 52" "b - a < 2 ^ 36"
  shows "vslot 1 (vaddr a) \<noteq> vslot 1 (vaddr b)"
proof
  assume "vslot 1 (vaddr a) = vslot 1 (vaddr b)"
  then have "b mod 2 ^ 36 = a mod 2 ^ 36"
    using assms vslot_vaddr(1) [of a] vslot_vaddr(1) [of b] by simp
  then have "2 ^ 36 dvd b - a" by (metis mod_eq_dvd_iff)
  then show False using assms zdvd_imp_le by fastforce
qed

lemma regions_disjoint:
  assumes "0 \<le> V" "0 \<le> m" "0 \<le> n" "V + m + n \<le> 2 ^ 52" "m + n \<le> 2 ^ 36"
  shows "j \<in> {0..<m} \<Longrightarrow> \<not> in_region (V + m) n (vaddr (V + j))"
    and "j \<in> {0..<n} \<Longrightarrow> \<not> in_region V m (vaddr (V + m + j))"
proof -
  have ne: "vslot 1 (vaddr (V + i)) \<noteq> vslot 1 (vaddr (V + m + j))" if "i \<in> {0..<m}" "j \<in> {0..<n}" for i j
    using assms that by (intro vslot_inject) auto
  show "j \<in> {0..<m} \<Longrightarrow> \<not> in_region (V + m) n (vaddr (V + j))"
    unfolding in_region_def using ne by blast
  show "j \<in> {0..<n} \<Longrightarrow> \<not> in_region V m (vaddr (V + m + j))"
    unfolding in_region_def using ne by metis
qed

text \<open>\<open>translates p s V n k\<close>: the \<open>n\<close> pages from virtual page \<open>V\<close> on are mapped to the pages from \<open>k\<close> on.\<close>

definition translates :: "int \<Rightarrow> memory \<Rightarrow> int \<Rightarrow> int \<Rightarrow> int \<Rightarrow> bool" where
  "translates p s V n k \<longleftrightarrow> (\<forall>j\<in>{0..<n}. view s 4 p (vaddr (V + j)) \<noteq> None
     \<and> target (view s 4 p (vaddr (V + j))) (vaddr (V + j)) = page_ptr (k + j))"

definition keeps_outside :: "int \<Rightarrow> memory \<Rightarrow> memory \<Rightarrow> int \<Rightarrow> int \<Rightarrow> bool" where
  "keeps_outside p s s' V n \<longleftrightarrow> (\<forall>va. \<not> in_region V n va \<longrightarrow> view s' 4 p va = view s 4 p va)"

lemma translates_join:
  assumes "0 \<le> m" "translates p s V m k" "translates p s (V + m) n (k + m)"
  shows "translates p s V (m + n) k"
  unfolding translates_def
proof
  fix j assume j: "j \<in> {0..<m + n}"
  show "view s 4 p (vaddr (V + j)) \<noteq> None \<and> target (view s 4 p (vaddr (V + j))) (vaddr (V + j)) = page_ptr (k + j)"
  proof (cases "j < m")
    case True
    then show ?thesis using assms(2) j by (simp add: translates_def)
  next
    case False
    then have "j - m \<in> {0..<n}" using j by simp
    from bspec [OF assms(3) [unfolded translates_def] this] show ?thesis by simp
  qed
qed

lemma translates_keep:
  assumes "translates p s V m k" "keeps_outside p s s' (V + m) n"
    and "0 \<le> V" "0 \<le> m" "0 \<le> n" "V + m + n \<le> 2 ^ 52" "m + n \<le> 2 ^ 36"
  shows "translates p s' V m k"
  using assms(1,2) regions_disjoint(1) [OF assms(3-7)] unfolding translates_def keeps_outside_def by metis

lemma target_page: "pte_page e = k \<Longrightarrow> 0 \<le> V \<Longrightarrow> V < 2 ^ 52 \<Longrightarrow> target (Some (e, 1)) (vaddr V) = page_ptr k"
  by (simp add: target_def uint_vaddr)

lemma target_large:
  assumes "pte_page e = k" "0 \<le> V" "V + j < 2 ^ 52" "512 dvd V" "j \<in> {0..<512}"
  shows "target (Some (e, 2)) (vaddr (V + j)) = page_ptr (k + j)"
proof -
  obtain q where q: "V = 512 * q" using assms(4) by blast
  have "uint (vaddr (V + j)) = 4096 * (V + j)" using assms by (intro uint_vaddr) auto
  also have "\<dots> = 4096 * j + 0x200000 * q" by (simp add: q)
  finally have "uint (vaddr (V + j)) mod 0x200000 = 4096 * j" using assms(5) by simp
  then show ?thesis using assms(1) by (simp add: target_def page_ptr_add)
qed

lemma maps_page_region:
  assumes "maps p s s' (vaddr V) 1 e" "pte_page e = k" "0 \<le> V" "V < 2 ^ 52"
  shows "translates p s' V 1 k" "keeps_outside p s s' V 1"
proof -
  have one: "{0..<1} = {0 :: int}" by auto
  show "translates p s' V 1 k"
    using assms target_page [OF assms(2-4)] by (simp add: maps_def translates_def one)
  show "keeps_outside p s s' V 1"
    using assms(1) by (auto simp: maps_def keeps_outside_def in_region_def one)
qed

lemma maps_large_region:
  assumes m: "maps p s s' (vaddr V) 2 e" and e: "pte_page e = k" and V: "0 \<le> V" "V + 512 \<le> 2 ^ 52" "512 dvd V"
  shows "translates p s' V 512 k" "keeps_outside p s s' V 512"
proof -
  have V0: "0 \<le> V" "V < 2 ^ 52" using V by auto
  have s2: "vslot 2 (vaddr V) = vslot 2 (vaddr (V + j))" if "j \<in> {0..<512}" for j
  proof -
    have "(V + j) div 512 = V div 512" using V(3) that by (auto elim!: dvdE)
    moreover have "0 \<le> V + j" "V + j < 2 ^ 52" using V that by auto
    ultimately show ?thesis using V0 by (simp only: vslot_vaddr)
  qed
  show "translates p s' V 512 k"
    unfolding translates_def
  proof
    fix j :: int assume j: "j \<in> {0..<512}"
    then have "view s' 4 p (vaddr (V + j)) = Some (e, 2)" using m s2 [OF j] by (simp add: maps_def)
    moreover have "V + j < 2 ^ 52" using j V by auto
    ultimately show "view s' 4 p (vaddr (V + j)) \<noteq> None
        \<and> target (view s' 4 p (vaddr (V + j))) (vaddr (V + j)) = page_ptr (k + j)"
      using target_large [OF e V(1) _ V(3) j] by simp
  qed
  show "keeps_outside p s s' V 512"
    unfolding keeps_outside_def
  proof (intro allI impI)
    fix va assume out: "\<not> in_region V 512 va"
    have "vslot 2 (vaddr V) \<noteq> vslot 2 va"
    proof
      assume eq: "vslot 2 (vaddr V) = vslot 2 va"
      let ?j = "idx 1 va"
      have j: "?j \<in> {0..<512}" by simp
      have "idx 1 (vaddr (V + ?j)) = (V + ?j) mod 512"
        using V uint_vaddr [of "V + ?j"] idx_bounds [of 1 va] by (simp add: idx_def)
      also have "\<dots> = ?j" using V(3) by (auto elim!: dvdE)
      finally have "vslot 1 va = vslot 1 (vaddr (V + ?j))"
        using eq s2 [OF j] vslot_split by metis
      with out j show False by (auto simp: in_region_def)
    qed
    then show "view s' 4 p va = view s 4 p va" using m by (simp add: maps_def)
  qed
qed

definition region_done :: "int \<Rightarrow> int \<Rightarrow> memory \<Rightarrow> (int \<rightharpoonup> nat) \<Rightarrow> int \<Rightarrow> int \<Rightarrow> int \<Rightarrow> bool \<Rightarrow> memory \<Rightarrow> bool" where
  "region_done N p s lv V n k r s' \<longleftrightarrow> (\<exists>lv'. grows N p s lv s' lv') \<and> keeps_outside p s s' V n
     \<and> (r \<longrightarrow> translates p s' V n k)"

lemma region_done_step:
  assumes g: "grows N p s lv s1 lv1" and t: "translates p s1 V m k" and o: "keeps_outside p s s1 V m"
    and rest: "region_done N p s1 lv1 (V + m) (n - m) (k + m) r s'"
    and b: "0 \<le> V" "0 \<le> m" "m \<le> n" "V + n \<le> 2 ^ 52" "n \<le> 2 ^ 36"
  shows "region_done N p s lv V n k r s'"
proof -
  have b': "0 \<le> n - m" "V + m + (n - m) \<le> 2 ^ 52" "m + (n - m) \<le> 2 ^ 36" using b by simp_all
  have "keeps_outside p s s' V n"
    using o rest in_region_split [OF b(2,3), of V] by (auto simp: keeps_outside_def region_done_def)
  moreover have "translates p s' V n k" if r
  proof -
    have r: "translates p s' (V + m) (n - m) (k + m)" "keeps_outside p s1 s' (V + m) (n - m)"
      using rest that by (auto simp: region_done_def)
    have "translates p s' V m k" by (rule translates_keep [OF t r(2) b(1,2) b'])
    from translates_join [OF b(2) this r(1)] show ?thesis by simp
  qed
  ultimately show ?thesis using grows_trans [OF g] rest unfolding region_done_def by blast
qed

lemma region_stop:
  assumes "extends N p s lv s' lv'" shows "region_done N p s lv V n k False s'"
  using assms by (auto simp: region_done_def extends_def keeps_outside_def)

lemma vaddr_2MB:
  assumes "0 \<le> V" "V < 2 ^ 52"
  shows "0x200000 dvd uint (vaddr V) \<longleftrightarrow> 512 dvd V"
proof -
  have "(0x200000 :: int) dvd 4096 * V \<longleftrightarrow> 4096 * 512 dvd 4096 * V" by simp
  also have "\<dots> \<longleftrightarrow> 512 dvd V" by (subst dvd_mult_cancel_left) simp
  finally show ?thesis by (simp add: uint_vaddr [OF assms])
qed

text \<open>One round of the loop: it maps the first \<open>m\<close> pages of the region and goes on, or stops.\<close>

lemma map_region_round:
  assumes ok: "heap_ok N s" and pt: "pt_ok N s lv p" and f: "flags_ok f"
    and b: "0 < V" "0 < n" "V + n \<le> 2 ^ 52" "0 \<le> k" "k + n \<le> 2 ^ 35"
    and nh: "\<And>e. view s 4 p (vaddr V) \<noteq> Some (e, 2)" and sz: "sz - mapped = 4096 * n"
  defines "run \<equiv> map_region_loop s (page_ptr p) (vaddr V) (page_ptr k) sz mapped f" and "large \<equiv> 512 dvd V \<and> 512 dvd k \<and> 512 \<le> n"
  defines "c \<equiv> if large then 2 else if warm s p (vaddr V) then 0 else 3"
  obtains m s1 lv1 where "0 < m" "m \<le> n" "grows N p s lv s1 lv1" "translates p s1 V m k" "keeps_outside p s s1 V m"
      "run = map_region_loop s1 (page_ptr p) (vaddr (V + m)) (page_ptr (k + m)) sz (mapped + 4096 * m) f"
      "m = (if large then 512 else 1)" "spends c s s1" "leafy s lv \<longrightarrow> leafy s1 lv1" "large \<or> warm s1 p (vaddr V)"
  | s1 lv1 where "extends N p s lv s1 lv1" "run = Inr (False, s1)" "spends c s s1"
      "large \<and> \<not> leafy s lv \<or> (\<exists>j\<in>{0..<n}. view s 4 p (vaddr (V + j)) \<noteq> None) \<or> free_set s1 = {}"
proof -
  have kok: "page_ok k" using b by (simp add: page_ok_def)
  have V: "0 \<le> V" "V < 2 ^ 52" using b by simp_all
  have va: "vaddr V \<noteq> 0" "4096 dvd uint (vaddr V)" using uint_vaddr [OF V] b(1) by auto
  note loop = run_def map_region_loop.simps [of s "page_ptr p" "vaddr V"] is_aligned_nums vaddr_2MB [OF V] page_ptr_2MB [OF kok]
  show ?thesis
  proof (cases large)
    case True
    with map_2MB_page_spec [OF ok pt f kok _ va(1)] vaddr_2MB [OF V]
    consider s1 lv1 where "map_2MB_page s (page_ptr p) (vaddr V) (page_ptr k) f = Inr (True, s1)"
        "grows N p s lv s1 lv1" "maps p s s1 (vaddr V) 2 (U64 (k * 4096) OR (f OR PTE_HUGE_PAGE))"
        "spends 2 s s1" "leafy s lv \<longrightarrow> leafy s1 lv1"
      | s1 lv1 where "map_2MB_page s (page_ptr p) (vaddr V) (page_ptr k) f = Inr (False, s1)" "extends N p s lv s1 lv1"
        "spends 2 s s1" "leafy s lv \<longrightarrow> (\<exists>i\<in>{0..<512}. view s 4 p (vaddr V + U64 (4096 * i)) \<noteq> None) \<or> free_set s1 = {}"
      unfolding large_def by blast
    then show ?thesis
    proof cases
      case 1
      note reg = maps_large_region [OF 1(3) huge_pte_facts(3) [OF kok f] V(1)]
      show ?thesis using that(1) [of 512, OF _ _ 1(2) reg] True b(3) sz 1(1,4,5) by (simp add: loop vaddr_add page_ptr_add large_def c_def)
    next
      case 2
      have "\<not> leafy s lv \<or> (\<exists>j\<in>{0..<n}. view s 4 p (vaddr (V + j)) \<noteq> None) \<or> free_set s1 = {}"
        using 2(4) True by (force simp: vaddr_add large_def)
      then show ?thesis using that(2) [OF 2(2) _ _] 2(1,3) True sz by (simp add: loop large_def c_def)
    qed
  next
    case False
    with map_page_spec [OF ok pt f kok va nh]
    consider s1 lv1 where "map_page s (page_ptr p) (vaddr V) (page_ptr k) f = Inr (True, s1)"
        "grows N p s lv s1 lv1" "maps p s s1 (vaddr V) 1 (U64 (k * 4096) OR f)" "spends 3 s s1" "leafy s lv \<longrightarrow> leafy s1 lv1"
      | s1 lv1 where "map_page s (page_ptr p) (vaddr V) (page_ptr k) f = Inr (False, s1)" "extends N p s lv s1 lv1"
        "spends 3 s s1" "view s 4 p (vaddr V) \<noteq> None \<or> free_set s1 = {}"
      unfolding unmapped_def by blast
    moreover have cost: "spends c s s1" if "map_page s (page_ptr p) (vaddr V) (page_ptr k) f = Inr (r, s1)" "spends 3 s s1" for r s1
    proof (cases "warm s p (vaddr V)")
      case True
      from map_page_warm [OF ok pt kok va this that(1)] have "spends 0 s s1" by (intro spends_cong [OF _ spends_refl]) simp
      then show ?thesis using False True by (simp add: c_def)
    qed (use False that in \<open>simp add: c_def\<close>)
    ultimately show ?thesis
    proof cases
      case 1
      have "warm s1 p (vaddr V)" using 1(3) by (intro view_warm) (simp add: maps_def)
      note reg = maps_page_region [OF 1(3) pte_facts(3) [OF kok f] V]
      show ?thesis using that(1) [of 1, OF _ _ 1(2) reg] False b(2) sz 1(1,5) cost [OF 1(1,4)] \<open>warm s1 p (vaddr V)\<close> by (auto simp: loop vaddr_add page_ptr_add large_def)
    next
      case 2
      then have "(\<exists>j\<in>{0..<n}. view s 4 p (vaddr (V + j)) \<noteq> None) \<or> free_set s1 = {}"
        using b(2) by (metis add.right_neutral atLeastLessThan_iff order_refl)
      then show ?thesis using that(2) [OF 2(2)] 2(1) cost [OF 2(1,3)] False b(2) sz by (auto simp: loop large_def)
    qed
  qed
qed

lemma map_region_loop_spec:
  assumes "heap_ok N s" "pt_ok N s lv p" "flags_ok f" "0 < V" "0 \<le> n" "V + n \<le> 2 ^ 52" "0 \<le> k" "k + n \<le> 2 ^ 35"
    and "\<And>j e. j \<in> {0..<n} \<Longrightarrow> view s 4 p (vaddr (V + j)) \<noteq> Some (e, 2)" and "sz - mapped = 4096 * n"
  shows "\<exists>r s'. map_region_loop s (page_ptr p) (vaddr V) (page_ptr k) sz mapped f = Inr (r, s')
           \<and> region_done N p s lv V n k r s'"
  using assms
proof (induction "nat n" arbitrary: s lv V n k mapped rule: less_induct)
  case less
  note P = less.prems
  show ?case
  proof (cases "n = 0")
    case True
    then show ?thesis using P
      by (auto simp: map_region_loop.simps region_done_def translates_def keeps_outside_def grows_def)
  next
    case False
    then have n: "0 < n" using P(5) by simp
    have "view s 4 p (vaddr V) \<noteq> Some (e, 2)" for e using P(9) [of 0 e] n by simp
    from map_region_round [OF P(1-4) n P(6-8) this P(10)] show ?thesis
    proof cases
      case (1 m s1 lv1)
      have b: "V + m + (n - m) \<le> 2 ^ 52" "m + (n - m) \<le> 2 ^ 36" using P(6-8) by simp_all
      have "view s1 4 p (vaddr (V + m + j)) \<noteq> Some (e, 2)" if "j \<in> {0..<n - m}" for j e
        using regions_disjoint(2) [OF _ _ _ b, of j] that 1 P(4) P(9) [of "m + j" e]
        by (auto simp: keeps_outside_def add.assoc)
      then have "\<exists>r s'. map_region_loop s1 (page_ptr p) (vaddr (V + m)) (page_ptr (k + m)) sz (mapped + 4096 * m) f
          = Inr (r, s') \<and> region_done N p s1 lv1 (V + m) (n - m) (k + m) r s'"
        using 1 P by (intro less.hyps) (auto simp: grows_def)
      then show ?thesis using region_done_step [OF 1(3-5)] 1 P(4,6,7,8) by fastforce
    next
      case (2 s1 lv1)
      then show ?thesis using region_stop by blast
    qed
  qed
qed

text \<open>
  What a region costs, with \<open>warm\<close> for a first page whose lowest table exists: a region of whole large pages needs at most
  two new tables for each of them, any other at most three for every page, and at most three for every 2 MB it enters. When nothing was mapped there before, the call fails only for want of pages, provided that no empty table of
  the lowest level is in the way of a large page: a region below 2 MB never takes one, and a \<open>leafy\<close> tree has no such table.
\<close>

definition region_fits :: "memory \<Rightarrow> (int \<rightharpoonup> nat) \<Rightarrow> int \<Rightarrow> bool" where
  "region_fits s lv n \<longleftrightarrow> n < 512 \<or> leafy s lv"

definition region_left :: "int \<Rightarrow> int \<Rightarrow> int \<Rightarrow> bool \<Rightarrow> nat" where
  "region_left V n k w = nat (if 512 dvd V \<and> 512 dvd k \<and> 512 dvd n then n div 256
     else min (3 * n) (3 * ((V + n + 511) div 512 - (V + 511) div 512) + (if 512 dvd V \<or> w then 0 else 3)))"

definition region_cost :: "int \<Rightarrow> int \<Rightarrow> int \<Rightarrow> nat" where
  "region_cost V n k = region_left V n k False"

lemma region_left_le:
  assumes "0 \<le> n"
  shows "int (region_left V n k w) \<le> 3 * n"
    "int (region_left V n k w) \<le> 3 * ((V + n + 511) div 512 - (V + 511) div 512) + (if 512 dvd V \<or> w then 0 else 3)"
proof -
  have st: "(V + 511) div 512 \<le> (V + n + 511) div 512" using assms by (intro zdiv_mono1) simp_all
  have "(V + n + 511) div 512 - (V + 511) div 512 = n div 512 \<and> n div 256 = 2 * (n div 512)" if "512 dvd V" "512 dvd n"
    using that by (auto elim!: dvdE)
  then show "int (region_left V n k w) \<le> 3 * n"
    "int (region_left V n k w) \<le> 3 * ((V + n + 511) div 512 - (V + 511) div 512) + (if 512 dvd V \<or> w then 0 else 3)"
    using st assms by (auto simp: region_left_def)
qed

lemma region_left_mono: "region_left V n k w \<le> region_cost V n k"
  unfolding region_cost_def region_left_def by (intro nat_mono) (auto intro!: min.mono)

lemma div_succ:
  fixes V :: int
  assumes "\<not> 512 dvd V + 1"
  shows "(V + 1) div 512 = V div 512"
proof -
  have "V mod 512 \<noteq> 511"
  proof
    assume "V mod 512 = 511"
    then have "V + 1 = 512 * (V div 512 + 1)" using mult_div_mod_eq [of 512 V] by simp
    then show False using assms by (metis dvd_triv_left)
  qed
  then have "V mod 512 + 1 < 512" using pos_mod_bound [of 512 V] by simp
  then show ?thesis using mult_div_mod_eq [of 512 V] pos_mod_sign [of 512 V]
    by (intro int_div_pos_eq [of _ _ _ "V mod 512 + 1"]) simp_all
qed

lemma region_left_step:
  fixes V n k :: int
  assumes "0 < n"
  defines "large \<equiv> 512 dvd V \<and> 512 dvd k \<and> 512 \<le> n"
  defines "m \<equiv> if large then 512 else 1"
  assumes w: "large \<or> 512 dvd V + m \<or> w'"
  shows "(if large then 2 else if w then 0 else 3) + region_left (V + m) (n - m) (k + m) w' \<le> region_left V n k w"
proof (cases large)
  case True
  then have l: "512 dvd V" "512 dvd k" "512 \<le> n" "m = 512" by (simp_all add: large_def m_def)
  show ?thesis
  proof (cases "512 dvd n")
    case True
    then obtain j where "n = 512 * j" by (auto elim: dvdE)
    then show ?thesis using \<open>large\<close> l by (auto simp: region_left_def)
  next
    case False
    define r S where "r = int (region_left (V + 512) (n - 512) (k + 512) w')" and "S = (V + n + 511) div 512 - (V + 511) div 512"
    have "(V + 512 + 511) div 512 = (V + 511) div 512 + 1" by (simp add: add.commute [of _ 511])
    then have "r \<le> 3 * (n - 512)" "r \<le> 3 * (S - 1)"
      using region_left_le [of "n - 512" "V + 512" "k + 512" w'] l(1,3) by (simp_all add: r_def S_def)
    then have "int (2 + region_left (V + 512) (n - 512) (k + 512) w') \<le> min (3 * n) (3 * S)" by (simp add: r_def)
    then have "2 + region_left (V + 512) (n - 512) (k + 512) w' \<le> nat (min (3 * n) (3 * S))" using nat_mono by fastforce
    moreover have "region_left V n k w = nat (min (3 * n) (3 * S))" using False l(1) by (simp add: region_left_def S_def)
    ultimately show ?thesis using \<open>large\<close> l(4) by simp
  qed
next
  case False
  then have m: "m = 1" by (simp add: m_def)
  have "\<not> (512 dvd V \<and> 512 dvd k \<and> 512 dvd n)" using False assms(1) zdvd_imp_le [of 512 n] by (auto simp: large_def)
  then have old: "region_left V n k w
      = nat (min (3 * n) (3 * ((V + n + 511) div 512 - (V + 511) div 512) + (if 512 dvd V \<or> w then 0 else 3)))"
    by (simp only: region_left_def if_False)
  have new: "int (region_left (V + 1) (n - 1) (k + 1) w') \<le> 3 * (n - 1)"
      "int (region_left (V + 1) (n - 1) (k + 1) w') \<le> 3 * ((V + n + 511) div 512 - (V + 512) div 512)"
    using region_left_le [of "n - 1" "V + 1" "k + 1" w'] assms(1) w False m by (simp_all add: algebra_simps)
  define R T U where "R = int (region_left (V + 1) (n - 1) (k + 1) w')" and "T = (V + n + 511) div 512" and "U = (V + 511) div 512"
  have "(V + 512) div 512 = U + (if 512 dvd V then 1 else 0)"
    using div_succ [of "V + 511"] by (auto simp: U_def dvd_add_left_iff elim!: dvdE)
  then have R: "R \<le> 3 * (n - 1)" "R \<le> 3 * (T - U) - (if 512 dvd V then 3 else 0)" 
    using new unfolding R_def [symmetric] T_def [symmetric] by (cases "512 dvd V"; simp)+
  have "(if w then 0 else 3) + R \<le> 3 * n" using R(1) by simp
  moreover have "(if w then 0 else 3) + R \<le> 3 * (T - U) + (if 512 dvd V \<or> w then 0 else 3)" using R(2) by (cases "512 dvd V") simp_all
  ultimately have "nat ((if w then 0 else 3) + R) \<le> region_left V n k w" unfolding old T_def [symmetric] U_def [symmetric] by (intro nat_mono) simp
  moreover have "nat ((if w then 0 else 3) + R) = (if w then 0 else 3) + region_left (V + 1) (n - 1) (k + 1) w'"
    by (simp add: R_def nat_add_distrib)
  ultimately show ?thesis using m False by simp
qed

lemma warm_next:
  assumes "0 < V" "V + 1 \<le> 2 ^ 52" "warm s p (vaddr V)" "\<not> 512 dvd V + 1"
  shows "warm s p (vaddr (V + 1))"
proof (rule warm_slot [OF assms(3)])
  have "V + 1 \<noteq> 2 ^ 52" using assms(4) by auto
  then have b: "0 \<le> V" "V < 2 ^ 52" "0 \<le> V + 1" "V + 1 < 2 ^ 52" using assms(1,2) by linarith+
  note div_succ [OF assms(4)]
  then show "vslot 2 (vaddr V) = vslot 2 (vaddr (V + 1))" unfolding vslot_vaddr(2) [OF b(1,2)] vslot_vaddr(2) [OF b(3,4)] by metis
qed

lemma map_region_loop_cost:
  assumes "heap_ok N s" "pt_ok N s lv p" "flags_ok f" "0 < V" "0 \<le> n" "V + n \<le> 2 ^ 52" "0 \<le> k" "k + n \<le> 2 ^ 35"
    and "\<And>j. j \<in> {0..<n} \<Longrightarrow> view s 4 p (vaddr (V + j)) = None" and "sz - mapped = 4096 * n" and "region_fits s lv n"
  shows "\<exists>r s' lv'. map_region_loop s (page_ptr p) (vaddr V) (page_ptr k) sz mapped f = Inr (r, s') \<and> grows N p s lv s' lv'
           \<and> spends (region_left V n k (warm s p (vaddr V))) s s' \<and> (r \<or> free_set s' = {}) \<and> (r \<and> leafy s lv \<longrightarrow> leafy s' lv')"
  using assms
proof (induction "nat n" arbitrary: s lv V n k mapped rule: less_induct)
  case less
  note P = less.prems
  show ?case
  proof (cases "n = 0")
    case True
    moreover have "grows N p s lv s lv" using P(1,2) by (simp add: grows_def)
    ultimately show ?thesis using P(10)
      by (intro exI [of _ True] exI [of _ s] exI [of _ lv]) (simp add: map_region_loop.simps)
  next
    case False
    then have n: "0 < n" using P(5) by simp
    have v: "view s 4 p (vaddr V) = None" using P(9) [of 0] n by simp
    then have "view s 4 p (vaddr V) \<noteq> Some (e, 2)" for e by simp
    from map_region_round [OF P(1-4) n P(6-8) this P(10)] show ?thesis
    proof cases
      case (1 m s1 lv1)
      have b: "V + m + (n - m) \<le> 2 ^ 52" "m + (n - m) \<le> 2 ^ 36" using P(6-8) by simp_all
      have "view s1 4 p (vaddr (V + m + j)) = None" if "j \<in> {0..<n - m}" for j
        using regions_disjoint(2) [OF _ _ _ b, of j] that 1(1,2,5) P(4) P(9) [of "m + j"]
        by (auto simp: keeps_outside_def add.assoc)
      moreover have w: "(512 dvd V \<and> 512 dvd k \<and> 512 \<le> n) \<or> 512 dvd V + m \<or> warm s1 p (vaddr (V + m))"
        using 1(7,10) warm_next [OF P(4), of s1 p] P(6) n by (cases "512 dvd V + 1") (auto split: if_splits)
      moreover have "region_fits s1 lv1 (n - m)" using P(11) 1(1,9) by (auto simp: region_fits_def)
      ultimately have "\<exists>r s' lv'. map_region_loop s1 (page_ptr p) (vaddr (V + m)) (page_ptr (k + m)) sz (mapped + 4096 * m) f
          = Inr (r, s') \<and> grows N p s1 lv1 s' lv' \<and> spends (region_left (V + m) (n - m) (k + m) (warm s1 p (vaddr (V + m)))) s1 s'
            \<and> (r \<or> free_set s' = {}) \<and> (r \<and> leafy s1 lv1 \<longrightarrow> leafy s' lv')"
        using 1(1-3) P(3-8,10) by (intro less.hyps [OF _ _ _ P(3)]) (simp_all add: grows_def)
      then obtain r s' lv' where "map_region_loop s1 (page_ptr p) (vaddr (V + m)) (page_ptr (k + m)) sz (mapped + 4096 * m) f = Inr (r, s')"
        "grows N p s1 lv1 s' lv'" "spends (region_left (V + m) (n - m) (k + m) (warm s1 p (vaddr (V + m)))) s1 s'" "r \<or> free_set s' = {}"
        "r \<and> leafy s1 lv1 \<longrightarrow> leafy s' lv'" by blast
      moreover note grows_trans [OF 1(3) calculation(2)]
        and spends_trans [OF 1(8) calculation(3) region_left_step [OF n, of V k, folded 1(7), OF w]]
      ultimately show ?thesis unfolding 1(6) using 1(9) by blast
    next
      case (2 s1 lv1)
      have "(if 512 dvd V \<and> 512 dvd k \<and> 512 \<le> n then 2 else if warm s p (vaddr V) then 0 else 3)
          \<le> region_left V n k (warm s p (vaddr V))"
        by (rule add_leD1 [OF region_left_step [OF n, of V k True]]) simp
      then have c: "spends (region_left V n k (warm s p (vaddr V))) s s1" by (rule spends_mono [OF 2(3)])
      have "\<not> (512 \<le> n \<and> \<not> leafy s lv)" using P(11) unfolding region_fits_def by linarith
      moreover have "\<not> (\<exists>j\<in>{0..<n}. view s 4 p (vaddr (V + j)) \<noteq> None)" using P(9) by simp
      ultimately have "free_set s1 = {}" using 2(4) by argo
      moreover have "grows N p s lv s1 lv1" using 2(1) by (simp add: extends_def)
      ultimately show ?thesis using 2(2) c by blast
    qed
  qed
qed

section \<open>A new tree\<close>

lemma pt_ok_single:
  assumes ok: "heap_ok N s" and x: "allocated N s0 1 x s" and zero: "\<And>i. 0 \<le> i \<Longrightarrow> i < 512 \<Longrightarrow> entry s x i = 0"
  shows "pt_ok N s [x \<mapsto> 4] x" "view s 4 x va = None"
proof -
  have "x \<notin> free_set s" "0 \<le> x" "x < N" using x by (auto simp: allocated_def)
  moreover have "child s l x i = None" if "0 \<le> i" "i < 512" for l i using zero that by (simp add: child_def)
  ultimately show "pt_ok N s [x \<mapsto> 4] x"
    using zero pte_page_zero by (auto simp: pt_ok_def split: if_splits)
qed (rule view_empty_table [OF zero])

lemma sample_quads:
  assumes "free_set s = {0..<48}"
  shows "10 < card (free_quads s)"
proof -
  have "(48 :: int) - 0 \<le> 4 * int (card (quads (free_set s) \<inter> {0..<48})) + 6" by (rule quads_interval) (simp_all add: assms)
  moreover have "quads (free_set s) \<inter> {0..<48} = free_quads s" using quads_subset [of "free_set s"] by (auto simp: free_quads_eq assms)
  ultimately show ?thesis by simp
qed

lemma sample_tree:
  "\<exists>s x. heap_ok 64 s \<and> pt_ok 64 s [x \<mapsto> 4] x \<and> (\<forall>va. view s 4 x va = None) \<and> 10 \<le> card (free_quads s)"
proof -
  obtain s0 where s0: "heap_ok 64 s0" "free_set s0 = {0..<48}" using sample_release [of 48] by auto
  then obtain x s where x: "page_ok x" "allocated 64 s0 1 x s" "\<forall>k\<in>{0..<512}. mem s (page_ptr x + U64 (8 * k)) = 0"
    using zeroed_pages_one [OF s0(1)] by auto
  then have ok: "heap_ok 64 s" by (simp add: allocated_def)
  have zero: "\<And>i. 0 \<le> i \<Longrightarrow> i < 512 \<Longrightarrow> entry s x i = 0" using x(3) by (simp add: entry_def)
  have "10 < card (free_quads s0)" by (rule sample_quads [OF s0(2)])
  moreover have "spends 1 s0 s" using allocated_quads [OF s0(1) x(2)] by simp
  ultimately have "10 \<le> card (free_quads s)" by (simp add: spends_def)
  then show ?thesis using ok pt_ok_single [OF ok x(2) zero] by blast
qed

lemma grows_translate:
  assumes "grows N p s lv s' lv'" "pt_ok N s lv p" "4096 dvd uint va" "view s' 4 p va = view s 4 p va"
  shows "translate s' (page_ptr p) va = translate s (page_ptr p) va"
proof -
  have "N \<le> 2 ^ 35" "pt_ok N s' lv' p" using assms(1) heap_ok_bound by (auto simp: grows_def)
  then show ?thesis using assms translate_view [of N s lv p va] translate_view [of N s' lv' p va] by auto
qed

text \<open>A small tree: table 1 of level 4, 2 of level 3, 3 of level 2, whose entry 2 maps the large page 512.\<close>

definition large_tree :: memory where
  "large_tree =
     store (store (store sample_heap (page_ptr 1 + U64 (8 * 0)) (U64 (2 * 4096) OR PTE_KERNEL))
       (page_ptr 2 + U64 (8 * 0)) (U64 (3 * 4096) OR PTE_KERNEL))
       (page_ptr 3 + U64 (8 * 2)) (U64 (512 * 4096) OR (PTE_KERNEL OR PTE_HUGE_PAGE))"

lemma large_tree_entry:
  assumes "page_ok t" "0 \<le> i" "i < 512"
  shows "entry large_tree t i =
     (if t = 3 \<and> i = 2 then U64 (512 * 4096) OR (PTE_KERNEL OR PTE_HUGE_PAGE)
      else if t = 2 \<and> i = 0 then U64 (3 * 4096) OR PTE_KERNEL
      else if t = 1 \<and> i = 0 then U64 (2 * 4096) OR PTE_KERNEL else 0)"
proof -
  have ok: "page_ok 1" "page_ok 2" "page_ok 3" by (simp_all add: page_ok_def)
  have z: "entry sample_heap t i = 0" by (simp add: entry_def sample_heap_def)
  have st: "entry (store s (page_ptr x + U64 (8 * n)) e) t i = (if t = x \<and> i = n then e else entry s t i)"
    if "page_ok x" "0 \<le> n" "n < 512" for s x n e
    using that assms by (intro entry_store)
  show ?thesis unfolding large_tree_def using ok by (simp only: st z)
qed

lemma large_tree_ok: "heap_ok 64 large_tree"
proof -
  have "large_tree = sample_heap\<lparr>mem := mem large_tree\<rparr>" by (simp add: large_tree_def store_def)
  moreover have "heap_ok 64 (sample_heap\<lparr>mem := mem large_tree\<rparr>)"
    by (rule heap_ok_mem [OF sample_heap_ok(1)]) (simp add: sample_heap_ok)
  ultimately show ?thesis by simp
qed

lemma large_tree_entries:
  obtains a b c where "\<And>t i. page_ok t \<Longrightarrow> 0 \<le> i \<Longrightarrow> i < 512 \<Longrightarrow> entry large_tree t i =
      (if t = 3 \<and> i = 2 then c else if t = 2 \<and> i = 0 then b else if t = 1 \<and> i = 0 then a else 0)"
    "a \<noteq> 0" "pte_page a = 2" "b \<noteq> 0" "pte_page b = 3" "c \<noteq> 0" "pte_page c = 512" "huge c"
proof -
  have ok: "page_ok 2" "page_ok 3" "page_ok 512" by (simp_all add: page_ok_def)
  note P = pte_facts [OF ok(1) kernel_flags_ok(1)] pte_facts [OF ok(2) kernel_flags_ok(1)]
    huge_pte_facts [OF ok(3) kernel_flags_ok(1)]
  show ?thesis by (rule that [OF large_tree_entry P(1,3,4,6,7,9,8)])
qed

lemma large_tree_pt: "pt_ok 64 large_tree [1 \<mapsto> 4, 2 \<mapsto> 3, 3 \<mapsto> 2] 1"
proof -
  obtain a b c where E: "\<And>t i. page_ok t \<Longrightarrow> 0 \<le> i \<Longrightarrow> i < 512 \<Longrightarrow> entry large_tree t i =
      (if t = 3 \<and> i = 2 then c else if t = 2 \<and> i = 0 then b else if t = 1 \<and> i = 0 then a else 0)"
    and P: "a \<noteq> 0" "pte_page a = 2" "b \<noteq> 0" "pte_page b = 3" "c \<noteq> 0" "pte_page c = 512" "huge c"
    by (rule large_tree_entries) blast
  have ok: "page_ok 1" "page_ok 2" "page_ok 3" "page_ok 512" by (simp_all add: page_ok_def)
  have ent: "entry large_tree t i =
      (if t = 3 \<and> i = 2 then c else if t = 2 \<and> i = 0 then b else if t = 1 \<and> i = 0 then a else 0)"
    if "t \<in> {1, 2, 3}" "0 \<le> i" "i < 512" for t i using E that ok by blast
  have fr: "free_set large_tree = {}"
    using sample_heap_ok(2) by (simp add: large_tree_def store_def free_set_def)
  have ch: "child large_tree l t i = (if t = 1 \<and> i = 0 then Some 2 else if t = 2 \<and> i = 0 then Some 3 else None)"
    if "[1 \<mapsto> 4, 2 \<mapsto> 3, 3 \<mapsto> 2] t = Some l" "0 \<le> i" "i < 512" for t l i
  proof -
    have "t = 1 \<and> l = 4 \<or> t = 2 \<and> l = 3 \<or> t = 3 \<and> l = 2" using that(1) by (auto split: if_splits)
    then consider "t = 1" "l = 4" | "t = 2" "l = 3" | "t = 3" "l = 2" by blast
    then show ?thesis by cases (simp_all add: child_def ent that(2,3) P)
  qed
  show ?thesis unfolding pt_ok_def
  proof (intro conjI allI impI)
    fix t i :: int assume t: "t \<in> dom [1 \<mapsto> 4 :: nat, 2 \<mapsto> 3, 3 \<mapsto> 2]" "0 \<le> i" "i < 512"
    then have "t \<in> {1, 2, 3}" by (auto split: if_splits)
    then show "page_ok (pte_page (entry large_tree t i))" using ent [OF _ t(2,3)] P ok pte_page_zero by auto
  next
    fix t l i c assume "[1 \<mapsto> 4, 2 \<mapsto> 3, 3 \<mapsto> 2] t = Some l" "0 \<le> i" "i < 512" "child large_tree l t i = Some c"
    then show "[1 \<mapsto> 4, 2 \<mapsto> 3, 3 \<mapsto> 2] c = Some (l - 1)" using ch by (auto split: if_splits)
  next
    fix t l i u m j c assume "[1 \<mapsto> 4, 2 \<mapsto> 3, 3 \<mapsto> 2] t = Some l" "[1 \<mapsto> 4, 2 \<mapsto> 3, 3 \<mapsto> 2] u = Some m"
      "0 \<le> i" "i < 512" "0 \<le> j" "j < 512" "child large_tree l t i = Some c" "child large_tree m u j = Some c"
    then show "t = u" "i = j" using ch [of t l i] ch [of u m j] by (auto split: if_splits)
  qed (use fr in \<open>auto simp: ran_def split: if_splits\<close>)
qed

section \<open>Correctness of the page tables\<close>

text \<open>
  C12. Mapping a page that no large page covers: on success the address translates to the given
  page and every other page-aligned address translates as before; the only reasons to fail are
  that the address is mapped already or that no page is left for a table, and then every
  page-aligned address translates as before. In both cases the heap and the tree of tables
  stay well-formed, and no page that is neither free nor a table is written.
\<close>

theorem map_page_correct:
  assumes "heap_ok N s" "pt_ok N s lv p" "flags_ok f" "page_ok k" "va \<noteq> 0" "4096 dvd uint va"
    and "\<forall>e. view s 4 p va \<noteq> Some (e, 2)"
  shows "\<exists>r s' lv'. map_page s (page_ptr p) va (page_ptr k) f = Inr (r, s') \<and> grows N p s lv s' lv'
           \<and> (r \<longrightarrow> translate s' (page_ptr p) va = Inr (page_ptr k))
           \<and> (\<not> r \<longrightarrow> view s 4 p va \<noteq> None \<or> free_set s' = {})
           \<and> (\<forall>va'. 4096 dvd uint va' \<longrightarrow> r \<longrightarrow> vslot 1 va' \<noteq> vslot 1 va \<longrightarrow>
                translate s' (page_ptr p) va' = translate s (page_ptr p) va')
           \<and> (\<forall>va'. 4096 dvd uint va' \<longrightarrow> \<not> r \<longrightarrow> translate s' (page_ptr p) va' = translate s (page_ptr p) va')"
proof -
  have N: "N \<le> 2 ^ 35" by (rule heap_ok_bound [OF assms(1)])
  have nh: "view s 4 p va \<noteq> Some (e, 2)" for e using assms(7) by blast
  consider s' lv' where "map_page s (page_ptr p) va (page_ptr k) f = Inr (True, s')" "grows N p s lv s' lv'"
      "maps p s s' va 1 (U64 (k * 4096) OR f)"
    | s' lv' where "map_page s (page_ptr p) va (page_ptr k) f = Inr (False, s')" "extends N p s lv s' lv'"
      "view s 4 p va \<noteq> None \<or> free_set s' = {}"
    using map_page_spec [OF assms(1-6) nh] unfolding unmapped_def by blast
  then show ?thesis
  proof cases
    case 1
    have v: "view s' 4 p va = Some (U64 (k * 4096) OR f, 1)" using 1(3) by (simp add: maps_def)
    moreover have "pt_ok N s' lv' p" using 1(2) by (simp add: grows_def)
    ultimately have "translate s' (page_ptr p) va = Inr (page_ptr k)"
      using translate_view [of N s' lv' p va] N assms(6) pte_facts(3) [OF assms(4,3)]
      by (auto simp: target_def elim!: dvdE)
    moreover have "translate s' (page_ptr p) va' = translate s (page_ptr p) va'"
      if "4096 dvd uint va'" "vslot 1 va' \<noteq> vslot 1 va" for va'
      using grows_translate [OF 1(2) assms(2) that(1)] 1(3) that(2) by (simp add: maps_def)
    ultimately show ?thesis using 1(1,2) by (intro exI [of _ True] exI [of _ s'] exI [of _ lv']) simp
  next
    case 2
    have "grows N p s lv s' lv'" "\<And>va. view s' 4 p va = view s 4 p va" using 2(2) by (auto simp: extends_def)
    then show ?thesis using 2 grows_translate [of N p s lv s' lv'] assms(2)
      by (intro exI [of _ False] exI [of _ s'] exI [of _ lv']) simp
  qed
qed

theorem map_page_correct_witness:
  "\<exists>s x r s'. map_page s (page_ptr x) 0x400000 (page_ptr 9) PTE_KERNEL = Inr (r, s')
     \<and> (r \<longrightarrow> translate s' (page_ptr x) 0x400000 = Inr (page_ptr 9)) \<and> (\<not> r \<longrightarrow> free_set s' = {})"
proof -
  obtain s x where s: "heap_ok 64 s" "pt_ok 64 s [x \<mapsto> 4] x" "\<forall>va. view s 4 x va = None" using sample_tree by blast
  have "page_ok 9" "(0x400000 :: u64) \<noteq> 0" "4096 dvd uint (0x400000 :: u64)" by (simp_all add: page_ok_def)
  from map_page_correct [OF s(1,2) kernel_flags_ok(1) this] s(3) show ?thesis by fastforce
qed

lemma map_region_run:
  assumes "heap_ok N s" "pt_ok N s lv p" "0 < V" "0 < n" "V + n \<le> 2 ^ 52" "0 \<le> k" "k + n \<le> 2 ^ 35"
  shows "map_region s (page_ptr p) (vaddr V) (page_ptr k) n f = map_region_loop s (page_ptr p) (vaddr V) (page_ptr k) (n * 4096) 0 f"
proof -
  have N: "N \<le> 2 ^ 35" by (rule heap_ok_bound [OF assms(1)])
  have n: "page_ok k" "0 \<le> V" "V < 2 ^ 52" using assms(3-7) by (simp_all add: page_ok_def)
  have "ok_ptr (vaddr V) 4096 = Inr True"
    using uint_vaddr [OF n(2,3)] assms(3) by (auto simp: ok_ptr_def is_aligned_nums)
  moreover have "s64_chk (n * 4096) = Inr (n * 4096)" using assms(4-7) by (simp add: s64_ok_def)
  ultimately show ?thesis
    using page_ptr_aligned [OF table_page_ok [OF assms(2) N pt_okD(1) [OF assms(2)]]] page_ptr_aligned [OF n(1)]
    by (simp add: map_region_def)
qed

lemma map_region_spec:
  assumes "heap_ok N s" "pt_ok N s lv p" "flags_ok f" "0 < V" "0 < n" "V + n \<le> 2 ^ 52" "0 \<le> k" "k + n \<le> 2 ^ 35"
    and "\<forall>j\<in>{0..<n}. \<forall>e. view s 4 p (vaddr (V + j)) \<noteq> Some (e, 2)"
  shows "\<exists>r s' lv'. map_region s (page_ptr p) (vaddr V) (page_ptr k) n f = Inr (r, s') \<and> grows N p s lv s' lv'
           \<and> keeps_outside p s s' V n \<and> (r \<longrightarrow> translates p s' V n k)"
proof -
  have "0 \<le> n" using assms(5) by simp
  then obtain r s' where "map_region_loop s (page_ptr p) (vaddr V) (page_ptr k) (n * 4096) 0 f = Inr (r, s')"
    "region_done N p s lv V n k r s'"
    using map_region_loop_spec [OF assms(1-4) _ assms(6-8)] assms(9) by (metis diff_zero mult.commute)
  then show ?thesis using map_region_run [OF assms(1,2,4-8), of f] by (auto simp: region_done_def)
qed

lemma map_region_cost:
  assumes "heap_ok N s" "pt_ok N s lv p" "flags_ok f" "0 < V" "0 < n" "V + n \<le> 2 ^ 52" "0 \<le> k" "k + n \<le> 2 ^ 35"
    and "\<forall>j\<in>{0..<n}. view s 4 p (vaddr (V + j)) = None" "region_fits s lv n"
    and "map_region s (page_ptr p) (vaddr V) (page_ptr k) n f = Inr (r, s')"
  shows "\<exists>lv'. grows N p s lv s' lv' \<and> spends (region_cost V n k) s s' \<and> (r \<or> free_set s' = {}) \<and> (r \<and> leafy s lv \<longrightarrow> leafy s' lv')"
proof -
  have n: "0 \<le> n" "n * 4096 - 0 = 4096 * n" using assms(5) by simp_all
  show ?thesis using map_region_loop_cost [OF assms(1-4) n(1) assms(6-8) _ n(2) assms(10)] assms(9,11)
      map_region_run [OF assms(1,2,4-8), of f] spends_mono [OF _ region_left_mono] by (metis Inr_inject Pair_inject)
qed

text \<open>
  C13. Mapping a region of \<open>n\<close> pages none of which lies under a large page: on success the
  \<open>j\<close>-th page of the region translates to the \<open>j\<close>-th page from the start of the target, however
  the region is cut into small and large pages; success or not, addresses outside the region
  translate as before and the heap and the tree stay well-formed. When nothing was mapped there before, and the
  region is below 2 MB or no table of the lowest level is empty, the only reason to fail is that no page is left for a table,
  and the call succeeds whenever more than \<open>region_cost\<close> aligned groups of four free pages exist: two for each large page
  of an aligned region, otherwise at most three for every 2 MB it enters.
\<close>

theorem map_region_correct:
  assumes "heap_ok N s" "pt_ok N s lv p" "flags_ok f" "0 < V" "0 < n" "V + n \<le> 2 ^ 52" "0 \<le> k" "k + n \<le> 2 ^ 35"
    and "\<forall>j\<in>{0..<n}. \<forall>e. view s 4 p (vaddr (V + j)) \<noteq> Some (e, 2)"
  shows "\<exists>r s' lv'. map_region s (page_ptr p) (vaddr V) (page_ptr k) n f = Inr (r, s') \<and> grows N p s lv s' lv'
           \<and> (r \<longrightarrow> (\<forall>j\<in>{0..<n}. translate s' (page_ptr p) (vaddr (V + j)) = Inr (page_ptr (k + j))))
           \<and> (\<forall>va. 4096 dvd uint va \<longrightarrow> \<not> in_region V n va \<longrightarrow>
                translate s' (page_ptr p) va = translate s (page_ptr p) va)
           \<and> ((\<forall>j\<in>{0..<n}. view s 4 p (vaddr (V + j)) = None) \<longrightarrow> region_fits s lv n \<longrightarrow>
                (r \<or> free_set s' = {}) \<and> (region_cost V n k < card (free_quads s) \<longrightarrow> r))"
proof -
  have N: "N \<le> 2 ^ 35" by (rule heap_ok_bound [OF assms(1)])
  obtain r s' lv' where g: "map_region s (page_ptr p) (vaddr V) (page_ptr k) n f = Inr (r, s')"
      "grows N p s lv s' lv'" "keeps_outside p s s' V n" "r \<longrightarrow> translates p s' V n k"
    using map_region_spec [OF assms] by blast
  have pt': "pt_ok N s' lv' p" using g(2) by (simp add: grows_def)
  have "translate s' (page_ptr p) (vaddr (V + j)) = Inr (page_ptr (k + j))" if r "j \<in> {0..<n}" for j
    using translate_view [OF pt' N, of "vaddr (V + j)"] g(4) that by (auto simp: translates_def)
  moreover have "translate s' (page_ptr p) va = translate s (page_ptr p) va"
    if "4096 dvd uint va" "\<not> in_region V n va" for va
    using grows_translate [OF g(2) assms(2) that(1)] g(3) that(2) by (simp add: keeps_outside_def)
  moreover have "(r \<or> free_set s' = {}) \<and> (region_cost V n k < card (free_quads s) \<longrightarrow> r)"
    if "\<forall>j\<in>{0..<n}. view s 4 p (vaddr (V + j)) = None" "region_fits s lv n"
    using map_region_cost [OF assms(1-8) that g(1)] spends_all [of "region_cost V n k" s s'] by auto
  ultimately show ?thesis using g(1,2) by (intro exI [of _ r] exI [of _ s'] exI [of _ lv']) simp
qed

theorem map_region_correct_witness:
  "\<exists>s x s'. map_region s (page_ptr x) (vaddr 0x400) (page_ptr 0x600) 600 PTE_KERNEL = Inr (True, s')
     \<and> (\<forall>j\<in>{0..<600}. translate s' (page_ptr x) (vaddr (0x400 + j)) = Inr (page_ptr (0x600 + j)))"
proof -
  obtain s x where s: "heap_ok 64 s" "pt_ok 64 s [x \<mapsto> 4] x" "\<forall>va. view s 4 x va = None" "10 \<le> card (free_quads s)"
    using sample_tree by blast
  then have nh: "\<forall>j\<in>{0..<600}. \<forall>e. view s 4 x (vaddr (0x400 + j)) \<noteq> Some (e, 2)"
    and v: "\<forall>j\<in>{0..<600}. view s 4 x (vaddr (0x400 + j)) = None" by simp_all
  have c: "region_cost 0x400 600 0x600 < card (free_quads s)" "region_fits s [x \<mapsto> 4] 600"
    using s(4) by (simp_all add: region_cost_def region_left_def region_fits_def leafy_def)
  have b: "0 < (0x400 :: int)" "0 < (600 :: int)" "0x400 + 600 \<le> (2 :: int) ^ 52" "0 \<le> (0x600 :: int)" "0x600 + 600 \<le> (2 :: int) ^ 35"
    by simp_all
  obtain r s' where "map_region s (page_ptr x) (vaddr 0x400) (page_ptr 0x600) 600 PTE_KERNEL = Inr (r, s')"
    "\<forall>j\<in>{0..<600}. translate s' (page_ptr x) (vaddr (0x400 + j)) = Inr (page_ptr (0x600 + j))" "r = True"
    using map_region_correct [OF s(1,2) kernel_flags_ok(1) b nh] v c by blast
  then show ?thesis by (intro exI conjI) simp_all
qed

text \<open>
  C24. \<^verbatim>\<open>map_page\<close> does not look for the flag of a large page: where a large page covers
  the address, it takes the mapped page for a table. If the word of data at that place is zero,
  it overwrites the word with an entry, reports success, and the translation is not the one asked for.
\<close>

theorem map_page_overwrites_large_page:
  assumes "heap_ok N s" "pt_ok N s lv p" "page_ok k" "va \<noteq> 0" "4096 dvd uint va"
    and "view s 4 p va = Some (e, 2)" "mem s (page_ptr (pte_page e) + U64 (8 * idx 1 va)) = 0"
  shows "map_page s (page_ptr p) va (page_ptr k) f =
           Inr (True, store s (page_ptr (pte_page e) + U64 (8 * idx 1 va)) (U64 (k * 4096) OR f))"
proof -
  have "entry s p (idx 4 va) \<noteq> 0" "entry s (pte_page (entry s p (idx 4 va))) (idx 3 va) \<noteq> 0"
      "entry s (pte_page (entry s (pte_page (entry s p (idx 4 va))) (idx 3 va))) (idx 2 va) = e" "e \<noteq> 0"
    using assms(6) by (auto simp: numeral_eq_Suc Let_def split: if_splits)
  then show ?thesis using map_page_present [OF assms(1-5), of f] assms(7) by (simp add: entry_def)
qed

theorem map_page_overwrites_large_page_witness:
  "\<exists>s'. map_page large_tree (page_ptr 1) 0x400000 (page_ptr 9) PTE_KERNEL = Inr (True, s')
     \<and> mem large_tree (page_ptr 512) = 0 \<and> mem s' (page_ptr 512) = U64 (9 * 4096) OR PTE_KERNEL"
proof -
  note F = kernel_flags_ok(1)
  have ok: "page_ok 1" "page_ok 2" "page_ok 3" "page_ok 512" "page_ok 9" by (simp_all add: page_ok_def)
  note P = pte_facts [OF ok(2) F] pte_facts [OF ok(3) F] huge_pte_facts [OF ok(4) F]
  have ix: "idx 4 0x400000 = 0" "idx 3 0x400000 = 0" "idx 2 0x400000 = 2" "idx 1 0x400000 = 0" by (simp_all add: idx_def)
  let ?e = "U64 (512 * 4096) OR (PTE_KERNEL OR PTE_HUGE_PAGE)"
  have v: "view large_tree 4 1 0x400000 = Some (?e, 2)"
    using P ix ok large_tree_entry [of 1 0] large_tree_entry [of 2 0] large_tree_entry [of 3 2]
    by (simp add: numeral_eq_Suc Let_def)
  have z: "mem large_tree (page_ptr (pte_page ?e) + U64 (8 * idx 1 0x400000)) = 0"
    using large_tree_entry [of 512 0] ok P ix by (simp add: entry_def)
  show ?thesis
    using map_page_overwrites_large_page [OF large_tree_ok large_tree_pt ok(5) _ _ v z, of PTE_KERNEL] z P ix by simp
qed

end
