(* ===== verification/Page_Destroy.thy ===== *)
theory Page_Destroy
  imports Page_Map
begin

text \<open>
  Giving page tables back: \<^verbatim>\<open>destroy_table\<close> and \<^verbatim>\<open>destroy_bootboot_table\<close> of
  \<^verbatim>\<open>src/kern/page_tables.c\<close>. Both walk a tree of tables while they hand its pages to the page
  allocator, which writes its list nodes into them; the lemmas show that no table is read after it was
  released, that no table is released twice, and that exactly the tables of the tree become free.
\<close>

section \<open>The tables of a tree\<close>

fun tables :: "memory \<Rightarrow> nat \<Rightarrow> int \<Rightarrow> int set" where
  "tables s 0 t = {}"
| "tables s (Suc l) t =
     insert t (\<Union>i\<in>{0..<512}. case child s (Suc l) t i of None \<Rightarrow> {} | Some c \<Rightarrow> tables s l c)"

definition below :: "memory \<Rightarrow> nat \<Rightarrow> int \<Rightarrow> int \<Rightarrow> int set" where
  "below s l t i = (case child s (Suc l) t i of None \<Rightarrow> {} | Some c \<Rightarrow> tables s l c)"

lemma tables_Suc: "tables s (Suc l) t = insert t (\<Union>i\<in>{0..<512}. below s l t i)"
  by (simp add: below_def)

lemma tables_level:
  assumes pt: "pt_ok N s lv p"
  shows "lv t = Some l \<Longrightarrow> u \<in> tables s l t \<Longrightarrow> \<exists>m. lv u = Some m \<and> m \<le> l"
proof (induction l arbitrary: t)
  case (Suc l)
  show ?case
  proof (cases "u = t")
    case False
    then obtain i c where i: "0 \<le> i" "i < 512" "child s (Suc l) t i = Some c" "u \<in> tables s l c"
      using Suc.prems(2) by (auto split: option.splits)
    then show ?thesis using Suc.IH [of c] pt_okD(4) [OF pt Suc.prems(1) i(1-3)] by auto
  qed (use Suc.prems in simp)
qed simp

lemma below_level:
  assumes pt: "pt_ok N s lv p" and t: "lv t = Some (Suc l)" "0 \<le> i" "i < 512" and u: "u \<in> below s l t i"
  shows "\<exists>m. lv u = Some m \<and> m \<le> l"
  using u pt_okD(4) [OF pt t] tables_level [OF pt, of _ l u] by (auto simp: below_def split: option.splits)

lemma tables_unique:
  assumes pt: "pt_ok N s lv p"
  shows "lv t = Some l \<Longrightarrow> lv t' = Some l \<Longrightarrow> u \<in> tables s l t \<Longrightarrow> u \<in> tables s l t' \<Longrightarrow> t = t'"
proof (induction l arbitrary: t t')
  case (Suc l)
  note low = below_level [OF pt]
  consider "u = t" "u = t'" | i where "u = t \<or> u = t'" "i \<in> {0..<512}" "u \<in> below s l t i \<or> u \<in> below s l t' i"
    | i j where "i \<in> {0..<512}" "j \<in> {0..<512}" "u \<in> below s l t i" "u \<in> below s l t' j"
    using Suc.prems(3,4) unfolding tables_Suc by blast
  then show ?case
  proof cases
    case (2 i)
    then show ?thesis using low [OF Suc.prems(1), of i u] low [OF Suc.prems(2), of i u] Suc.prems(1,2) by auto
  next
    case (3 i j)
    then obtain c d where c: "child s (Suc l) t i = Some c" "u \<in> tables s l c"
      and d: "child s (Suc l) t' j = Some d" "u \<in> tables s l d" by (auto simp: below_def split: option.splits)
    have "lv c = Some l" "lv d = Some l"
      using pt_okD(4) [OF pt Suc.prems(1) _ _ c(1)] pt_okD(4) [OF pt Suc.prems(2) _ _ d(1)] 3 by auto
    then have "c = d" using Suc.IH c(2) d(2) by blast
    then show ?thesis using pt_okD(5) [OF pt Suc.prems(1,2), of i j c] c(1) d(1) 3 by auto
  qed simp
qed simp

lemma below_self:
  assumes pt: "pt_ok N s lv p" and t: "lv t = Some (Suc l)" and i: "i \<in> {0..<512}"
  shows "t \<notin> below s l t i"
  using below_level [OF pt t, of i t] i t by auto

lemma below_disjoint:
  assumes pt: "pt_ok N s lv p" and t: "lv t = Some (Suc l)" and ij: "i \<in> {0..<512}" "j \<in> {0..<512}" "i \<noteq> j"
  shows "below s l t i \<inter> below s l t j = {}"
proof -
  have False if u: "u \<in> below s l t i" "u \<in> below s l t j" for u
  proof -
    obtain c d where c: "child s (Suc l) t i = Some c" "u \<in> tables s l c"
      and d: "child s (Suc l) t j = Some d" "u \<in> tables s l d" using u by (auto simp: below_def split: option.splits)
    have "lv c = Some l" "lv d = Some l"
      using pt_okD(4) [OF pt t _ _ c(1)] pt_okD(4) [OF pt t _ _ d(1)] ij by auto
    then have "c = d" using tables_unique [OF pt] c(2) d(2) by blast
    then show False using pt_okD(5) [OF pt t t, of i j c] c(1) d(1) ij by auto
  qed
  then show "below s l t i \<inter> below s l t j = {}" by blast
qed

lemma tables_rooted:
  assumes pt: "pt_ok N s lv p" and r: "rooted s lv p"
  shows "tables s 4 p = dom lv"
proof -
  have step: "c \<in> tables s l t" if "lv t = Some l" "u \<in> tables s l t" "lv u = Some m" "0 \<le> i" "i < 512" "child s m u i = Some c" for l t u m i c
    using that
  proof (induction l arbitrary: t)
    case (Suc l)
    show ?case
    proof (cases "u = t")
      case True
      then have "child s (Suc l) t i = Some c" "lv c = Some l" using Suc.prems pt_okD(4) [OF pt] by auto
      moreover have "0 < l" using calculation pt_okD(3) [OF pt] by force
      then have "c \<in> tables s l c" by (cases l) auto
      ultimately show ?thesis using Suc.prems(4,5) by (auto intro!: bexI [of _ i])
    next
      case False
      then obtain j d where j: "0 \<le> j" "j < 512" "child s (Suc l) t j = Some d" "u \<in> tables s l d"
        using Suc.prems(2) by (auto split: option.splits)
      then have "c \<in> tables s l d" using Suc.IH [of d] Suc.prems pt_okD(4) [OF pt Suc.prems(1) j(1-3)] by auto
      then show ?thesis using j by (auto intro!: bexI [of _ j])
    qed
  qed simp
  have root: "p \<in> tables s 4 p" by (simp add: numeral_eq_Suc)
  have "t \<in> tables s 4 p" if "lv t = Some l" for t l
    using that
  proof (induction "4 - l" arbitrary: t l rule: less_induct)
    case less
    show ?case
    proof (cases "t = p")
      case False
      then obtain u m i where u: "lv u = Some m" "0 \<le> i" "i < 512" "child s m u i = Some t"
        using r less.prems unfolding rooted_def by blast
      then have "lv t = Some (m - 1)" using pt_okD(4) [OF pt] by blast
      then have m: "m = Suc l" using less.prems pt_okD(3) [OF pt u(1)] by auto
      then have "u \<in> tables s 4 p" using less.hyps [OF _ u(1)] pt_okD(3) [OF pt u(1)] by simp
      then show ?thesis by (rule step [OF pt_okD(1) [OF pt] _ u])
    qed (use root in simp)
  qed
  then show ?thesis using tables_level [OF pt pt_okD(1) [OF pt]] by blast
qed

section \<open>Releasing a tree\<close>

text \<open>The walk that both functions share; \<open>rel\<close> is what they do with a table once everything below it is gone.\<close>

fun destroy_with :: "(memory \<Rightarrow> u64 \<Rightarrow> memory result) \<Rightarrow> nat \<Rightarrow> memory \<Rightarrow> u64 \<Rightarrow> u64 \<Rightarrow> memory result" where
  "destroy_with rel 0 s table e0 = Inr s"
| "destroy_with rel (Suc level) s table e0 =
     (if table = 0 then Inr s else
      if e0 AND PTE_HUGE_PAGE \<noteq> 0 then Inr s else
      bindR (if level > 0
             then destroy_entries (\<lambda>s e. bindR (pte_address e) (\<lambda>p. destroy_with rel level s p e)) s table 512
             else Inr s) (\<lambda>s.
      rel s table))"

lemma destroy_table_inner_eq: "destroy_table_inner l = destroy_with (\<lambda>s table. release_pages s table 1) l"
  by (induction l) (auto simp: fun_eq_iff)

lemma destroy_bb_table_inner_eq:
  "destroy_bb_table_inner l = destroy_with (\<lambda>s table.
     bindR (unsafe_mark_memory_usability s table 1 True) (\<lambda>s. release_pages s table 1)) l"
  by (induction l) (auto simp: fun_eq_iff)

definition kept :: "memory \<Rightarrow> memory \<Rightarrow> bool" where
  "kept q q' \<longleftrightarrow> free_set q \<subseteq> free_set q' \<and> (\<forall>x a. page_ok x \<longrightarrow> x \<notin> free_set q' \<longrightarrow> a \<in> page_addrs x \<longrightarrow> mem q' a = mem q a)"

lemma kept_refl [simp]: "kept q q"
  by (simp add: kept_def)

lemma kept_trans: "kept q r \<Longrightarrow> kept r t \<Longrightarrow> kept q t"
  unfolding kept_def by (metis subsetD subset_trans)

lemma entry_index: "m < 512 \<Longrightarrow> 8 * ucast (of_nat m :: u16) = U64 (8 * int m)"
  by (simp add: unsigned_of_nat take_bit_nat_eq_self)

locale tree_release =
  fixes rel :: "memory \<Rightarrow> u64 \<Rightarrow> memory result"
    and ready :: "memory \<Rightarrow> int \<Rightarrow> bool"
  assumes rel: "heap_ok N s \<Longrightarrow> 0 \<le> t \<Longrightarrow> t < N \<Longrightarrow> t \<notin> free_set s \<Longrightarrow> ready s t \<Longrightarrow>
      \<exists>s'. rel s (page_ptr t) = Inr s' \<and> heap_ok N s' \<and> free_set s' = insert t (free_set s)
         \<and> usable_set s' = insert t (usable_set s) \<and> kept s s'"
    and ready_mono: "ready s t \<Longrightarrow> usable_set s \<subseteq> usable_set s' \<Longrightarrow> ready s' t"
begin

text \<open>\<open>intact s q T\<close>: in state \<open>q\<close> the tables \<open>T\<close> are as they were in \<open>s\<close> and can be released.\<close>

definition intact :: "memory \<Rightarrow> memory \<Rightarrow> int set \<Rightarrow> bool" where
  "intact s q T \<longleftrightarrow> T \<inter> free_set q = {} \<and> (\<forall>u\<in>T. page_ok u \<and> ready q u \<and> (\<forall>a\<in>page_addrs u. mem q a = mem s a))"

definition gone :: "int \<Rightarrow> memory \<Rightarrow> memory \<Rightarrow> int set \<Rightarrow> bool" where
  "gone N q q' T \<longleftrightarrow> heap_ok N q' \<and> free_set q' = free_set q \<union> T \<and> usable_set q' = usable_set q \<union> T \<and> kept q q'"

lemma intact_mono: "intact s q T \<Longrightarrow> T' \<subseteq> T \<Longrightarrow> intact s q T'"
  unfolding intact_def by blast

lemma intact_gone: "intact s q T \<Longrightarrow> gone N q q' U \<Longrightarrow> T \<inter> U = {} \<Longrightarrow> intact s q' T"
  unfolding intact_def gone_def kept_def using ready_mono by (metis Int_Un_distrib Un_upper1 disjoint_iff sup_bot.right_neutral)

lemma gone_trans: "gone N q r T \<Longrightarrow> gone N r t U \<Longrightarrow> gone N q t (T \<union> U)"
  unfolding gone_def using kept_trans by (metis Un_assoc)

lemma intact_entry: "intact s q T \<Longrightarrow> t \<in> T \<Longrightarrow> 0 \<le> i \<Longrightarrow> i < 512 \<Longrightarrow> entry q t i = entry s t i"
  unfolding intact_def entry_def using entry_addr by blast

lemma destroy_entries_spec:
  assumes pt: "pt_ok N s lv p" and t: "lv t = Some (Suc l)"
    and IH: "\<And>q i. heap_ok N q \<Longrightarrow> intact s q (below s l t i) \<Longrightarrow> 0 \<le> i \<Longrightarrow> i < 512 \<Longrightarrow>
      \<exists>q'. inner q (entry s t i) = Inr q' \<and> gone N q q' (below s l t i)"
  shows "n \<le> 512 \<Longrightarrow> heap_ok N q \<Longrightarrow> intact s q (insert t (\<Union>i\<in>{512 - int n..<512}. below s l t i)) \<Longrightarrow>
      \<exists>q'. destroy_entries inner q (page_ptr t) n = Inr q' \<and> gone N q q' (\<Union>i\<in>{512 - int n..<512}. below s l t i)"
proof (induction n arbitrary: q)
  case 0
  then show ?case by (simp add: gone_def)
next
  case (Suc n)
  let ?k = "512 - int (Suc n)" and ?R = "\<Union>i\<in>{512 - int n..<512}. below s l t i"
  have k: "?k \<in> {0..<512}" using Suc.prems(1) by auto
  have split: "{?k..<512} = insert ?k {512 - int n..<512}" by auto
  have "8 * ucast (of_nat (512 - Suc n) :: u16) = U64 (8 * ?k)"
    using entry_index [of "512 - Suc n"] Suc.prems(1) by (simp add: of_nat_diff)
  then have load: "load_entry q (page_ptr t) (of_nat (512 - Suc n)) = entry s t ?k"
    using intact_entry [OF Suc.prems(3), of t ?k] k by (simp add: load_entry_def entry_def)
  obtain r where r: "inner q (entry s t ?k) = Inr r" "gone N q r (below s l t ?k)"
    using IH [OF Suc.prems(2) intact_mono [OF Suc.prems(3)], of ?k] k split by auto
  have "below s l t i \<inter> below s l t ?k = {}" if "i \<in> {512 - int n..<512}" for i
    by (rule below_disjoint [OF pt t]) (use that k in auto)
  then have dis: "insert t ?R \<inter> below s l t ?k = {}" using below_self [OF pt t k] by blast
  have "intact s r (insert t ?R)" using intact_gone [OF intact_mono [OF Suc.prems(3)] r(2) dis] split by auto
  then obtain q' where q': "destroy_entries inner r (page_ptr t) n = Inr q'" "gone N r q' ?R"
    using Suc.IH [of r] Suc.prems(1) r(2) by (auto simp: gone_def)
  have "gone N q q' (\<Union>i\<in>{?k..<512}. below s l t i)" using gone_trans [OF r(2) q'(2)] split by simp
  then show ?case using load r(1) q'(1) by simp
qed

lemma destroy_child:
  assumes pt: "pt_ok N s lv p" and r: "rooted s lv p" and t: "lv t = Some (Suc l)" "0 \<le> i" "i < 512" and l: "0 < l"
    and IH: "\<And>c q e. lv c = Some l \<Longrightarrow> heap_ok N q \<Longrightarrow> intact s q (tables s l c) \<Longrightarrow> \<not> huge e \<Longrightarrow>
      \<exists>q'. destroy_with rel l q (page_ptr c) e = Inr q' \<and> gone N q q' (tables s l c)"
    and q: "heap_ok N q" "intact s q (below s l t i)"
  shows "\<exists>q'. bindR (pte_address (entry s t i)) (\<lambda>p. destroy_with rel l q p (entry s t i)) = Inr q' \<and> gone N q q' (below s l t i)"
proof (cases "child s (Suc l) t i")
  case None
  then have b: "below s l t i = {}" by (simp add: below_def)
  obtain m where m: "l = Suc m" using l by (cases l) auto
  have "entry s t i = 0 \<or> huge (entry s t i)" using None l by (auto simp: child_def Let_def split: if_splits)
  then have "destroy_with rel l q x (entry s t i) = Inr q" if "x = 0 \<or> entry s t i \<noteq> 0" for x
    using that m by (auto simp: huge_def)
  then show ?thesis using pte_address_entry [OF pt t] b q(1) by (auto simp: gone_def)
next
  case (Some c)
  then have c: "entry s t i \<noteq> 0" "c = pte_page (entry s t i)" "\<not> (l = 1 \<and> huge (entry s t i))"
    by (auto simp: child_def Let_def split: if_splits)
  have "\<not> huge (entry s t i)" using c(3) l r t unfolding rooted_def by (cases "l = 1") auto
  then show ?thesis using IH [OF _ q(1)] pt_okD(4) [OF pt t Some] pte_address_entry [OF pt t] q(2) c(1,2) Some
    by (auto simp: below_def)
qed

lemma destroy_with_spec:
  assumes pt: "pt_ok N s lv p" and r: "rooted s lv p" and N: "N \<le> 2 ^ 35"
  shows "lv t = Some l \<Longrightarrow> heap_ok N q \<Longrightarrow> intact s q (tables s l t) \<Longrightarrow> \<not> huge e \<Longrightarrow>
      \<exists>q'. destroy_with rel l q (page_ptr t) e = Inr q' \<and> gone N q q' (tables s l t)"
proof (induction l arbitrary: t q e)
  case 0
  then show ?case using pt_okD(3) [OF pt 0(1)] by simp
next
  case (Suc l)
  let ?B = "\<Union>i\<in>{0..<512}. below s l t i"
  let ?inner = "\<lambda>s e. bindR (pte_address e) (\<lambda>p. destroy_with rel l s p e)"
  have int: "intact s q (insert t ?B)" using Suc.prems(3) unfolding tables_Suc .
  have "\<exists>q1. (if l > 0 then destroy_entries ?inner q (page_ptr t) 512 else Inr q) = Inr q1 \<and> gone N q q1 ?B"
  proof (cases "l > 0")
    case True
    have inner: "\<exists>q'. ?inner q (entry s t i) = Inr q' \<and> gone N q q' (below s l t i)"
      if "heap_ok N q" "intact s q (below s l t i)" "0 \<le> i" "i < 512" for q i
      by (rule destroy_child [OF pt r Suc.prems(1) that(3,4) True Suc.IH that(1,2)])
    have z: "512 - int 512 = 0" by simp
    have "\<exists>q1. destroy_entries ?inner q (page_ptr t) 512 = Inr q1 \<and> gone N q q1 ?B"
      using destroy_entries_spec [OF pt Suc.prems(1) inner, of 512 q] Suc.prems(2) int unfolding z by blast
    then show ?thesis using True by simp
  next
    case False
    then have "?B = {}" by (simp add: below_def child_def)
    then show ?thesis using False Suc.prems(2) by (simp add: gone_def)
  qed
  then obtain q1 where q1: "(if l > 0 then destroy_entries ?inner q (page_ptr t) 512 else Inr q) = Inr q1" "gone N q q1 ?B"
    by blast
  have "t \<notin> ?B" using below_self [OF pt Suc.prems(1)] by blast
  then have "intact s q1 {t}" using intact_gone [OF intact_mono [OF int] q1(2)] by simp
  moreover have "0 \<le> t" "t < N" "page_ptr t \<noteq> 0"
    using pt_okD(2) [OF pt] Suc.prems(1) page_ptr_nonzero [OF table_page_ok [OF pt N Suc.prems(1)]] by auto
  ultimately obtain q' where q': "rel q1 (page_ptr t) = Inr q'" "gone N q1 q' {t}"
    using rel [of N q1 t] q1(2) by (auto simp: gone_def intact_def)
  have "gone N q q' (tables s (Suc l) t)" using gone_trans [OF q1(2) q'(2)] unfolding tables_Suc by simp
  then show ?case using q1(1) q'(1) Suc.prems(4) \<open>page_ptr t \<noteq> 0\<close> by (auto simp: huge_def)
qed

lemma destroy_root:
  assumes ok: "heap_ok N s" and pt: "pt_ok N s lv p" and r: "rooted s lv p" and ready: "\<forall>t\<in>dom lv. ready s t"
  shows "\<exists>s'. destroy_with rel 4 s (page_ptr p) 0 = Inr s' \<and> gone N s s' (dom lv)"
proof -
  note N = heap_ok_bound [OF ok]
  have "intact s s (dom lv)"
    using ready pt_okD(2) [OF pt] table_page_ok [OF pt N] by (auto simp: intact_def)
  then show ?thesis
    using destroy_with_spec [OF pt r N pt_okD(1) [OF pt] ok, of 0] unfolding tables_rooted [OF pt r] by simp
qed

end

section \<open>The two ways to release a table\<close>

interpretation rt: tree_release "\<lambda>s table. release_pages s table 1" "\<lambda>s t. t \<in> usable_set s"
proof unfold_locales
  fix N s t assume "heap_ok N s" "0 \<le> t" "t < N" "t \<notin> free_set s" "t \<in> usable_set s"
  moreover have "{t..<t + 1} = {t}" for t :: int by auto
  ultimately show "\<exists>s'. release_pages s (page_ptr t) 1 = Inr s' \<and> heap_ok N s' \<and> free_set s' = insert t (free_set s)
         \<and> usable_set s' = insert t (usable_set s) \<and> kept s s'"
    using release_pages_spec [of N s 1 t] by (auto simp: keeps_def kept_def insert_absorb)
qed blast

interpretation bt: tree_release
  "\<lambda>s table. bindR (unsafe_mark_memory_usability s table 1 True) (\<lambda>s. release_pages s table 1)" "\<lambda>s t. True"
proof unfold_locales
  fix N s t assume a: "heap_ok N s" "0 \<le> t" "t < N" "t \<notin> free_set s"
  have one: "{t..<t + 1} = {t}" by auto
  obtain r where r: "unsafe_mark_memory_usability s (page_ptr t) 1 True = Inr r" "heap_ok N r" "free_set r = free_set s"
      "usable_set r = insert t (usable_set s)" "mem r = mem s"
    using mark_usability_spec [OF a(1-3), of 1 True] a(3,4) unfolding one by (auto simp: put_def)
  then show "\<exists>s'. bindR (unsafe_mark_memory_usability s (page_ptr t) 1 True) (\<lambda>s. release_pages s (page_ptr t) 1) = Inr s'
         \<and> heap_ok N s' \<and> free_set s' = insert t (free_set s) \<and> usable_set s' = insert t (usable_set s) \<and> kept s s'"
    using rt.rel [OF r(2) a(2,3)] a(4) by (auto simp: kept_def)
qed

lemma destroy_table_tree:
  assumes "heap_ok N s" "pt_ok N s lv p" "rooted s lv p" "dom lv \<subseteq> usable_set s"
  shows "\<exists>s'. destroy_table s (page_ptr p) = Inr s' \<and> heap_ok N s'
           \<and> free_set s' = free_set s \<union> dom lv \<and> usable_set s' = usable_set s \<and> kept s s'"
  using rt.destroy_root [OF assms(1-3)] assms(4)
  unfolding destroy_table_def destroy_table_inner_eq rt.gone_def by (auto simp: Un_absorb2)

lemma destroy_bootboot_tree:
  assumes "heap_ok N s" "pt_ok N s lv p" "rooted s lv p"
  shows "\<exists>s'. destroy_bootboot_table s (page_ptr p) = Inr s' \<and> heap_ok N s'
           \<and> free_set s' = free_set s \<union> dom lv \<and> usable_set s' = usable_set s \<union> dom lv \<and> kept s s'"
  using bt.destroy_root [OF assms] unfolding destroy_bootboot_table_def destroy_bb_table_inner_eq bt.gone_def by simp

section \<open>Properties\<close>

text \<open>C21. Destroying a tree of page tables terminates without a panic and makes exactly the tables of the tree free: every
  table is released once, none is read after its release, and no page outside the tree and the free pages changes.
  \<^verbatim>\<open>destroy_bootboot_table\<close> does the same for tables that were never marked usable, and marks them.\<close>

theorem destroy_table_correct:
  assumes "heap_ok N s" "pt_ok N s lv p" "rooted s lv p"
  shows "(dom lv \<subseteq> usable_set s \<longrightarrow> (\<exists>s'. destroy_table s (page_ptr p) = Inr s' \<and> heap_ok N s'
            \<and> free_set s' = free_set s \<union> dom lv \<and> usable_set s' = usable_set s \<and> kept s s'))
       \<and> (\<exists>s'. destroy_bootboot_table s (page_ptr p) = Inr s' \<and> heap_ok N s'
            \<and> free_set s' = free_set s \<union> dom lv \<and> usable_set s' = usable_set s \<union> dom lv \<and> kept s s')"
proof -
  have "\<exists>s'. destroy_table s (page_ptr p) = Inr s' \<and> heap_ok N s'
      \<and> free_set s' = free_set s \<union> dom lv \<and> usable_set s' = usable_set s \<and> kept s s'" if u: "dom lv \<subseteq> usable_set s"
    by (rule destroy_table_tree [OF assms u])
  then show ?thesis using destroy_bootboot_tree [OF assms] by blast
qed

theorem destroy_table_correct_witness:
  "\<exists>s x s'. destroy_table s (page_ptr x) = Inr s' \<and> heap_ok 64 s' \<and> free_set s' = insert x (free_set s) \<and> x \<notin> free_set s"
proof -
  obtain s0 where s0: "heap_ok 64 s0" "free_set s0 = {0..<8}" "usable_set s0 = {0..<64}" using sample_released by blast
  then obtain x s where x: "allocated 64 s0 1 x s" "\<forall>k\<in>{0..<512}. mem s (page_ptr x + U64 (8 * k)) = 0"
    using zeroed_pages_one [OF s0(1)] by auto
  then have a: "heap_ok 64 s" "x \<notin> free_set s" "x \<in> free_set s0" "usable_set s = usable_set s0" by (auto simp: allocated_def keeps_def)
  have zero: "entry s x i = 0" if "0 \<le> i" "i < 512" for i using x(2) that by (simp add: entry_def)
  then have "rooted s [x \<mapsto> 4] x" by (auto simp: rooted_def)
  then show ?thesis using destroy_table_correct [OF a(1) pt_ok_single(1) [OF a(1) x(1) zero]] a s0(2,3) by auto
qed

text \<open>C22. Page tables give back what they took: a new table, any region mapped in it, and its destruction leave the set of
  free pages as it was, whether the mapping succeeded or ran out of memory half-way.\<close>

theorem page_table_lifecycle:
  assumes "heap_ok N s" "free_set s \<noteq> {}" "flags_ok f" "0 < V" "0 < n" "V + n \<le> 2 ^ 52" "0 \<le> k" "k + n \<le> 2 ^ 35"
  shows "\<exists>p s1 r s2 s3. zeroed_pages s 1 = Inr (p, s1) \<and> map_region s1 p (vaddr V) (page_ptr k) n f = Inr (r, s2)
           \<and> destroy_table s2 p = Inr s3 \<and> heap_ok N s3 \<and> free_set s3 = free_set s \<and> usable_set s3 = usable_set s"
proof -
  obtain x s1 where x: "zeroed_pages s 1 = Inr (page_ptr x, s1)" "allocated N s 1 x s1"
      "\<forall>i\<in>{0..<512}. mem s1 (page_ptr x + U64 (8 * i)) = 0"
    using zeroed_pages_one [OF assms(1)] assms(2) by auto
  have zero: "entry s1 x i = 0" if "0 \<le> i" "i < 512" for i using x(3) that by (simp add: entry_def)
  have ok1: "heap_ok N s1" and fs: "free_set s = insert x (free_set s1)" and us: "usable_set s1 = usable_set s"
    using x(2) by (auto simp: allocated_def keeps_def)
  note single = pt_ok_single [OF ok1 x(2) zero]
  have root: "rooted s1 [x \<mapsto> 4] x" using zero by (auto simp: rooted_def)
  obtain r s2 lv where g: "map_region s1 (page_ptr x) (vaddr V) (page_ptr k) n f = Inr (r, s2)" "grows N x s1 [x \<mapsto> 4] s2 lv"
    using map_region_spec [OF ok1 single(1) assms(3-8)] single(2) by auto
  then have g2: "heap_ok N s2" "pt_ok N s2 lv x" "rooted s2 lv x" "free_set s2 \<union> dom lv = free_set s" "usable_set s2 = usable_set s"
    using root fs us by (auto simp: grows_def)
  have "dom lv \<subseteq> usable_set s2" using g2(4,5) free_subset_usable [OF assms(1)] by blast
  then obtain s3 where "destroy_table s2 (page_ptr x) = Inr s3" "heap_ok N s3" "free_set s3 = free_set s" "usable_set s3 = usable_set s"
    using destroy_table_tree [OF g2(1-3)] g2(4,5) by auto
  then show ?thesis using x(1) g(1) by blast
qed

theorem page_table_lifecycle_witness:
  "\<exists>s p s1 r s2 s3. free_set s = {0..<8} \<and> zeroed_pages s 1 = Inr (p, s1)
     \<and> map_region s1 p (vaddr 4) (page_ptr 20) 700 PTE_KERNEL = Inr (r, s2)
     \<and> destroy_table s2 p = Inr s3 \<and> free_set s3 = {0..<8}"
proof -
  obtain s where s: "heap_ok 64 s" "free_set s = {0..<8}" using sample_released by blast
  then show ?thesis using page_table_lifecycle [OF s(1) _ kernel_flags_ok(1), of 4 700 20] by auto
qed

end
