(* ===== verification/Sync.thy ===== *)
theory Sync
  imports Prelude
begin

text \<open>
  The atomic operations and the mutex of \<^verbatim>\<open>src/lib/sync.h\<close>. A weak compare-and-exchange may
  fail although the values agree; whether it does is the parameter \<open>spurious\<close>. An operation
  returns the new value of the atomic object beside its result.
\<close>

definition a_cxweak :: "bool \<Rightarrow> 'a \<Rightarrow> 'a \<Rightarrow> 'a \<Rightarrow> bool \<times> 'a \<times> 'a" where
  "a_cxweak spurious obj expected desired =
     (if obj = expected \<and> \<not> spurious then (True, desired, expected) else (False, obj, obj))"

definition Mutex__try_lock :: "bool \<Rightarrow> u8 \<Rightarrow> bool \<times> u8" where
  "Mutex__try_lock spurious mtx = (let (ok, mtx, current) = a_cxweak spurious mtx 0 1 in (ok, mtx))"

definition Mutex__unlock :: "u8 \<Rightarrow> u8" where
  "Mutex__unlock mtx = 0"

text \<open>
  \<^verbatim>\<open>while (!Mutex__try_lock(mtx)) pause();\<close> on a core that runs alone: \<open>tries\<close> says which of the first
  attempts fail spuriously, and nobody else changes the mutex between two attempts. The loop is a partial function,
  so \<open>None\<close> is a loop that never ends.
\<close>

partial_function (option) spin :: "bool list \<Rightarrow> u8 \<Rightarrow> u8 option" where
  "spin tries mtx =
     (let (ok, mtx) = Mutex__try_lock (case tries of [] \<Rightarrow> False | spurious # _ \<Rightarrow> spurious) mtx in
      if ok then Some mtx else spin (tl tries) mtx)"

text \<open>\<open>Deadlock\<close> is the value of a call that spins for ever.\<close>

definition lock_loop :: "bool list \<Rightarrow> u8 \<Rightarrow> u8 result" where
  "lock_loop tries mtx = (case spin tries mtx of Some mtx \<Rightarrow> Inr mtx | None \<Rightarrow> Inl Deadlock)"

lemma a_cxweak_eq [simp]:
  "fst (a_cxweak spurious obj expected desired) \<longleftrightarrow> obj = expected \<and> \<not> spurious"
  by (simp add: a_cxweak_def)

lemma Mutex__try_lock_eq: "Mutex__try_lock spurious mtx = (mtx = 0 \<and> \<not> spurious, if mtx = 0 \<and> \<not> spurious then 1 else mtx)"
  by (simp add: Mutex__try_lock_def a_cxweak_def)

text \<open>A free mutex is taken after the spurious failures, a held one never.\<close>

lemma spin_free: "spin tries 0 = Some 1"
proof (induction tries)
  case Nil
  show ?case by (subst spin.simps) (simp add: Mutex__try_lock_eq)
next
  case (Cons spurious tries)
  then show ?case by (subst spin.simps) (simp add: Mutex__try_lock_eq)
qed

lemma spin_returns:
  assumes ret: "spin tries mtx = Some r"
  shows "mtx = 0"
proof (rule spin.raw_induct [where P = "\<lambda>tries mtx r. mtx = 0", OF _ ret])
  fix f :: "bool list \<Rightarrow> u8 \<Rightarrow> u8 option" and tries mtx r
  assume IH: "\<And>tries mtx r. f tries mtx = Some r \<Longrightarrow> mtx = 0"
    and eq: "(let (ok, mtx) = Mutex__try_lock (case tries of [] \<Rightarrow> False | spurious # _ \<Rightarrow> spurious) mtx in
      if ok then Some mtx else f (tl tries) mtx) = Some r"
  show "mtx = 0"
  proof (rule ccontr)
    assume "mtx \<noteq> 0"
    then have "f (tl tries) mtx = Some r" using eq by (simp add: Mutex__try_lock_eq)
    then show False using IH \<open>mtx \<noteq> 0\<close> by blast
  qed
qed

lemma spin_held: "mtx \<noteq> 0 \<Longrightarrow> spin tries mtx = None"
  using spin_returns [of tries mtx] by (cases "spin tries mtx") auto

lemma lock_loop_eq [simp]: "lock_loop tries mtx = (if mtx = 0 then Inr 1 else Inl Deadlock)"
  by (simp add: lock_loop_def spin_free spin_held)

end
