(* ===== verification/Bump_Alloc.thy ===== *)
theory Bump_Alloc
  imports Page_Allocator Sync
begin

text \<open>
  The bump allocator of \<^verbatim>\<open>src/lib/basics.h\<close>, which several cores may call at once. One round
  of the loop of \<^verbatim>\<open>Bump__bump_impl\<close> up to its compare-and-exchange is \<open>bump_attempt\<close>; the whole
  call on one core is \<open>Bump__bump_impl\<close>, where \<open>tries\<close> lists the spurious failures of the weak
  exchange (on one core the exchange after the last of them cannot fail); \<open>bump_step\<close> interleaves the atomic steps of any number of calls.
\<close>

record Bump =
  bump_begin :: u64
  bump_count :: s64
  bump_idx :: s64

definition ext__alloc_pages :: "memory \<Rightarrow> s64 \<Rightarrow> (u64 \<times> memory) result" where
  "ext__alloc_pages s count = zeroed_pages s count"

definition Bump__new :: "memory \<Rightarrow> s64 \<Rightarrow> (Bump \<times> memory) result" where
  "Bump__new s count =
     bindR (ext__alloc_pages s count) (\<lambda>(base, s).
     bindR (assertR (base \<noteq> 0) ''base'') (\<lambda>_.
     bindR (s64_chk (count * 4096)) (\<lambda>bytes.
     Inr (\<lparr>bump_begin = base, bump_count = bytes, bump_idx = 0\<rparr>, s))))"

definition bump_attempt :: "Bump \<Rightarrow> s64 \<Rightarrow> s64 \<Rightarrow> s64 \<Rightarrow> (s64 \<times> s64) option result" where
  "bump_attempt bump bump_index sz align =
     bindR (align_up (U64 bump_index) (U64 align)) (\<lambda>aligned.
     let aligned_index = S64 aligned in
     bindR (s64_chk (aligned_index + sz)) (\<lambda>end_index.
     if end_index \<le> bump_count bump then Inr (Some (aligned_index, end_index)) else Inr None))"

fun Bump__bump_loop :: "bool list \<Rightarrow> Bump \<Rightarrow> s64 \<Rightarrow> s64 \<Rightarrow> s64 \<Rightarrow> (u64 \<times> Bump) result" where
  "Bump__bump_loop tries bump bump_index sz align =
     bindR (bump_attempt bump bump_index sz align) (\<lambda>r. case r of
       None \<Rightarrow> Inr (0, bump)
     | Some (aligned_index, end_index) \<Rightarrow>
         let ptr = bump_begin bump + U64 aligned_index in
         case tries of
           [] \<Rightarrow> let (ok, idx, bump_index) = a_cxweak False (bump_idx bump) bump_index end_index in
                 if ok then Inr (ptr, bump\<lparr>bump_idx := idx\<rparr>) else Inl Deadlock
         | spurious # tries \<Rightarrow>
                 let (ok, idx, bump_index) = a_cxweak spurious (bump_idx bump) bump_index end_index in
                 if ok then Inr (ptr, bump\<lparr>bump_idx := idx\<rparr>)
                 else Bump__bump_loop tries (bump\<lparr>bump_idx := idx\<rparr>) bump_index sz align)"

declare Bump__bump_loop.simps [simp del]

definition Bump__bump_impl :: "bool list \<Rightarrow> Bump \<Rightarrow> s64 \<Rightarrow> s64 \<Rightarrow> (u64 \<times> Bump) result" where
  "Bump__bump_impl tries bump sz align = Bump__bump_loop tries bump (bump_idx bump) sz align"

section \<open>One call\<close>

text \<open>Spurious failures of the exchange change nothing.\<close>

lemma Bump__bump_impl_tries: "Bump__bump_impl tries b n al = Bump__bump_impl tries' b n al"
proof -
  have "Bump__bump_loop ts b (bump_idx b) n al = Bump__bump_loop [] b (bump_idx b) n al" for ts
  proof (induction ts)
    case (Cons spurious ts)
    then show ?case
      by (subst (1 2) Bump__bump_loop.simps) (auto simp: a_cxweak_def Let_def Bump__bump_loop.simps [of "[]"] intro!: bindR_cong split: option.splits)
  qed simp
  from this [of tries] this [of tries'] show ?thesis by (simp add: Bump__bump_impl_def)
qed

definition bump_ok :: "Bump \<Rightarrow> bool" where
  "bump_ok b \<longleftrightarrow> 0 \<le> bump_idx b \<and> bump_idx b \<le> bump_count b \<and> bump_count b < 2 ^ 62"

definition round_up :: "int \<Rightarrow> nat \<Rightarrow> int" where
  "round_up i k = (i + 2 ^ k - 1) div 2 ^ k * 2 ^ k"

lemma round_up: "2 ^ k dvd round_up i k" "i \<le> round_up i k" "round_up i k < i + 2 ^ k"
proof -
  let ?n = "i + 2 ^ k - 1"
  have "?n = ?n div 2 ^ k * 2 ^ k + ?n mod 2 ^ k" by (rule div_mult_mod_eq [symmetric])
  moreover have "0 \<le> ?n mod 2 ^ k" "?n mod 2 ^ k < 2 ^ k" by simp_all
  ultimately show "i \<le> round_up i k" "round_up i k < i + 2 ^ k" unfolding round_up_def by linarith+
  show "2 ^ k dvd round_up i k" by (simp add: round_up_def)
qed

lemma pow2_le_62: "k < 62 \<Longrightarrow> (2 :: int) ^ k \<le> 2 ^ 61"
  by (rule power_increasing) auto

lemma bump_attempt_eq:
  assumes "0 \<le> i" "i < 2 ^ 62" "k < 62" "0 \<le> n" "n < 2 ^ 61"
  shows "bump_attempt b i n (2 ^ k) =
    Inr (if round_up i k + n \<le> bump_count b then Some (round_up i k, round_up i k + n) else None)"
proof -
  define w where "w = U64 i"
  define r where "r = (w + mask k) AND NOT (mask k)"
  have p: "(2 :: int) ^ k \<le> 2 ^ 61" using assms(3) by (rule pow2_le_62)
  have w: "uint w = i" using assms(1,2) unfolding w_def by (intro uint_word_of_int_small) auto
  have "uint r = round_up i k" unfolding r_def round_up_def w [symmetric]
    using p assms(2) w by (intro uint_align_up) simp
  moreover have b: "0 \<le> round_up i k" "round_up i k < 2 ^ 62 + 2 ^ 61" using round_up [where i = i and k = k] assms p by linarith+
  ultimately have "S64 r = round_up i k" using sint_eq_uint_small [of r] by simp
  moreover have "U64 (2 ^ k) = 2 ^ k" by simp
  moreover have "s64_ok (round_up i k + n)" using b assms(4,5) by (simp add: s64_ok_def)
  ultimately show ?thesis
    using assms(3) by (simp add: bump_attempt_def w_def [symmetric] r_def Let_def)
qed

lemma Bump__bump_impl_eq:
  assumes "bump_ok b" "k < 62" "0 \<le> n" "n < 2 ^ 61"
  shows "Bump__bump_impl tries b n (2 ^ k) =
    Inr (if round_up (bump_idx b) k + n \<le> bump_count b
         then (bump_begin b + U64 (round_up (bump_idx b) k), b\<lparr>bump_idx := round_up (bump_idx b) k + n\<rparr>)
         else (0, b))"
proof -
  have "0 \<le> bump_idx b" "bump_idx b < 2 ^ 62" using assms(1) by (auto simp: bump_ok_def)
  then have att: "bump_attempt b (bump_idx b) n (2 ^ k) =
      Inr (if round_up (bump_idx b) k + n \<le> bump_count b then Some (round_up (bump_idx b) k, round_up (bump_idx b) k + n) else None)"
    using assms(2-4) by (rule bump_attempt_eq)
  have "Bump__bump_loop tries b (bump_idx b) n (2 ^ k) =
      Inr (if round_up (bump_idx b) k + n \<le> bump_count b
         then (bump_begin b + U64 (round_up (bump_idx b) k), b\<lparr>bump_idx := round_up (bump_idx b) k + n\<rparr>)
         else (0, b))"
    by (induction tries; subst Bump__bump_loop.simps) (auto simp: att Let_def a_cxweak_def)
  then show ?thesis by (simp add: Bump__bump_impl_def)
qed

section \<open>Calls on several cores\<close>

text \<open>
  Every call is a process: it starts with its size and the logarithm of its alignment, holds the
  index it has read, and ends with the range it got or with \<^verbatim>\<open>NULL\<close>. \<open>bump_step\<close> is one atomic
  access to the shared index by one process.
\<close>

datatype bump_pc = Call s64 nat | Loaded s64 nat s64 | Got s64 s64 | Null

record bump_sys =
  shared :: Bump
  pcs :: "nat \<Rightarrow> bump_pc"

inductive bump_step :: "bump_sys \<Rightarrow> bump_sys \<Rightarrow> bool" where
  load: "pcs s p = Call n k \<Longrightarrow> bump_step s (s\<lparr>pcs := (pcs s)(p := Loaded n k (bump_idx (shared s)))\<rparr>)"
| full: "pcs s p = Loaded n k i \<Longrightarrow> bump_attempt (shared s) i n (2 ^ k) = Inr None \<Longrightarrow>
    bump_step s (s\<lparr>pcs := (pcs s)(p := Null)\<rparr>)"
| take: "pcs s p = Loaded n k i \<Longrightarrow> bump_attempt (shared s) i n (2 ^ k) = Inr (Some (a, e)) \<Longrightarrow>
    a_cxweak spurious (bump_idx (shared s)) i e = (True, idx, i') \<Longrightarrow>
    bump_step s (s\<lparr>shared := (shared s)\<lparr>bump_idx := idx\<rparr>, pcs := (pcs s)(p := Got a (e - a))\<rparr>)"
| retry: "pcs s p = Loaded n k i \<Longrightarrow> bump_attempt (shared s) i n (2 ^ k) = Inr (Some (a, e)) \<Longrightarrow>
    a_cxweak spurious (bump_idx (shared s)) i e = (False, idx, i') \<Longrightarrow>
    bump_step s (s\<lparr>shared := (shared s)\<lparr>bump_idx := idx\<rparr>, pcs := (pcs s)(p := Loaded n k i')\<rparr>)"

definition bump_init :: "bump_sys \<Rightarrow> bool" where
  "bump_init s \<longleftrightarrow> bump_ok (shared s) \<and> (\<forall>p. \<exists>n k. pcs s p = Call n k \<and> 0 \<le> n \<and> n < 2 ^ 61 \<and> k < 62)"

definition bump_inv :: "bump_sys \<Rightarrow> bool" where
  "bump_inv s \<longleftrightarrow> bump_ok (shared s)
     \<and> (\<forall>p n k. pcs s p = Call n k \<longrightarrow> 0 \<le> n \<and> n < 2 ^ 61 \<and> k < 62)
     \<and> (\<forall>p n k i. pcs s p = Loaded n k i \<longrightarrow> 0 \<le> n \<and> n < 2 ^ 61 \<and> k < 62 \<and> 0 \<le> i \<and> i < 2 ^ 62)
     \<and> (\<forall>p a n. pcs s p = Got a n \<longrightarrow> 0 \<le> a \<and> 0 \<le> n \<and> a + n \<le> bump_idx (shared s))
     \<and> (\<forall>p q a n b m. p \<noteq> q \<longrightarrow> pcs s p = Got a n \<longrightarrow> pcs s q = Got b m \<longrightarrow> a + n \<le> b \<or> b + m \<le> a)"

lemma bump_attempt_SomeD:
  assumes "bump_attempt b i n (2 ^ k) = Inr (Some (a, e))" "0 \<le> i" "i < 2 ^ 62" "k < 62" "0 \<le> n" "n < 2 ^ 61"
  shows "a = round_up i k" "e = a + n" "i \<le> a" "e \<le> bump_count b"
  using assms(1) bump_attempt_eq [OF assms(2-), of b] round_up(2) [of i k] by (auto split: if_splits)

lemma bump_step_inv: "bump_step s t \<Longrightarrow> bump_inv s \<Longrightarrow> bump_inv t"
proof (induction rule: bump_step.induct)
  case (load s p n k)
  then show ?case unfolding bump_inv_def bump_ok_def by (auto split: if_splits)
next
  case (full s p n k i)
  then show ?case unfolding bump_inv_def by (auto split: if_splits)
next
  case (take s p n k i a e spurious idx i')
  have i: "i = bump_idx (shared s)" "idx = e"
    using take(3) by (auto simp: a_cxweak_def split: if_splits)
  have n: "0 \<le> n" "n < 2 ^ 61" "k < 62" "0 \<le> i" "i < 2 ^ 62" using take(1,4) unfolding bump_inv_def by blast+
  note a = bump_attempt_SomeD [OF take(2) n(4,5,3,1,2)]
  show ?case
    using take(4) a(2-4) n(1) unfolding bump_inv_def bump_ok_def i(2)
    by (simp add: i(1)) (smt (verit, best) bump_pc.inject(3))
next
  case (retry s p n k i a e spurious idx i')
  have "idx = bump_idx (shared s)" "i' = bump_idx (shared s)"
    using retry(3) by (auto simp: a_cxweak_def split: if_splits)
  then show ?case using retry(1,4) unfolding bump_inv_def bump_ok_def by (auto split: if_splits)
qed

lemma bump_init_inv: "bump_init s \<Longrightarrow> bump_inv s"
  unfolding bump_init_def bump_inv_def by (metis bump_pc.distinct(1,3) bump_pc.inject(1))

lemma bump_run_inv: "bump_step\<^sup>*\<^sup>* s t \<Longrightarrow> bump_inv s \<Longrightarrow> bump_inv t"
  by (induction rule: rtranclp_induct) (auto intro: bump_step_inv)

lemma bump_take:
  assumes "pcs s p = Loaded n k i" "bump_attempt (shared s) i n (2 ^ k) = Inr (Some (a, a + n))" "bump_idx (shared s) = i"
  shows "bump_step s (s\<lparr>shared := (shared s)\<lparr>bump_idx := a + n\<rparr>, pcs := (pcs s)(p := Got a n)\<rparr>)"
  using bump_step.take [OF assms(1,2), of False "a + n" i] assms(3) by (simp add: a_cxweak_def)

lemma bump_solo:
  assumes "bump_inv s" "pcs s p = Loaded n k (bump_idx (shared s))"
  shows "\<exists>t. bump_step s t \<and> (pcs t p = Null \<or> (\<exists>a. pcs t p = Got a n))"
proof -
  have n: "0 \<le> n" "n < 2 ^ 61" "k < 62" "0 \<le> bump_idx (shared s)" "bump_idx (shared s) < 2 ^ 62"
    using assms unfolding bump_inv_def by blast+
  note att = bump_attempt_eq [OF n(4,5,3,1,2), of "shared s"]
  show ?thesis
  proof (cases "bump_attempt (shared s) (bump_idx (shared s)) n (2 ^ k) = Inr None")
    case True
    then show ?thesis using bump_step.full [OF assms(2)] by (intro exI [of _ "s\<lparr>pcs := (pcs s)(p := Null)\<rparr>"]) simp
  next
    case False
    then obtain a where a: "bump_attempt (shared s) (bump_idx (shared s)) n (2 ^ k) = Inr (Some (a, a + n))"
      using att by (auto split: if_splits)
    show ?thesis
      using bump_take [OF assms(2) a refl]
      by (intro exI [of _ "s\<lparr>shared := (shared s)\<lparr>bump_idx := a + n\<rparr>, pcs := (pcs s)(p := Got a n)\<rparr>"]) simp
  qed
qed

lemma bump_finishes:
  assumes "bump_inv s"
  shows "\<exists>t. bump_step\<^sup>*\<^sup>* s t \<and> (pcs t p = Null \<or> (\<exists>a n. pcs t p = Got a n))"
proof -
  have loaded: "\<exists>t. bump_step\<^sup>*\<^sup>* u t \<and> (pcs t p = Null \<or> (\<exists>a n. pcs t p = Got a n))"
    if "bump_inv u" "pcs u p = Loaded n k (bump_idx (shared u))" for u n k
    using bump_solo [OF that] by blast
  have step: "\<exists>t. bump_step\<^sup>*\<^sup>* s t \<and> (pcs t p = Null \<or> (\<exists>a n. pcs t p = Got a n))"
    if "bump_step s u" "pcs u p = Loaded n k (bump_idx (shared u))" for u n k
    using loaded [OF bump_step_inv [OF that(1) assms] that(2)] that(1) by (meson converse_rtranclp_into_rtranclp)
  show ?thesis
  proof (cases "pcs s p")
    case (Call n k)
    then show ?thesis using step [OF bump_step.load] by auto
  next
    case (Loaded n k i)
    then have n: "0 \<le> n" "n < 2 ^ 61" "k < 62" "0 \<le> i" "i < 2 ^ 62" using assms unfolding bump_inv_def by blast+
    show ?thesis
    proof (cases "i = bump_idx (shared s)")
      case False
      have cx: "a_cxweak False (bump_idx (shared s)) i e = (False, bump_idx (shared s), bump_idx (shared s))" for e
        using False by (auto simp: a_cxweak_def)
      have "bump_step s (s\<lparr>pcs := (pcs s)(p := Null)\<rparr>) \<or>
        bump_step s (s\<lparr>shared := (shared s)\<lparr>bump_idx := bump_idx (shared s)\<rparr>, pcs := (pcs s)(p := Loaded n k (bump_idx (shared s)))\<rparr>)"
        using bump_step.full [OF Loaded] bump_step.retry [OF Loaded _ cx] bump_attempt_eq [OF n(4,5,3,1,2), of "shared s"]
        by (auto split: if_splits)
      then show ?thesis
      proof
        assume "bump_step s (s\<lparr>pcs := (pcs s)(p := Null)\<rparr>)"
        then show ?thesis by (intro exI [of _ "s\<lparr>pcs := (pcs s)(p := Null)\<rparr>"]) auto
      qed (rule step, assumption, simp)
    qed (use loaded [OF assms] Loaded in auto)
  qed auto
qed

section \<open>Properties\<close>

text \<open>C31. A call of \<^verbatim>\<open>Bump__bump_impl\<close> that runs alone returns, however often the weak exchange fails
  spuriously: it hands out the lowest aligned range above the current index, which ends inside the
  buffer, and moves the index to its end; it returns \<^verbatim>\<open>NULL\<close> and changes nothing exactly when that
  range does not fit.\<close>

theorem Bump__bump_impl_correct:
  assumes "bump_ok b" "k < 62" "0 \<le> n" "n < 2 ^ 61"
  shows "\<exists>a. 2 ^ k dvd a \<and> bump_idx b \<le> a \<and> a < bump_idx b + 2 ^ k
    \<and> Bump__bump_impl tries b n (2 ^ k) =
        (if a + n \<le> bump_count b then Inr (bump_begin b + U64 a, b\<lparr>bump_idx := a + n\<rparr>) else Inr (0, b))"
  using Bump__bump_impl_eq [OF assms] round_up [where i = "bump_idx b" and k = k]
  by (intro exI [of _ "round_up (bump_idx b) k"]) simp

theorem Bump__bump_impl_correct_witness:
  "\<exists>a b. 8 dvd a \<and> 5 \<le> a \<and> a < 13 \<and> bump_idx b = a + 72
     \<and> Bump__bump_impl [True, True] \<lparr>bump_begin = 4096, bump_count = 100, bump_idx = 5\<rparr> 72 8 = Inr (4096 + U64 a, b)"
proof -
  define b where "b = \<lparr>bump_begin = 4096, bump_count = 100, bump_idx = 5\<rparr>"
  have b: "bump_ok b" "bump_begin b = 4096" "bump_count b = 100" "bump_idx b = 5" by (simp_all add: b_def bump_ok_def)
  obtain a where a: "2 ^ 3 dvd a" "bump_idx b \<le> a" "a < bump_idx b + 2 ^ 3"
    "Bump__bump_impl [True, True] b 72 (2 ^ 3) =
       (if a + 72 \<le> bump_count b then Inr (bump_begin b + U64 a, b\<lparr>bump_idx := a + 72\<rparr>) else Inr (0, b))"
    using Bump__bump_impl_correct [OF b(1), of 3 72 "[True, True]"] by auto
  then have "a + 72 \<le> bump_count b" by (simp add: b)
  with a have "Bump__bump_impl [True, True] b 72 8 = Inr (4096 + U64 a, b\<lparr>bump_idx := a + 72\<rparr>)" by (simp add: b(2))
  moreover have "8 dvd a" "5 \<le> a" "a < 13" using a by (simp_all add: b(4))
  moreover have "bump_idx (b\<lparr>bump_idx := a + 72\<rparr>) = a + 72" by simp
  ultimately show ?thesis unfolding b_def [symmetric] by blast
qed

text \<open>C32. Any number of concurrent calls, interleaved in any way and with any spurious failures, get
  ranges that lie inside the buffer and do not overlap.\<close>

theorem bump_ranges_disjoint:
  assumes "bump_init s" "bump_step\<^sup>*\<^sup>* s t"
  shows "\<forall>p q a n b m. pcs t p = Got a n \<longrightarrow> pcs t q = Got b m \<longrightarrow>
           0 \<le> a \<and> 0 \<le> n \<and> a + n \<le> bump_count (shared t) \<and> (p = q \<or> a + n \<le> b \<or> b + m \<le> a)"
proof -
  have "bump_inv t" using assms by (blast intro: bump_init_inv bump_run_inv)
  then show ?thesis unfolding bump_inv_def bump_ok_def by (meson order_trans)
qed

definition sample_bump :: bump_sys where
  "sample_bump = \<lparr>shared = \<lparr>bump_begin = 4096, bump_count = 100, bump_idx = 0\<rparr>, pcs = (\<lambda>p. Call 8 3)\<rparr>"

lemma sample_bump_init: "bump_init sample_bump"
  by (simp add: bump_init_def sample_bump_def bump_ok_def)

text \<open>A run in which two calls have loaded the same index, one of them takes it and the other retries.\<close>

lemma sample_bump_run:
  "\<exists>t. bump_step\<^sup>*\<^sup>* sample_bump t \<and> pcs t 0 = Got 0 8 \<and> pcs t 1 = Got 8 8 \<and> bump_count (shared t) = 100"
proof -
  let ?b = "\<lambda>i. \<lparr>bump_begin = 4096, bump_count = 100, bump_idx = i\<rparr>"
  let ?s = "\<lambda>i f. \<lparr>shared = ?b i, pcs = f\<rparr>"
  define f where "f = (\<lambda>p :: nat. Call 8 3)"
  define g where "g = f(0 := Loaded 8 3 0, 1 := Loaded 8 3 0)"
  have att: "bump_attempt (?b j) 0 8 (2 ^ 3) = Inr (Some (0, 0 + 8))" "bump_attempt (?b j) 8 8 (2 ^ 3) = Inr (Some (8, 8 + 8))" for j
    by (subst bump_attempt_eq; simp add: round_up_def)+
  have s0: "sample_bump = ?s 0 f" by (simp add: sample_bump_def f_def)
  have s1: "bump_step (?s 0 f) (?s 0 (f(0 := Loaded 8 3 0)))"
    using bump_step.load [of "?s 0 f" 0 8 3] by (simp add: f_def)
  have s2: "bump_step (?s 0 (f(0 := Loaded 8 3 0))) (?s 0 g)"
    using bump_step.load [of "?s 0 (f(0 := Loaded 8 3 0))" 1 8 3] by (simp add: f_def g_def)
  have s3: "bump_step (?s 0 g) (?s 8 (g(0 := Got 0 8)))"
    using bump_take [of "?s 0 g" 0 8 3 0 0] att(1) by (simp add: g_def)
  have s4: "bump_step (?s 8 (g(0 := Got 0 8))) (?s 8 (g(0 := Got 0 8, 1 := Loaded 8 3 8)))"
    using bump_step.retry [of "?s 8 (g(0 := Got 0 8))" 1 8 3 0 0 "0 + 8" False 8 8] att(1) by (simp add: g_def a_cxweak_def)
  have s5: "bump_step (?s 8 (g(0 := Got 0 8, 1 := Loaded 8 3 8))) (?s 16 (g(0 := Got 0 8, 1 := Got 8 8)))"
    using bump_take [of "?s 8 (g(0 := Got 0 8, 1 := Loaded 8 3 8))" 1 8 3 8 8] att(2) by simp
  have "bump_step\<^sup>*\<^sup>* sample_bump (?s 16 (g(0 := Got 0 8, 1 := Got 8 8)))"
    unfolding s0 by (meson s1 s2 s3 s4 s5 converse_rtranclp_into_rtranclp rtranclp.rtrancl_refl)
  then show ?thesis by (intro exI [of _ "?s 16 (g(0 := Got 0 8, 1 := Got 8 8))"]) simp
qed

theorem bump_ranges_disjoint_witness:
  "\<exists>t. bump_step\<^sup>*\<^sup>* sample_bump t \<and> pcs t 0 = Got 0 8 \<and> pcs t 1 = Got 8 8
     \<and> (\<forall>q b m. pcs t q = Got b m \<longrightarrow> q = 0 \<or> 8 \<le> b \<or> b + m \<le> 0)"
proof -
  obtain t where t: "bump_step\<^sup>*\<^sup>* sample_bump t" "pcs t 0 = Got 0 8" "pcs t 1 = Got 8 8"
    using sample_bump_run by blast
  show ?thesis using bump_ranges_disjoint [OF sample_bump_init t(1)] t by fastforce
qed

text \<open>C33. No concurrent call can be blocked by the others: in every reachable state every call can still
  finish, with a range or with \<^verbatim>\<open>NULL\<close>.\<close>

theorem bump_call_can_finish:
  assumes "bump_init s" "bump_step\<^sup>*\<^sup>* s t"
  shows "\<exists>u. bump_step\<^sup>*\<^sup>* t u \<and> (pcs u p = Null \<or> (\<exists>a n. pcs u p = Got a n))"
  using assms bump_finishes bump_init_inv bump_run_inv by blast

theorem bump_call_can_finish_witness:
  "\<exists>u. bump_step\<^sup>*\<^sup>* sample_bump u \<and> (pcs u 7 = Null \<or> (\<exists>a n. pcs u 7 = Got a n))"
  using bump_call_can_finish [OF sample_bump_init rtranclp.rtrancl_refl] .

lemma Bump__new_spec:
  assumes "heap_ok N s" "0 < n" "n \<le> 4096"
  shows "(\<exists>x s'. Bump__new s n = Inr (\<lparr>bump_begin = page_ptr x, bump_count = n * 4096, bump_idx = 0\<rparr>, s') \<and> page_ok x \<and> allocated N s n x s')
       \<or> Bump__new s n = Inl (Panic ''base'')"
proof -
  have c: "s64_ok (n * 4096)" using assms(2,3) by (simp add: s64_ok_def)
  consider x s' where "zeroed_pages s n = Inr (page_ptr x, s')" "page_ok x" "allocated N s n x s'" | "zeroed_pages s n = Inr (0, s)"
    using zeroed_pages_spec [OF assms] by blast
  then show ?thesis
  proof cases
    case (1 x s')
    then show ?thesis using c page_ptr_nonzero [of x] by (auto simp: Bump__new_def ext__alloc_pages_def)
  qed (simp add: Bump__new_def ext__alloc_pages_def)
qed

text \<open>\<^verbatim>\<open>Bump__new\<close> on a consistent heap takes fresh pages, all zero, for its buffer, or panics when no
  run of free pages can hold them; the new allocator is empty and the heap stays consistent.\<close>

theorem Bump__new_correct:
  assumes "heap_ok N s" "0 < n" "n \<le> 4096"
  shows "(\<exists>x b s'. Bump__new s n = Inr (b, s') \<and> bump_ok b \<and> b = \<lparr>bump_begin = page_ptr x, bump_count = n * 4096, bump_idx = 0\<rparr>
            \<and> heap_ok N s' \<and> {x..<x + n} \<subseteq> free_set s \<and> free_set s' = free_set s - {x..<x + n}
            \<and> (\<forall>y\<in>{x..<x + n}. \<forall>k\<in>{0..<512}. mem s' (page_ptr y + U64 (8 * k)) = 0))
       \<or> Bump__new s n = Inl (Panic ''base'')
         \<and> (\<forall>k y. k < CLASS_COUNT \<longrightarrow> n \<le> 2 ^ k \<longrightarrow> 2 ^ k dvd y \<longrightarrow> \<not> {y..<y + 2 ^ k} \<subseteq> free_set s)"
proof -
  have c: "s64_ok (n * 4096)" using assms(2,3) by (simp add: s64_ok_def)
  consider x s' where "zeroed_pages s n = Inr (page_ptr x, s')" "page_ok x" "allocated N s n x s'"
      "\<forall>y\<in>{x..<x + n}. \<forall>k\<in>{0..<512}. mem s' (page_ptr y + U64 (8 * k)) = 0"
    | "zeroed_pages s n = Inr (0, s)"
      "\<forall>k y. k < CLASS_COUNT \<longrightarrow> n \<le> 2 ^ k \<longrightarrow> 2 ^ k dvd y \<longrightarrow> \<not> {y..<y + 2 ^ k} \<subseteq> free_set s"
    using zeroed_pages_spec [OF assms] by blast
  then show ?thesis
  proof cases
    case (1 x s')
    then show ?thesis using c assms(2,3) page_ptr_nonzero [of x]
      by (auto simp: Bump__new_def ext__alloc_pages_def allocated_def bump_ok_def)
  qed (simp add: Bump__new_def ext__alloc_pages_def)
qed

theorem Bump__new_correct_witness:
  "\<exists>s b s'. release_pages sample_heap (page_ptr 0) 8 = Inr s \<and> Bump__new s 4 = Inr (b, s') \<and> bump_count b = 16384"
proof -
  obtain s where s: "release_pages sample_heap (page_ptr 0) 8 = Inr s" "heap_ok 64 s" "free_set s = {0..<8}"
    using sample_released by blast
  have "\<not> (\<forall>k y. k < CLASS_COUNT \<longrightarrow> (4 :: int) \<le> 2 ^ k \<longrightarrow> 2 ^ k dvd y \<longrightarrow> \<not> {y..<y + 2 ^ k} \<subseteq> free_set s)"
    unfolding s(3) not_all by (rule exI [of _ 2], rule exI [of _ 0]) (simp add: CLASS_COUNT_def)
  then show ?thesis using Bump__new_correct [OF s(2), of 4] s(1) by auto
qed

end
