(* ===== verification/Format.thy ===== *)
theory Format
  imports Align
begin

text \<open>
  Strings and formatting from \<^verbatim>\<open>src/lib/basics.h\<close>. The bytes behind a
  \<^verbatim>\<open>String\<close> are one list of characters, passed along and returned updated; a
  \<^verbatim>\<open>String\<close> is an offset into it (\<open>None\<close> for \<^verbatim>\<open>NULL\<close>) and a count. A write outside
  the list is the error \<open>OutOfBounds\<close>. A C string is a list of characters that ends at its
  first zero character or at its end, and \<open>None\<close> for \<^verbatim>\<open>NULL\<close>. Positions in the output
  are natural numbers: they start at 0 and grow by less than \<open>2 ^ 33\<close> in one call.
\<close>

type_synonym cstring = "string option"

record String =
  str_data :: "int option"
  str_count :: s64

definition NUL :: char where
  "NUL = CHR 0x00"

definition write_char :: "int option \<Rightarrow> int \<Rightarrow> char \<Rightarrow> string \<Rightarrow> string result" where
  "write_char data i c buf = (case data of None \<Rightarrow> Inl OutOfBounds | Some off \<Rightarrow> updR buf (off + i) c)"

section \<open>Strings\<close>

definition Str__new :: "int option \<Rightarrow> s64 \<Rightarrow> String" where
  "Str__new data count =
     (if count < 0 then \<lparr>str_data = None, str_count = 0\<rparr> else \<lparr>str_data = data, str_count = count\<rparr>)"

definition Str__is_null :: "String \<Rightarrow> bool" where
  "Str__is_null str \<longleftrightarrow> str_data str = None \<or> str_count str = 0"

definition Str__slice :: "String \<Rightarrow> s64 \<Rightarrow> s64 \<Rightarrow> String result" where
  "Str__slice str begin end =
     bindR (assertR (0 \<le> begin) ''0 <= begin'') (\<lambda>_.
     bindR (assertR (begin \<le> end) ''begin <= end'') (\<lambda>_.
     bindR (assertR (end \<le> str_count str) ''end <= str.count'') (\<lambda>_.
     Inr \<lparr>str_data = map_option (\<lambda>d. d + begin) (str_data str), str_count = end - begin\<rparr>)))"

definition Str__suffix :: "String \<Rightarrow> s64 \<Rightarrow> String result" where
  "Str__suffix str begin =
     bindR (assertR (0 \<le> begin) ''0 <= begin'') (\<lambda>_.
     bindR (assertR (begin \<le> str_count str) ''begin <= str.count'') (\<lambda>_.
     Inr \<lparr>str_data = map_option (\<lambda>d. d + begin) (str_data str), str_count = str_count str - begin\<rparr>))"

fun strlen_from :: "string \<Rightarrow> s64 \<Rightarrow> s64" where
  "strlen_from [] i = i"
| "strlen_from (c # str) i = (if c = NUL then i else strlen_from str (i + 1))"

definition strlen :: "cstring \<Rightarrow> s64" where
  "strlen str = (case str of None \<Rightarrow> 0 | Some s \<Rightarrow> strlen_from s 0)"

fun strcpy_loop :: "String \<Rightarrow> string \<Rightarrow> s64 \<Rightarrow> string \<Rightarrow> (s64 \<times> string) result" where
  "strcpy_loop dest [] written buf = Inr (written, buf)"
| "strcpy_loop dest (c # src) written buf =
     (if written < str_count dest \<and> c \<noteq> NUL
      then bindR (write_char (str_data dest) written c buf) (\<lambda>buf. strcpy_loop dest src (written + 1) buf)
      else Inr (written, buf))"

definition strcpy_s :: "String \<Rightarrow> cstring \<Rightarrow> string \<Rightarrow> (s64 \<times> string) result" where
  "strcpy_s dest src buf = (case src of None \<Rightarrow> Inr (0, buf) | Some s \<Rightarrow> strcpy_loop dest s 0 buf)"

section \<open>Numbers\<close>

definition FLAGS_ZEROPAD :: u32 where "FLAGS_ZEROPAD = 1"
definition FLAGS_LEFT :: u32 where "FLAGS_LEFT = push_bit 1 1"
definition FLAGS_PLUS :: u32 where "FLAGS_PLUS = push_bit 2 1"
definition FLAGS_SPACE :: u32 where "FLAGS_SPACE = push_bit 3 1"
definition FLAGS_HASH :: u32 where "FLAGS_HASH = push_bit 4 1"
definition FLAGS_UPPERCASE :: u32 where "FLAGS_UPPERCASE = push_bit 5 1"
definition FLAGS_PRECISION :: u32 where "FLAGS_PRECISION = push_bit 10 1"

definition flag :: "u32 \<Rightarrow> u32 \<Rightarrow> bool" where
  "flag flags f \<longleftrightarrow> flags AND f \<noteq> 0"

definition PRINTF_NTOA_BUFFER_SIZE :: nat where
  "PRINTF_NTOA_BUFFER_SIZE = 32"

definition out_buffer :: "char \<Rightarrow> int option \<Rightarrow> nat \<Rightarrow> nat \<Rightarrow> string \<Rightarrow> string result" where
  "out_buffer character buffer ix maxlen buf =
     (if ix < maxlen then write_char buffer (int ix) character buf else Inr buf)"

fun out_spaces :: "nat \<Rightarrow> int option \<Rightarrow> nat \<Rightarrow> nat \<Rightarrow> string \<Rightarrow> (nat \<times> string) result" where
  "out_spaces 0 buffer ix maxlen buf = Inr (ix, buf)"
| "out_spaces (Suc n) buffer ix maxlen buf =
     bindR (out_buffer (CHR '' '') buffer ix maxlen buf) (\<lambda>buf. out_spaces n buffer (ix + 1) maxlen buf)"

fun out_chars :: "string \<Rightarrow> int option \<Rightarrow> nat \<Rightarrow> nat \<Rightarrow> string \<Rightarrow> (nat \<times> string) result" where
  "out_chars [] buffer ix maxlen buf = Inr (ix, buf)"
| "out_chars (c # cs) buffer ix maxlen buf =
     bindR (out_buffer c buffer ix maxlen buf) (\<lambda>buf. out_chars cs buffer (ix + 1) maxlen buf)"

text \<open>
  The conversion buffer \<^verbatim>\<open>buf[0..len)\<close> is the list \<open>tmp\<close>. It is written in reverse:
  \<^verbatim>\<open>while (len) out(buf[--len], ...)\<close>.
\<close>

definition out_rev :: "int option \<Rightarrow> nat \<Rightarrow> nat \<Rightarrow> string \<Rightarrow> u32 \<Rightarrow> u32 \<Rightarrow> string \<Rightarrow> (nat \<times> string) result" where
  "out_rev buffer ix maxlen tmp width flags buf =
     (let start_idx = ix in
      bindR (if \<not> flag flags FLAGS_LEFT \<and> \<not> flag flags FLAGS_ZEROPAD
             then out_spaces (unat width - length tmp) buffer ix maxlen buf else Inr (ix, buf)) (\<lambda>(ix, buf).
      bindR (out_chars (rev tmp) buffer ix maxlen buf) (\<lambda>(ix, buf).
      if flag flags FLAGS_LEFT
      then out_spaces (unat width - (ix - start_idx)) buffer ix maxlen buf else Inr (ix, buf))))"

definition push_tmp :: "string \<Rightarrow> char \<Rightarrow> string" where
  "push_tmp tmp c = (if length tmp < PRINTF_NTOA_BUFFER_SIZE then tmp @ [c] else tmp)"

function pad_zeros :: "nat \<Rightarrow> string \<Rightarrow> string" where
  "pad_zeros n tmp =
     (if length tmp < n \<and> length tmp < PRINTF_NTOA_BUFFER_SIZE then pad_zeros n (tmp @ [CHR ''0'']) else tmp)"
  by pat_completeness auto
termination
  by (relation "measure (\<lambda>(n, tmp). n - length tmp)") auto

declare pad_zeros.simps [simp del]

definition ntoa_format ::
    "int option \<Rightarrow> nat \<Rightarrow> nat \<Rightarrow> string \<Rightarrow> bool \<Rightarrow> u32 \<Rightarrow> u32 \<Rightarrow> u32 \<Rightarrow> u32 \<Rightarrow> string \<Rightarrow> (nat \<times> string) result" where
  "ntoa_format buffer ix maxlen tmp negative base prec width flags buf =
     (let left = flag flags FLAGS_LEFT;
          width = (if \<not> left \<and> width \<noteq> 0 \<and> flag flags FLAGS_ZEROPAD
                      \<and> (negative \<or> flag flags (FLAGS_PLUS OR FLAGS_SPACE)) then width - 1 else width);
          tmp = (if left then tmp else pad_zeros (unat prec) tmp);
          tmp = (if left \<or> \<not> flag flags FLAGS_ZEROPAD then tmp else pad_zeros (unat width) tmp);
          tmp = (if \<not> flag flags FLAGS_HASH then tmp else
                 let tmp = (if \<not> flag flags FLAGS_PRECISION \<and> tmp \<noteq> [] \<and> (length tmp = unat prec \<or> length tmp = unat width)
                            then (let tmp = butlast tmp in if tmp \<noteq> [] \<and> base = 16 then butlast tmp else tmp) else tmp);
                     tmp = (if base = 16 \<and> \<not> flag flags FLAGS_UPPERCASE \<and> length tmp < PRINTF_NTOA_BUFFER_SIZE then tmp @ [CHR ''x'']
                            else if base = 16 \<and> flag flags FLAGS_UPPERCASE \<and> length tmp < PRINTF_NTOA_BUFFER_SIZE then tmp @ [CHR ''X'']
                            else if base = 2 \<and> length tmp < PRINTF_NTOA_BUFFER_SIZE then tmp @ [CHR ''b''] else tmp)
                 in push_tmp tmp (CHR ''0''));
          tmp = (if negative then push_tmp tmp (CHR ''-'')
                 else if flag flags FLAGS_PLUS then push_tmp tmp (CHR ''+'')
                 else if flag flags FLAGS_SPACE then push_tmp tmp (CHR '' '') else tmp)
      in out_rev buffer ix maxlen tmp width flags buf)"

definition digit_char :: "u64 \<Rightarrow> u32 \<Rightarrow> char" where
  "digit_char d flags =
     (let digit = sint (ucast d :: u8) in
      char_of ((if digit < 10 then 48 + digit else (if flag flags FLAGS_UPPERCASE then 65 else 97) + digit - 10) mod 256))"

function ntoa_digits :: "u64 \<Rightarrow> u64 \<Rightarrow> u32 \<Rightarrow> string \<Rightarrow> string" where
  "ntoa_digits value base flags tmp =
     (let tmp = tmp @ [digit_char (value mod base) flags]; value = value div base in
      if value \<noteq> 0 \<and> length tmp < PRINTF_NTOA_BUFFER_SIZE then ntoa_digits value base flags tmp else tmp)"
  by pat_completeness auto
termination
  by (relation "measure (\<lambda>(value, base, flags, tmp). PRINTF_NTOA_BUFFER_SIZE - length tmp)") auto

declare ntoa_digits.simps [simp del]

definition ntoa_long ::
    "int option \<Rightarrow> nat \<Rightarrow> nat \<Rightarrow> u64 \<Rightarrow> bool \<Rightarrow> u64 \<Rightarrow> u32 \<Rightarrow> u32 \<Rightarrow> u32 \<Rightarrow> string \<Rightarrow> (nat \<times> string) result" where
  "ntoa_long buffer ix maxlen value negative base prec width flags buf =
     (let flags = (if value = 0 then flags AND NOT FLAGS_HASH else flags);
          tmp = (if \<not> flag flags FLAGS_PRECISION \<or> value \<noteq> 0 then ntoa_digits value base flags [] else [])
      in ntoa_format buffer ix maxlen tmp negative (ucast base) prec width flags buf)"

definition fmt_u64 :: "String \<Rightarrow> u64 \<Rightarrow> string \<Rightarrow> (s64 \<times> string) result" where
  "fmt_u64 out value buf =
     bindR (ntoa_long (str_data out) 0 (unat (U64 (str_count out))) value False 10 0 0 0 buf)
       (\<lambda>(n, buf). Inr (int n, buf))"

definition fmt_i64 :: "String \<Rightarrow> s64 \<Rightarrow> string \<Rightarrow> (s64 \<times> string) result" where
  "fmt_i64 out value buf =
     bindR (if value < 0 then s64_chk (- value) else Inr value) (\<lambda>v.
     bindR (ntoa_long (str_data out) 0 (unat (U64 (str_count out))) (U64 v) (value < 0) 10 0 0 0 buf)
       (\<lambda>(n, buf). Inr (int n, buf)))"

section \<open>Tagged values\<close>

datatype type_id = type_id_bool | type_id_u8 | type_id_i8 | type_id_u16 | type_id_i16 | type_id_u32
  | type_id_i32 | type_id_u64 | type_id_i64 | type_id_char | type_id_char_ptr | type_id_unknown nat

text \<open>The union of \<^verbatim>\<open>any\<close>: \<open>raw\<close> holds its eight bytes, \<open>ptr\<close> the string when it is a pointer.\<close>

record any =
  raw :: u64
  ptr :: cstring
  type :: type_id

definition any__bool :: "bool \<Rightarrow> any" where
  "any__bool value = \<lparr>raw = (if value then 1 else 0), ptr = None, type = type_id_bool\<rparr>"
definition any__u64 :: "u64 \<Rightarrow> any" where
  "any__u64 value = \<lparr>raw = value, ptr = None, type = type_id_u64\<rparr>"
definition any__i64 :: "s64 \<Rightarrow> any" where
  "any__i64 value = \<lparr>raw = U64 value, ptr = None, type = type_id_i64\<rparr>"
definition any__char_ptr :: "cstring \<Rightarrow> any" where
  "any__char_ptr value = \<lparr>raw = 0, ptr = value, type = type_id_char_ptr\<rparr>"
definition any__char :: "char \<Rightarrow> any" where
  "any__char value = \<lparr>raw = of_char value, ptr = None, type = type_id_char\<rparr>"

definition fmt_cstring :: "String \<Rightarrow> cstring \<Rightarrow> string \<Rightarrow> (s64 \<times> string) result" where
  "fmt_cstring out src buf =
     bindR (strcpy_s out src buf) (\<lambda>(written, buf).
     Inr (written + strlen (map_option (drop (nat written)) src), buf))"

definition any__fmt_any :: "String \<Rightarrow> any \<Rightarrow> string \<Rightarrow> (s64 \<times> string) result" where
  "any__fmt_any out value buf = (case type value of
     type_id_bool \<Rightarrow> fmt_cstring out (Some (if ucast (raw value) \<noteq> (0 :: u8) then ''true'' else ''false'')) buf
   | type_id_u8 \<Rightarrow> fmt_u64 out (raw value) buf
   | type_id_i8 \<Rightarrow> fmt_i64 out (sint (raw value)) buf
   | type_id_u16 \<Rightarrow> fmt_u64 out (raw value) buf
   | type_id_i16 \<Rightarrow> fmt_i64 out (sint (raw value)) buf
   | type_id_u32 \<Rightarrow> fmt_u64 out (raw value) buf
   | type_id_i32 \<Rightarrow> fmt_i64 out (sint (raw value)) buf
   | type_id_u64 \<Rightarrow> fmt_u64 out (raw value) buf
   | type_id_i64 \<Rightarrow> fmt_i64 out (sint (raw value)) buf
   | type_id_char \<Rightarrow>
       bindR (if str_count out \<ge> 1 then write_char (str_data out) 0 (char_of (unat (raw value) mod 256)) buf else Inr buf)
         (\<lambda>buf. Inr (1, buf))
   | type_id_char_ptr \<Rightarrow> (case ptr value of None \<Rightarrow> Inr (0, buf) | Some s \<Rightarrow> fmt_cstring out (Some s) buf)
   | type_id_unknown _ \<Rightarrow> Inr (-1, buf))"

function any__fmt_loop :: "String \<Rightarrow> string \<Rightarrow> s64 \<Rightarrow> any list \<Rightarrow> s64 \<Rightarrow> s64 \<Rightarrow> string \<Rightarrow> (s64 \<times> string) result" where
  "any__fmt_loop out fmt count args format_count written buf =
     (let len = str_count out; cur = (\<lambda>s. case s of [] \<Rightarrow> NUL | c # _ \<Rightarrow> c) in
      if cur fmt = NUL
      then (if format_count \<noteq> count then Inr (- format_count - 1, buf) else Inr (written, buf))
      else if cur fmt \<noteq> CHR ''%''
      then bindR (if written < len then write_char (str_data out) written (cur fmt) buf else Inr buf) (\<lambda>buf.
           any__fmt_loop out (tl fmt) count args format_count (written + 1) buf)
      else if cur (tl fmt) = CHR ''%''
      then bindR (if written < len then write_char (str_data out) written (CHR ''%'') buf else Inr buf) (\<lambda>buf.
           any__fmt_loop out (tl (tl fmt)) count args format_count (written + 1) buf)
      else if cur (tl fmt) \<noteq> CHR ''f'' then Inr (- format_count - 1, buf)
      else if format_count \<ge> count then Inr (- format_count - 1, buf)
      else bindR (Str__suffix out (min_s64 written len)) (\<lambda>suf.
           bindR (idxR args format_count) (\<lambda>arg.
           bindR (any__fmt_any suf arg buf) (\<lambda>(fmt_try, buf).
           if fmt_try < 0 then Inr (- format_count - 1, buf)
           else any__fmt_loop out (tl (tl fmt)) count args (format_count + 1) (written + fmt_try) buf))))"
  by pat_completeness auto
termination
  by (relation "measure (\<lambda>(out, fmt, count, args, fc, w, buf). length fmt)")
    (auto simp: NUL_def split: list.splits)

declare any__fmt_loop.simps [simp del]

definition any__fmt :: "String \<Rightarrow> string \<Rightarrow> s64 \<Rightarrow> any list \<Rightarrow> string \<Rightarrow> (s64 \<times> string) result" where
  "any__fmt out fmt count args buf = any__fmt_loop out fmt count args 0 0 buf"

end
