(* ===== verification/Format_Spec.thy ===== *)
theory Format_Spec
  imports Format
begin

text \<open>
  What the formatting functions write: a reference function for the text of every tagged value
  and of a format string, and the proof that the code writes exactly this text, cut off at the
  end of the output string, and returns its full length.
\<close>

section \<open>Writing text into a buffer\<close>

definition put_at :: "nat \<Rightarrow> string \<Rightarrow> string \<Rightarrow> string" where
  "put_at i t b = take i b @ t @ drop (i + length t) b"

lemma put_at_Nil [simp]: "put_at i [] b = b"
  by (simp add: put_at_def)

lemma length_put_at: "i + length t \<le> length b \<Longrightarrow> length (put_at i t b) = length b"
  by (simp add: put_at_def)

lemma put_at_append:
  "i + length t + length u \<le> length b \<Longrightarrow> put_at (i + length t) u (put_at i t b) = put_at i (t @ u) b"
  by (simp add: put_at_def add.assoc) (simp add: add.commute add.left_commute)

lemma put_at_single: "i < length b \<Longrightarrow> put_at i [c] b = b[i := c]"
  by (simp add: put_at_def upd_conv_take_nth_drop)

text \<open>Text \<open>t\<close> at position \<open>w\<close> of an output string of \<open>n\<close> characters that starts at \<open>off\<close>.\<close>

definition emit :: "nat \<Rightarrow> nat \<Rightarrow> nat \<Rightarrow> string \<Rightarrow> string \<Rightarrow> string" where
  "emit off n w t b = put_at (off + w) (take (n - w) t) b"

lemma emit_Nil [simp]: "emit off n w [] b = b"
  by (simp add: emit_def)

lemma emit_full [simp]: "n \<le> w \<Longrightarrow> emit off n w t b = b"
  by (simp add: emit_def)

lemma length_emit: "off + n \<le> length b \<Longrightarrow> length (emit off n w t b) = length b"
  by (cases "w < n") (auto simp: emit_def intro!: length_put_at)

lemma emit_append:
  assumes "off + n \<le> length b"
  shows "emit off n (w + length t) u (emit off n w t b) = emit off n w (t @ u) b"
proof (cases "w + length t \<le> n")
  case True
  have "off + w + length t + length (take (n - (w + length t)) u) \<le> length b" using assms True by simp
  then show ?thesis using True put_at_append [of "off + w" t "take (n - (w + length t)) u" b]
    by (simp add: emit_def add.assoc)
qed (simp add: emit_def)

lemma emit_Cons: "off + n \<le> length b \<Longrightarrow> emit off n (Suc w) t (emit off n w [c] b) = emit off n w (c # t) b"
  using emit_append [of off n b w "[c]" t] by simp

lemma emit_suffix: "emit (off + min w n) (n - min w n) 0 t b = emit off n w t b"
  by (cases "w \<le> n") (simp_all add: emit_def min_def)

definition valid_out :: "String \<Rightarrow> nat \<Rightarrow> nat \<Rightarrow> string \<Rightarrow> bool" where
  "valid_out out off n b \<longleftrightarrow> str_data out = Some (int off) \<and> str_count out = int n \<and> off + n \<le> length b \<and> int n < 2 ^ 63"

lemma write_emit:
  assumes "off + n \<le> length b"
  shows "(if w < n then write_char (Some (int off)) (int w) c b else Inr b) = Inr (emit off n w [c] b)"
proof (cases "w < n")
  case True
  then have "n - w = Suc (n - w - 1)" "off + w < length b" using assms by simp_all
  moreover have "nat (int off + int w) = off + w" by simp
  ultimately show ?thesis
    using True by (simp add: write_char_def updR_def emit_def put_at_single)
qed simp

lemma out_chars_eq:
  "off + n \<le> length b \<Longrightarrow> out_chars cs (Some (int off)) ix n b = Inr (ix + length cs, emit off n ix cs b)"
proof (induction cs arbitrary: ix b)
  case (Cons c cs)
  then show ?case
    using write_emit [OF Cons.prems, of ix c]
    by (simp add: out_buffer_def length_emit emit_Cons)
qed simp

section \<open>Decimal numbers\<close>

fun decimal :: "nat \<Rightarrow> string" where
  "decimal n = (if n < 10 then [char_of (48 + n)] else decimal (n div 10) @ [char_of (48 + n mod 10)])"

declare decimal.simps [simp del]

definition int_text :: "int \<Rightarrow> string" where
  "int_text i = (if i < 0 then CHR ''-'' # decimal (nat (- i)) else decimal (nat i))"

fun number_of :: "nat \<Rightarrow> string \<Rightarrow> nat" where
  "number_of acc [] = acc"
| "number_of acc (c # cs) = number_of (10 * acc + (of_char c - 48)) cs"

lemma number_of_append: "number_of acc (s @ t) = number_of (number_of acc s) t"
  by (induction s arbitrary: acc) auto

lemma number_of_decimal: "number_of 0 (decimal n) = n"
proof (induction n rule: decimal.induct)
  case (1 n)
  then show ?case by (subst decimal.simps) (auto simp: number_of_append)
qed

lemma length_decimal: "n < 10 ^ Suc k \<Longrightarrow> length (decimal n) \<le> Suc k"
proof (induction k arbitrary: n)
  case 0
  then show ?case by (simp add: decimal.simps)
next
  case (Suc k)
  then have "n div 10 < 10 ^ Suc k" by (simp add: less_mult_imp_div_less mult.commute)
  then show ?case using Suc.IH by (subst decimal.simps) simp
qed

lemma digit_char_decimal:
  assumes "unat d < 10"
  shows "digit_char d 0 = char_of (48 + unat d)"
proof -
  have "\<forall>k\<in>set [0..<10]. digit_char (of_nat k) 0 = (char_of (48 + k) :: char)" by code_simp
  moreover have "unat d \<in> set [0..<10]" using assms by simp
  ultimately have "digit_char (of_nat (unat d)) 0 = char_of (48 + unat d)" by blast
  then show ?thesis by simp
qed

lemma ntoa_digits_eq:
  "length tmp + length (decimal (unat value)) \<le> 32 \<Longrightarrow>
   ntoa_digits value 10 0 tmp = tmp @ rev (decimal (unat value))"
proof (induction "unat value" arbitrary: "value" tmp rule: less_induct)
  case less
  have d: "unat (value mod 10) = unat value mod 10" "unat (value div 10) = unat value div 10"
    by (simp_all add: unat_mod unat_div)
  have c: "digit_char (value mod 10) 0 = char_of (48 + unat value mod 10)"
    using digit_char_decimal [of "value mod 10"] d(1) by simp
  have nz: "value div 10 = 0 \<longleftrightarrow> unat value < 10" using d(2) by (metis div_eq_0_iff unat_eq_zero zero_neq_numeral)
  show ?case
  proof (cases "unat value < 10")
    case True
    then show ?thesis using c nz
      by (subst ntoa_digits.simps) (simp add: Let_def decimal.simps [of "unat value"])
  next
    case False
    then have dec: "decimal (unat value) = decimal (unat (value div 10)) @ [char_of (48 + unat value mod 10)]"
      using d(2) by (subst decimal.simps) simp
    have pos: "1 \<le> length (decimal (unat (value div 10)))" by (subst decimal.simps) simp
    have "ntoa_digits (value div 10) 10 0 (tmp @ [digit_char (value mod 10) 0])
        = (tmp @ [digit_char (value mod 10) 0]) @ rev (decimal (unat (value div 10)))"
      using less.prems False by (intro less.hyps) (simp_all add: d(2) dec [unfolded d(2)])
    moreover have "length (tmp @ [digit_char (value mod 10) 0]) < PRINTF_NTOA_BUFFER_SIZE"
      using less.prems pos unfolding dec PRINTF_NTOA_BUFFER_SIZE_def length_append list.size by linarith
    ultimately show ?thesis using False nz c
      by (subst ntoa_digits.simps) (simp add: Let_def dec)
  qed
qed

lemma flag_zero [simp]: "\<not> flag 0 f"
  by (simp add: flag_def)

lemma ntoa_long_eq:
  assumes "off + n \<le> length b"
    and t: "t = (if negative then CHR ''-'' # decimal (unat value) else decimal (unat value))"
  shows "ntoa_long (Some (int off)) 0 n value negative 10 0 0 0 b = Inr (length t, emit off n 0 t b)"
proof -
  have "unat value < 2 ^ 64" using unsigned_less [of "value"] by simp
  then have l: "length (decimal (unat value)) \<le> 20" using length_decimal [of "unat value" 19] by simp
  then have digits: "ntoa_digits value 10 0 [] = rev (decimal (unat value))" using ntoa_digits_eq [of "[]" "value"] by simp
  have pad: "pad_zeros 0 tmp = tmp" for tmp by (simp add: pad_zeros.simps)
  have "(if value = 0 then 0 AND NOT FLAGS_HASH else 0) = (0 :: u32)" by simp
  then have "ntoa_long (Some (int off)) 0 n value negative 10 0 0 0 b
      = ntoa_format (Some (int off)) 0 n (rev (decimal (unat value))) negative 10 0 0 0 b"
    unfolding ntoa_long_def Let_def by (simp only: digits flag_zero) simp
  then show ?thesis
    using l t pad out_chars_eq [OF assms(1)]
    by (simp add: ntoa_format_def out_rev_def push_tmp_def PRINTF_NTOA_BUFFER_SIZE_def Let_def)
qed

lemma valid_outD:
  assumes "valid_out out off n b"
  shows "str_data out = Some (int off)" "str_count out = int n" "off + n \<le> length b" "unat (U64 (str_count out)) = n"
  using assms by (auto simp: valid_out_def unat_of_nat_small)

lemma fmt_u64_eq:
  assumes "valid_out out off n b"
  shows "fmt_u64 out value b = Inr (int (length (decimal (unat value))), emit off n 0 (decimal (unat value)) b)"
  using ntoa_long_eq [OF valid_outD(3) [OF assms] refl, of "value" False] valid_outD [OF assms]
  by (simp add: fmt_u64_def)

lemma fmt_i64_eq:
  assumes "valid_out out off n b" "- (2 ^ 63) < value" "value < 2 ^ 63"
  shows "fmt_i64 out value b = Inr (int (length (int_text value)), emit off n 0 (int_text value) b)"
proof -
  note V = valid_outD [OF assms(1)]
  define a where "a = \<bar>value\<bar>"
  define v where "v = U64 a"
  have a: "0 \<le> a" "a < 2 ^ 64" "value < 0 \<Longrightarrow> nat (- value) = nat a" "\<not> value < 0 \<Longrightarrow> nat value = nat a"
    using assms(2,3) by (auto simp: a_def)
  have c: "(if value < 0 then s64_chk (- value) else Inr value) = Inr a"
    using assms(2,3) by (simp add: s64_ok_def a_def)
  have u: "unat v = nat a"
    using a(1,2) by (simp add: v_def unat_eq_nat_uint uint_word_of_int_small)
  have t: "(if value < 0 then CHR ''-'' # decimal (unat v) else decimal (unat v)) = int_text value"
    using a(3,4) by (simp add: int_text_def u)
  show ?thesis
    using ntoa_long_eq [OF V(3) t [symmetric]] V(1,4)
    by (simp add: fmt_i64_def c v_def [symmetric] del: of_int_of_nat_eq)
qed

lemma fmt_i64_min: "fmt_i64 out (- (2 ^ 63)) b = Inl SignedOverflow"
  by (simp add: fmt_i64_def s64_chk_def s64_ok_def)

section \<open>C strings\<close>

definition ctext :: "string \<Rightarrow> string" where
  "ctext s = takeWhile (\<lambda>c. c \<noteq> NUL) s"

lemma strlen_from_eq: "strlen_from s i = i + int (length (ctext s))"
  by (induction s arbitrary: i) (auto simp: ctext_def)

lemma strcpy_loop_eq:
  assumes "str_data out = Some (int off)" "str_count out = int n" "off + n \<le> length b"
  shows "strcpy_loop out s (int w) b = Inr (int (w + min (length (ctext s)) (n - w)), emit off n w (ctext s) b)"
  using assms(3)
proof (induction s arbitrary: w b)
  case (Cons c s)
  show ?case
  proof (cases "w < n \<and> c \<noteq> NUL")
    case True
    then have t: "ctext (c # s) = c # ctext s" by (simp add: ctext_def)
    have wr: "write_char (Some (int off)) (int w) c b = Inr (emit off n w [c] b)"
      using write_emit [OF Cons.prems, of w c] True by simp
    have "strcpy_loop out s (int (Suc w)) (emit off n w [c] b)
        = Inr (int (Suc w + min (length (ctext s)) (n - Suc w)), emit off n (Suc w) (ctext s) (emit off n w [c] b))"
      by (rule Cons.IH) (simp add: length_emit Cons.prems)
    moreover have "w + min (Suc (length (ctext s))) (n - w) = Suc w + min (length (ctext s)) (n - Suc w)"
      using True unfolding min_def by (simp split: if_splits) linarith
    ultimately show ?thesis using True wr assms(1,2) emit_Cons [OF Cons.prems]
      by (simp add: t add.commute)
  qed (use assms(2) in \<open>auto simp: ctext_def\<close>)
qed (simp add: ctext_def)

lemma ctext_drop: "k \<le> length (ctext s) \<Longrightarrow> ctext (drop k s) = drop k (ctext s)"
proof (induction s arbitrary: k)
  case (Cons c s)
  then show ?case by (cases k; cases "c = NUL") (auto simp: ctext_def)
qed (simp add: ctext_def)

lemma fmt_cstring_eq:
  assumes "valid_out out off n b"
  shows "fmt_cstring out (Some s) b = Inr (int (length (ctext s)), emit off n 0 (ctext s) b)"
proof -
  note V = valid_outD [OF assms]
  have "strcpy_loop out s 0 b = Inr (int (min (length (ctext s)) n), emit off n 0 (ctext s) b)"
    using strcpy_loop_eq [OF V(1-3), of s 0] by simp
  then show ?thesis
    using ctext_drop [of "min (length (ctext s)) n" s]
    by (simp add: fmt_cstring_def strcpy_s_def strlen_def strlen_from_eq del: min_less_iff_conj)
qed

section \<open>Tagged values\<close>

definition signed_type :: "type_id \<Rightarrow> bool" where
  "signed_type t \<longleftrightarrow> t \<in> {type_id_i8, type_id_i16, type_id_i32, type_id_i64}"

definition any_text :: "any \<Rightarrow> string option" where
  "any_text a = (case type a of
     type_id_bool \<Rightarrow> Some (if ucast (raw a) \<noteq> (0 :: u8) then ''true'' else ''false'')
   | type_id_char \<Rightarrow> Some [char_of (unat (raw a) mod 256)]
   | type_id_char_ptr \<Rightarrow> Some (case ptr a of None \<Rightarrow> [] | Some s \<Rightarrow> ctext s)
   | type_id_unknown _ \<Rightarrow> None
   | t \<Rightarrow> Some (if signed_type t then int_text (sint (raw a)) else decimal (unat (raw a))))"

definition any_ok :: "any \<Rightarrow> bool" where
  "any_ok a \<longleftrightarrow> \<not> (signed_type (type a) \<and> sint (raw a) = - (2 ^ 63))"

lemma any__fmt_any_eq:
  assumes out: "valid_out out off n b" and ok: "any_ok a"
  shows "any__fmt_any out a b = (case any_text a of
           Some t \<Rightarrow> Inr (int (length t), emit off n 0 t b) | None \<Rightarrow> Inr (-1, b))"
proof -
  note V = valid_outD [OF out]
  have "- (2 ^ 63) \<le> sint (raw a)" "sint (raw a) < 2 ^ 63"
    using sint_range_size [of "raw a"] by (auto simp: word_size)
  then have i: "fmt_i64 out (sint (raw a)) b = Inr (int (length (int_text (sint (raw a)))), emit off n 0 (int_text (sint (raw a))) b)"
    if "signed_type (type a)" using that ok fmt_i64_eq [OF out] by (simp add: any_ok_def)
  have bools: "ctext ''true'' = ''true''" "ctext ''false'' = ''false''" by (simp_all add: ctext_def NUL_def)
  have ch: "(if str_count out \<ge> 1 then write_char (str_data out) 0 c b else Inr b) = Inr (emit off n 0 [c] b)" for c
    using write_emit [OF V(3), of 0 c] V(1,2) by auto
  show ?thesis
    by (cases "type a") (simp_all add: any__fmt_any_def any_text_def fmt_u64_eq [OF out] i signed_type_def
        fmt_cstring_eq [OF out] bools ch split: option.splits)
qed

section \<open>Format strings\<close>

text \<open>
  The text of a format string with its arguments: the characters produced before the end or the
  first error, the number of arguments used up to there, and whether the whole string was
  processed with no argument left.
\<close>

fun fmt_text :: "string \<Rightarrow> any list \<Rightarrow> string \<times> nat \<times> bool" where
  "fmt_text [] args = ([], 0, args = [])"
| "fmt_text (c # fmt) args =
     (if c = NUL then ([], 0, args = [])
      else if c \<noteq> CHR ''%'' then (let (t, k, ok) = fmt_text fmt args in (c # t, k, ok))
      else (case fmt of [] \<Rightarrow> ([], 0, False) | d # fmt' \<Rightarrow>
        if d = CHR ''%'' then (let (t, k, ok) = fmt_text fmt' args in (d # t, k, ok))
        else if d \<noteq> CHR ''f'' then ([], 0, False)
        else (case args of [] \<Rightarrow> ([], 0, False) | a # args' \<Rightarrow>
          (case any_text a of None \<Rightarrow> ([], 0, False)
           | Some t \<Rightarrow> (let (u, k, ok) = fmt_text fmt' args' in (t @ u, Suc k, ok))))))"

lemma valid_out_emit: "valid_out out off n b \<Longrightarrow> valid_out out off n (emit off n w t b)"
  by (simp add: valid_out_def length_emit)

lemma valid_out_suffix:
  assumes "valid_out out off n b"
  obtains suf where "Str__suffix out (min_s64 (int w) (str_count out)) = Inr suf"
    and "valid_out suf (off + min w n) (n - min w n) b"
proof -
  note V = valid_outD [OF assms]
  have "min_s64 (int w) (str_count out) = int (min w n)" by (simp add: min_s64_def V(2) min_def)
  then show thesis
    using assms V(1-3) that [of "\<lparr>str_data = Some (int off + int (min w n)), str_count = int n - int (min w n)\<rparr>"]
    by (auto simp: Str__suffix_def valid_out_def of_nat_diff)
qed

definition fmt_result :: "nat \<Rightarrow> nat \<Rightarrow> string \<times> nat \<times> bool \<Rightarrow> int" where
  "fmt_result w k r = (case r of (t, j, ok) \<Rightarrow> if ok then int (w + length t) else - int (k + j) - 1)"

lemma fmt_write:
  assumes "valid_out out off n b"
  shows "(if int w < str_count out then write_char (str_data out) (int w) c b else Inr b) = Inr (emit off n w [c] b)"
  unfolding valid_outD(1,2) [OF assms] of_nat_less_iff by (rule write_emit [OF valid_outD(3) [OF assms]])

text \<open>One directive \<^verbatim>\<open>%f\<close> of the loop: the text of the next argument, or the end with an error.\<close>

lemma any__fmt_loop_arg:
  assumes v: "valid_out out off n b" and k: "k < length args" "any_ok (args ! k)"
  shows "any__fmt_loop out (CHR ''%'' # CHR ''f'' # fmt) (int (length args)) args (int k) (int w) b
    = (case any_text (args ! k) of None \<Rightarrow> Inr (fmt_result w k (fmt_text (CHR ''%'' # CHR ''f'' # fmt) (drop k args)), b)
       | Some t \<Rightarrow> any__fmt_loop out fmt (int (length args)) args (int (Suc k)) (int (w + length t)) (emit off n w t b))"
proof -
  have a: "drop k args = args ! k # drop (Suc k) args" using k(1) by (simp add: Cons_nth_drop_Suc)
  obtain suf where suf: "Str__suffix out (min_s64 (int w) (str_count out)) = Inr suf"
    "valid_out suf (off + min w n) (n - min w n) b" using valid_out_suffix [OF v] .
  note fa = any__fmt_any_eq [OF suf(2) k(2), unfolded emit_suffix]
  show ?thesis
  proof (cases "any_text (args ! k)")
    case None
    then show ?thesis using k(1) a fa by (subst any__fmt_loop.simps) (simp add: suf(1) fmt_result_def NUL_def)
  next
    case (Some t)
    then show ?thesis using k(1) fa by (subst any__fmt_loop.simps) (simp add: suf(1) NUL_def add.commute)
  qed
qed

lemma any__fmt_loop_eq:
  assumes "valid_out out off n b" "k \<le> length args" "\<forall>a\<in>set args. any_ok a"
  shows "any__fmt_loop out fmt (int (length args)) args (int k) (int w) b
       = Inr (fmt_result w k (fmt_text fmt (drop k args)), emit off n w (fst (fmt_text fmt (drop k args))) b)"
  using assms(1,2)
proof (induction fmt arbitrary: k w b rule: length_induct)
  case (1 fmt)
  note V = valid_outD [OF 1(2)] and wr = fmt_write [OF 1(2)] and un = any__fmt_loop.simps [of out fmt]
  have IH: "any__fmt_loop out fmt' (int (length args)) args (int k') (int w') (emit off n w t b)
      = Inr (fmt_result w' k' (fmt_text fmt' (drop k' args)),
             emit off n w (t @ fst (fmt_text fmt' (drop k' args))) b)"
    if "length fmt' < length fmt" "k' \<le> length args" "w' = w + length t" for fmt' k' w' t
    using 1(1) [rule_format, OF that(1) valid_out_emit [OF 1(2)] that(2)] emit_append [OF V(3)] that(3)
    by (simp del: of_nat_add)
  have stop: "k = length args \<longleftrightarrow> drop k args = []" using 1(3) by auto
  consider (stops) "fmt = [] \<or> hd fmt = NUL"
    | (lit) c fmt' where "fmt = c # fmt'" "c \<noteq> NUL" "c \<noteq> CHR ''%''"
    | (pct) fmt' where "fmt = CHR ''%'' # CHR ''%'' # fmt'"
    | (bad) fmt' where "fmt = CHR ''%'' # fmt'" "fmt' = [] \<or> hd fmt' \<noteq> CHR ''%'' \<and> hd fmt' \<noteq> CHR ''f''"
    | (arg) fmt' where "fmt = CHR ''%'' # CHR ''f'' # fmt'"
    by (metis list.collapse)
  then show ?case
  proof cases
    case stops
    then show ?thesis using 1(3) stop by (subst un) (cases fmt; auto simp: fmt_result_def)
  next
    case lit
    have "any__fmt_loop out fmt (int (length args)) args (int k) (int w) b
        = any__fmt_loop out fmt' (int (length args)) args (int k) (int (Suc w)) (emit off n w [c] b)"
      using lit by (subst un) (simp add: wr add.commute)
    then show ?thesis using IH [of fmt' k "Suc w" "[c]"] 1(3) lit
      by (simp add: fmt_result_def split: prod.splits)
  next
    case pct
    have "any__fmt_loop out fmt (int (length args)) args (int k) (int w) b
        = any__fmt_loop out fmt' (int (length args)) args (int k) (int (Suc w)) (emit off n w [CHR ''%''] b)"
      using pct by (subst un) (simp add: wr NUL_def add.commute)
    then show ?thesis using IH [of fmt' k "Suc w" "[CHR ''%'']"] 1(3) pct
      by (simp add: fmt_result_def NUL_def split: prod.splits)
  next
    case bad
    then show ?thesis by (subst un) (cases fmt'; auto simp: fmt_result_def NUL_def)
  next
    case arg
    show ?thesis
    proof (cases "k < length args")
      case False
      then show ?thesis using arg by (subst un) (simp add: fmt_result_def NUL_def)
    next
      case True
      then have a: "drop k args = args ! k # drop (Suc k) args" "any_ok (args ! k)"
        using assms(3) by (simp_all add: Cons_nth_drop_Suc)
      note step = any__fmt_loop_arg [OF 1(2) True a(2), of fmt' w]
      show ?thesis
      proof (cases "any_text (args ! k)")
        case None
        then show ?thesis using arg a(1) by (simp add: step NUL_def)
      next
        case (Some t)
        then show ?thesis using IH [of fmt' "Suc k" "w + length t" t] True arg a(1)
          by (simp add: step fmt_result_def NUL_def split: prod.splits)
      qed
    qed
  qed
qed

section \<open>Properties\<close>

lemma take_drop_emit:
  assumes "off + n \<le> length b"
  shows "take off (emit off n w t b) = take off b" "drop (off + n) (emit off n w t b) = drop (off + n) b"
proof -
  have "take off (put_at (off + w) u b) = take off b" if "off \<le> length b" for u
    using that by (simp add: put_at_def min_def)
  moreover have "drop (off + n) (put_at (off + w) u b) = drop (off + n) b" if "w + length u \<le> n" for u
    using that assms by (simp add: put_at_def) (simp add: add.commute)
  ultimately show "take off (emit off n w t b) = take off b" "drop (off + n) (emit off n w t b) = drop (off + n) b"
    using assms by (cases "w < n"; simp add: emit_def)+
qed

lemma take_emit:
  "off + n \<le> length b \<Longrightarrow> length t \<le> n \<Longrightarrow> take (length t) (drop off (emit off n 0 t b)) = t"
  by (simp add: emit_def put_at_def)

text \<open>C27. \<^verbatim>\<open>any__fmt\<close> returns for every format string and every argument list and writes exactly
  the reference text, cut off at the end of the output string: literal characters, \<^verbatim>\<open>%%\<close> as one
  percent sign, and each \<^verbatim>\<open>%f\<close> replaced by the text of the next argument. It returns the full
  length of the text when the string and the arguments match, and otherwise minus the one-based
  index of the argument at which it stopped.\<close>

theorem any__fmt_correct:
  assumes "valid_out out off n b" "\<forall>a\<in>set args. any_ok a"
  shows "any__fmt out fmt (int (length args)) args b
       = Inr (fmt_result 0 0 (fmt_text fmt args), emit off n 0 (fst (fmt_text fmt args)) b)"
  using any__fmt_loop_eq [OF assms(1) _ assms(2), of 0 fmt 0] by (simp add: any__fmt_def)

definition sample_out :: String where
  "sample_out = \<lparr>str_data = Some 2, str_count = 8\<rparr>"

theorem any__fmt_correct_witness:
  "any__fmt sample_out ''ab%f%%cd%f'' 2 [any__u64 42, any__char_ptr (Some ''long'')] ''..........!''
     = Inr (11, ''..ab42%cdl!'')"
proof -
  have "decimal 42 = ''42''" by code_simp
  then have "fmt_text ''ab%f%%cd%f'' [any__u64 42, any__char_ptr (Some ''long'')] = (''ab42%cdlong'', 2, True)"
    by (simp add: any_text_def any__u64_def any__char_ptr_def signed_type_def ctext_def NUL_def)
  moreover have "emit 2 8 0 ''ab42%cdlong'' ''..........!'' = ''..ab42%cdl!''" by (simp add: emit_def put_at_def)
  moreover have "valid_out sample_out 2 8 ''..........!''" by (simp add: valid_out_def sample_out_def)
  moreover have "\<forall>a\<in>set [any__u64 42, any__char_ptr (Some ''long'')]. any_ok a"
    by (simp add: any_ok_def any__u64_def any__char_ptr_def signed_type_def)
  ultimately show ?thesis
    using any__fmt_correct [of sample_out 2 8 "''..........!''"
        "[any__u64 42, any__char_ptr (Some ''long'')]" "''ab%f%%cd%f''"]
    by (simp add: fmt_result_def)
qed

text \<open>Formatting never writes outside the output string, whatever the format string, the
  arguments and the room left: the bytes before and after the output keep their values.\<close>

theorem any__fmt_in_bounds:
  assumes "valid_out out off n b" "\<forall>a\<in>set args. any_ok a"
  shows "\<exists>r b'. any__fmt out fmt (int (length args)) args b = Inr (r, b') \<and> length b' = length b
           \<and> take off b' = take off b \<and> drop (off + n) b' = drop (off + n) b"
  using any__fmt_loop_eq [OF assms(1) _ assms(2), of 0 fmt 0] valid_outD(3) [OF assms(1)]
  by (simp add: any__fmt_def length_emit take_drop_emit)

theorem any__fmt_in_bounds_witness:
  "\<exists>r b'. any__fmt sample_out ''%f and %x'' 2 [any__char_ptr (Some ''a long string''), any__bool True] ''..........!'' = Inr (r, b')
     \<and> length b' = 11 \<and> take 2 b' = ''..'' \<and> drop 10 b' = ''!''"
  using any__fmt_in_bounds [of sample_out 2 8 "''..........!''"
      "[any__char_ptr (Some ''a long string''), any__bool True]" "''%f and %x''"]
  by (simp add: valid_out_def sample_out_def any_ok_def any__char_ptr_def any__bool_def signed_type_def
      eval_nat_numeral)

text \<open>C28. \<^verbatim>\<open>fmt_u64\<close> writes the decimal digits of its argument: into an output of at least 20
  characters every 64-bit value is written in full, the return value is the number of digits, and
  reading the digits back gives the value.\<close>

theorem fmt_u64_roundtrip:
  assumes "valid_out out off n b" "20 \<le> n"
  shows "\<exists>r b'. fmt_u64 out v b = Inr (int r, b') \<and> 1 \<le> r \<and> r \<le> 20
           \<and> number_of 0 (take r (drop off b')) = unat v \<and> drop (off + r) b' = drop (off + r) b"
proof -
  have l: "length (decimal (unat v)) \<le> 20"
    using length_decimal [of "unat v" 19] unsigned_less [where ?'a = nat, of v] by simp
  moreover have "1 \<le> length (decimal (unat v))" by (subst decimal.simps) simp
  moreover have "drop (off + length t) (emit off n 0 t b) = drop (off + length t) b" if "length t \<le> n" for t
    using that valid_outD(3) [OF assms(1)] by (auto simp: emit_def put_at_def min_def simp flip: length_0_conv)
  ultimately show ?thesis
    using fmt_u64_eq [OF assms(1), of v] take_emit [OF valid_outD(3) [OF assms(1)], of "decimal (unat v)"] assms(2)
    by (auto simp: number_of_decimal)
qed

theorem fmt_u64_roundtrip_witness:
  "\<exists>r b'. fmt_u64 \<lparr>str_data = Some 1, str_count = 20\<rparr> 18446744073709551615 (replicate 24 CHR ''.'') = Inr (int r, b')
     \<and> number_of 0 (take r (drop 1 b')) = 18446744073709551615"
  using fmt_u64_roundtrip [of "\<lparr>str_data = Some 1, str_count = 20\<rparr>" 1 20 "replicate 24 CHR ''.''" "18446744073709551615"]
  by (auto simp: valid_out_def)

text \<open>\<^verbatim>\<open>fmt_i64\<close> writes every signed value but the least one with its sign; for the least value
  the negation \<^verbatim>\<open>-value\<close> overflows before anything is written.\<close>

theorem fmt_i64_values:
  assumes "valid_out out off n b" "s64_ok v"
  shows "fmt_i64 out v b = (if v = - (2 ^ 63) then Inl SignedOverflow
           else Inr (int (length (int_text v)), emit off n 0 (int_text v) b))"
  using assms(2) fmt_i64_min [of out b] fmt_i64_eq [OF assms(1), of v] by (auto simp: s64_ok_def)

theorem fmt_i64_values_witness:
  "fmt_i64 sample_out (-42) ''..........!'' = Inr (3, ''..-42.....!'')
   \<and> fmt_i64 sample_out (- (2 ^ 63)) ''..........!'' = Inl SignedOverflow"
proof -
  have v: "valid_out sample_out 2 8 ''..........!''" by (simp add: valid_out_def sample_out_def)
  have "int_text (-42) = ''-42''" by code_simp
  moreover have "emit 2 8 0 ''-42'' ''..........!'' = ''..-42.....!''" by code_simp
  ultimately show ?thesis
    using fmt_i64_values [OF v, of "-42"] fmt_i64_values [OF v, of "- (2 ^ 63)"] by (simp add: s64_ok_def)
qed

end
