(* ===== verification/Logging.thy ===== *)
theory Logging
  imports Format_Spec Sync
begin

text \<open>
  The serial log of \<^verbatim>\<open>src/kern/__lib_impl__.c\<close>. The state has the two atomics, the shared
  buffer and the characters sent to the serial port so far. The log functions run alone, so a
  mutex that is already held is never released (\<open>lock_loop\<close>). An assertion that fails while the
  mutex is held calls \<^verbatim>\<open>ext__log_fmt\<close> again before it shuts the machine down, and so does a
  format error: both are the recursive call of the model. The parameter \<open>tries\<close> lists the spurious
  failures of the weak compare-and-exchange in \<^verbatim>\<open>Mutex__try_lock\<close>.
\<close>

record sloc =
  loc_file :: cstring
  loc_line :: u32

record logging =
  UseInterrupts :: bool
  LoggingMutex :: u8
  log_buffer :: string
  serial :: string

definition BUF_SIZE :: s64 where
  "BUF_SIZE = 200"

definition write_prefix_to_buffer :: "String \<Rightarrow> sloc \<Rightarrow> string \<Rightarrow> (s64 \<times> string) result" where
  "write_prefix_to_buffer out loc buf =
     any__fmt out ''[%f:%f]: '' 2 [any__char_ptr (loc_file loc), any__u64 (ucast (loc_line loc))] buf"

definition serial__write :: "char \<Rightarrow> logging \<Rightarrow> logging" where
  "serial__write a st = st\<lparr>serial := serial st @ [a]\<rparr>"

text \<open>\<^verbatim>\<open>for (s64 i = 0; i < written; i++) serial__write(buffer[i]);\<close>\<close>

fun write_loop :: "nat \<Rightarrow> s64 \<Rightarrow> logging \<Rightarrow> logging result" where
  "write_loop 0 i st = Inr st"
| "write_loop (Suc n) i st = bindR (idxR (log_buffer st) i) (\<lambda>c. write_loop n (i + 1) (serial__write c st))"

definition clip_suffix :: string where
  "clip_suffix = ''... [clipped]''"

text \<open>The end of both log functions: lines 58--68 and 95--105.\<close>

definition finish_log :: "String \<Rightarrow> s64 \<Rightarrow> logging \<Rightarrow> logging result" where
  "finish_log out written st =
     bindR (if written > BUF_SIZE
            then bindR (Str__suffix out (str_count out - strlen (Some clip_suffix))) (\<lambda>suf.
                 bindR (strcpy_s suf (Some clip_suffix) (log_buffer st)) (\<lambda>(_, buf).
                 Inr (BUF_SIZE, st\<lparr>log_buffer := buf\<rparr>)))
            else Inr (written, st)) (\<lambda>(written, st).
     bindR (write_loop (nat written) 0 st) (\<lambda>st.
     let st = serial__write (CHR 0x0A) st in
     Inr (st\<lparr>LoggingMutex := Mutex__unlock (LoggingMutex st)\<rparr>)))"

definition assert_loc :: sloc where
  "assert_loc = \<lparr>loc_file = Some ''./lib/basics.h'', loc_line = 151\<rparr>"

function ext__log_fmt :: "bool list \<Rightarrow> sloc \<Rightarrow> string \<Rightarrow> s64 \<Rightarrow> any list \<Rightarrow> logging \<Rightarrow> logging result" where
  "ext__log_fmt tries loc fmt count args st =
     (if UseInterrupts st then Inr st else
      bindR (lock_loop tries (LoggingMutex st)) (\<lambda>mtx.
      let st = st\<lparr>LoggingMutex := mtx\<rparr>;
          out = Str__new (Some 0) BUF_SIZE in
      bindR (write_prefix_to_buffer out loc (log_buffer st)) (\<lambda>(written, buf).
      let st = st\<lparr>log_buffer := buf\<rparr> in
      case Str__suffix out written of
        Inl (Panic e) \<Rightarrow>
          bindR (ext__log_fmt tries assert_loc ''failed assertion: `%f`'' 1 [any__char_ptr (Some e)] st)
            (\<lambda>_. Inl (Shutdown 1))
      | Inl e \<Rightarrow> Inl e
      | Inr suf \<Rightarrow>
          bindR (any__fmt suf fmt count args (log_buffer st)) (\<lambda>(fmt_try, buf).
          let st = st\<lparr>log_buffer := buf\<rparr> in
          if fmt_try < 0
          then (if fmt_try < - count - 1
                then bindR (ext__log_fmt tries loc ''too many parameters (expected %f, got %f)'' 2
                       [any__i64 (- fmt_try), any__i64 count] st) (\<lambda>_. Inl (Shutdown 1))
                else bindR (ext__log_fmt tries loc ''failed to log parameter at index %f'' 1
                       [any__i64 (- fmt_try - 1)] st) (\<lambda>_. Inl (Shutdown 1)))
          else finish_log out (written + fmt_try) st))))"
  by pat_completeness auto
termination
  by (relation "measure (\<lambda>(tries, loc, fmt, count, args, st). if LoggingMutex st = 0 then 1 else 0)")
    (auto split: if_splits)

declare ext__log_fmt.simps [simp del]

text \<open>The loop of \<^verbatim>\<open>ext__log\<close>: lines 52--56.\<close>

fun log_args :: "bool list \<Rightarrow> String \<Rightarrow> any list \<Rightarrow> s64 \<Rightarrow> logging \<Rightarrow> (s64 \<times> logging) result" where
  "log_args tries out [] written st = Inr (written, st)"
| "log_args tries out (arg # args) written st =
     bindR (Str__suffix out (min_s64 written BUF_SIZE)) (\<lambda>suf.
     bindR (any__fmt_any suf arg (log_buffer st)) (\<lambda>(fmt_try, buf).
     let st = st\<lparr>log_buffer := buf\<rparr> in
     if fmt_try \<ge> 0 then log_args tries out args (written + fmt_try) st
     else bindR (ext__log_fmt tries \<lparr>loc_file = Some ''./kern/__lib_impl__.c'', loc_line = 54\<rparr> ''failed assertion: `%f`'' 1
            [any__char_ptr (Some ''fmt_try >= 0'')] st) (\<lambda>_. Inl (Shutdown 1))))"

definition ext__log :: "bool list \<Rightarrow> sloc \<Rightarrow> any list \<Rightarrow> logging \<Rightarrow> logging result" where
  "ext__log tries loc args st =
     (if UseInterrupts st then Inr st else
      bindR (lock_loop tries (LoggingMutex st)) (\<lambda>mtx.
      let st = st\<lparr>LoggingMutex := mtx\<rparr>;
          out = Str__new (Some 0) BUF_SIZE in
      bindR (write_prefix_to_buffer out loc (log_buffer st)) (\<lambda>(written, buf).
      bindR (log_args tries out args written (st\<lparr>log_buffer := buf\<rparr>)) (\<lambda>(written, st).
      finish_log out written st))))"

section \<open>The text of a line\<close>

definition prefix_text :: "sloc \<Rightarrow> string" where
  "prefix_text loc = ''['' @ (case loc_file loc of None \<Rightarrow> [] | Some s \<Rightarrow> ctext s) @ '':'' @ decimal (unat (loc_line loc)) @ '']: ''"

definition clip :: "string \<Rightarrow> string" where
  "clip t = (if length t > 200 then take 187 t @ clip_suffix else t)"

definition log_line :: "string \<Rightarrow> string" where
  "log_line t = clip t @ [CHR 0x0A]"

definition log_ok :: "logging \<Rightarrow> bool" where
  "log_ok st \<longleftrightarrow> LoggingMutex st = 0 \<and> length (log_buffer st) = 200"

abbreviation log_out :: String where
  "log_out \<equiv> \<lparr>str_data = Some 0, str_count = 200\<rparr>"

lemma valid_log_out: "length b = 200 \<Longrightarrow> valid_out log_out 0 200 b"
  by (simp add: valid_out_def)

lemma Str__new_log [simp]: "Str__new (Some 0) BUF_SIZE = log_out"
  by (simp add: Str__new_def BUF_SIZE_def)

lemma unat_ucast_up: "unat (ucast (x :: u32) :: u64) = unat x"
proof -
  have "unat x < 2 ^ 64" using unsigned_less [where ?'a = nat, of x] by simp
  then show ?thesis by (simp add: unsigned_ucast_eq take_bit_nat_eq_self)
qed

lemma write_prefix_eq:
  assumes "length b = 200"
  shows "write_prefix_to_buffer log_out loc b = Inr (int (length (prefix_text loc)), emit 0 200 0 (prefix_text loc) b)"
proof -
  define args where "args = [any__char_ptr (loc_file loc), any__u64 (ucast (loc_line loc))]"
  have "\<forall>a\<in>set args. any_ok a"
    by (simp add: args_def any_ok_def any__char_ptr_def any__u64_def signed_type_def)
  moreover have "fmt_text ''[%f:%f]: '' args = (prefix_text loc, 2, True)"
    by (simp add: args_def any_text_def any__char_ptr_def any__u64_def signed_type_def prefix_text_def NUL_def
        unat_ucast_up split: option.splits)
  ultimately show ?thesis
    using any__fmt_loop_eq [OF valid_log_out [OF assms], of 0 args "''[%f:%f]: ''" 0]
    by (simp add: write_prefix_to_buffer_def any__fmt_def args_def fmt_result_def)
qed

lemma write_loop_eq:
  "i + n \<le> length (log_buffer st) \<Longrightarrow>
   write_loop n (int i) st = Inr (st\<lparr>serial := serial st @ take n (drop i (log_buffer st))\<rparr>)"
proof (induction n arbitrary: i st)
  case (Suc n)
  then show ?case
    using Suc.IH [of "Suc i" "serial__write (log_buffer st ! i) st"]
    by (simp add: serial__write_def take_Suc_conv_app_nth Cons_nth_drop_Suc [symmetric] add.commute)
qed simp

lemma take_emit_clip: "length b = n \<Longrightarrow> take (length t) (emit 0 n 0 t b) = take n t"
  by (simp add: emit_def put_at_def min_def)

lemma finish_log_eq:
  assumes "length b = 200" "log_buffer st = emit 0 200 0 t b"
  obtains buf where "length buf = 200"
    "finish_log log_out (int (length t)) st
     = Inr (st\<lparr>log_buffer := buf, serial := serial st @ log_line t, LoggingMutex := 0\<rparr>)"
proof (cases "length t > 200")
  case False
  have len: "length (log_buffer st) = 200" using assms by (simp add: length_emit)
  then show thesis
    using False write_loop_eq [of 0 "length t" st] take_emit_clip [OF assms(1), of t] assms(2)
    by (intro that [OF len]) (simp add: finish_log_def BUF_SIZE_def serial__write_def Mutex__unlock_def log_line_def clip_def)
next
  case True
  have len: "length (log_buffer st) = 200" using assms by (simp add: length_emit)
  have cs: "ctext clip_suffix = clip_suffix" "strlen (Some clip_suffix) = 13" "length clip_suffix = 13"
    by (simp_all add: ctext_def clip_suffix_def NUL_def strlen_def)
  define buf where "buf = take 187 t @ clip_suffix"
  have "log_buffer st = take 200 t" using assms True by (simp add: emit_def put_at_def)
  then have e: "emit 187 13 0 clip_suffix (log_buffer st) = buf"
    using True by (simp add: emit_def put_at_def cs(3) buf_def min_def)
  have suf: "Str__suffix log_out 187 = Inr \<lparr>str_data = Some 187, str_count = 13\<rparr>"
    by (simp add: Str__suffix_def)
  have cp: "strcpy_s \<lparr>str_data = Some 187, str_count = 13\<rparr> (Some clip_suffix) (log_buffer st) = Inr (13, buf)"
    using strcpy_loop_eq [of "\<lparr>str_data = Some 187, str_count = 13\<rparr>" 187 13 "log_buffer st" clip_suffix 0] len
    by (simp add: strcpy_s_def cs e)
  have lb: "length buf = 200" using True by (simp add: buf_def cs(3))
  have w: "write_loop 200 0 (st\<lparr>log_buffer := buf\<rparr>) = Inr (st\<lparr>log_buffer := buf, serial := serial st @ buf\<rparr>)"
    using write_loop_eq [of 0 200 "st\<lparr>log_buffer := buf\<rparr>"] lb by simp
  show thesis
    using True w suf cp cs(2)
    by (intro that [OF lb]) (simp add: finish_log_def BUF_SIZE_def serial__write_def Mutex__unlock_def log_line_def clip_def buf_def)
qed

section \<open>The log functions\<close>

lemma locked_log_fmt:
  "\<not> UseInterrupts st \<Longrightarrow> LoggingMutex st \<noteq> 0 \<Longrightarrow> ext__log_fmt tries loc fmt count args st = Inl Deadlock"
  by (subst ext__log_fmt.simps) simp

text \<open>Spurious failures of the exchange change nothing, so callers may pass any list.\<close>

lemma ext__log_fmt_tries: "ext__log_fmt tries loc fmt count args st = ext__log_fmt tries' loc fmt count args st"
proof (cases "LoggingMutex st = 0")
  case True
  have "ext__log_fmt ts l f c as s = (if UseInterrupts s then Inr s else Inl Deadlock)" if "LoggingMutex s = 1" for ts l f c as s
    using that by (subst ext__log_fmt.simps) simp
  then show ?thesis using True
    by (subst (1 2) ext__log_fmt.simps) (auto simp: Let_def intro!: bindR_cong split: sum.splits failure.splits)
next
  case False
  then show ?thesis by (subst (1 2) ext__log_fmt.simps) simp
qed

lemma ext__log_tries: "ext__log tries loc args st = ext__log tries' loc args st"
proof -
  have "log_args tries out args written s = log_args tries' out args written s" for out written s
    by (induction args arbitrary: written s) (simp_all add: ext__log_fmt_tries [of tries _ _ _ _ _ tries'] Let_def cong: if_cong)
  then show ?thesis by (simp add: ext__log_def)
qed

lemma ext__log_fmt_eq:
  assumes "log_ok st" "\<not> UseInterrupts st" "\<forall>a\<in>set args. any_ok a" "fmt_text fmt args = (t, k, ok)"
  shows "length (prefix_text loc) \<le> 200 \<Longrightarrow> ok \<Longrightarrow>
           \<exists>buf. length buf = 200 \<and> ext__log_fmt tries loc fmt (int (length args)) args st
             = Inr (st\<lparr>log_buffer := buf, serial := serial st @ log_line (prefix_text loc @ t)\<rparr>)"
    and "\<not> (length (prefix_text loc) \<le> 200 \<and> ok) \<Longrightarrow>
           ext__log_fmt tries loc fmt (int (length args)) args st = Inl Deadlock"
proof -
  define p where "p = prefix_text loc"
  define b where "b = emit 0 200 0 p (log_buffer st)"
  have m: "LoggingMutex st = 0" and len: "length (log_buffer st) = 200" using assms(1) by (auto simp: log_ok_def)
  have lb: "length b = 200" using len by (simp add: b_def length_emit)
  note pre = write_prefix_eq [OF len, of loc, folded p_def, folded b_def]
  note un = ext__log_fmt.simps [of tries loc fmt "int (length args)" args st]
  have lk: "ext__log_fmt tries l f c as (st\<lparr>LoggingMutex := 1, log_buffer := b'\<rparr>) = Inl Deadlock" for l f c as b'
    by (rule locked_log_fmt) (simp_all add: assms(2))
  have long: "ext__log_fmt tries loc fmt (int (length args)) args st = Inl Deadlock" if "\<not> length p \<le> 200"
    using that m assms(2) pre by (subst un) (simp add: Str__suffix_def lk)
  define suf where "suf = \<lparr>str_data = Some (int (length p)), str_count = 200 - int (length p)\<rparr>"
  have suf: "Str__suffix log_out (int (length p)) = Inr suf" "valid_out suf (length p) (200 - length p) b"
    if "length p \<le> 200" using that lb by (auto simp: Str__suffix_def suf_def valid_out_def of_nat_diff)
  have fmt: "any__fmt suf fmt (int (length args)) args b
      = Inr (fmt_result 0 0 (t, k, ok), emit 0 200 (length p) t b)" if "length p \<le> 200"
    using any__fmt_loop_eq [OF suf(2) _ assms(3), of 0 fmt 0] that emit_suffix [of 0 "length p" 200 t b]
    by (simp add: any__fmt_def assms(4) min_def)
  have eb: "emit 0 200 (length p) t b = emit 0 200 0 (p @ t) (log_buffer st)"
    using emit_append [of 0 200 "log_buffer st" 0 p t] len by (simp add: b_def)
  show "\<exists>buf. length buf = 200 \<and> ext__log_fmt tries loc fmt (int (length args)) args st
             = Inr (st\<lparr>log_buffer := buf, serial := serial st @ log_line (prefix_text loc @ t)\<rparr>)"
    if "length (prefix_text loc) \<le> 200" ok
  proof -
    note l = that(1) [folded p_def]
    obtain buf where "length buf = 200"
      "finish_log log_out (int (length (p @ t))) (st\<lparr>LoggingMutex := 1, log_buffer := emit 0 200 (length p) t b\<rparr>)
       = Inr (st\<lparr>log_buffer := buf, serial := serial st @ log_line (p @ t), LoggingMutex := 0\<rparr>)"
      using finish_log_eq [OF len, of "st\<lparr>LoggingMutex := 1, log_buffer := emit 0 200 (length p) t b\<rparr>" "p @ t"] eb
      by auto
    moreover have "ext__log_fmt tries loc fmt (int (length args)) args st
        = finish_log log_out (int (length (p @ t))) (st\<lparr>LoggingMutex := 1, log_buffer := emit 0 200 (length p) t b\<rparr>)"
      using m assms(2) pre that(2) suf(1) [OF l] fmt [OF l] by (subst un) (simp add: fmt_result_def)
    ultimately show ?thesis using m by (auto simp: p_def intro!: exI [of _ buf])
  qed
  show "ext__log_fmt tries loc fmt (int (length args)) args st = Inl Deadlock"
    if "\<not> (length (prefix_text loc) \<le> 200 \<and> ok)"
  proof (cases "length p \<le> 200")
    case True
    then have "\<not> ok" using that by (simp add: p_def)
    then show ?thesis
      using m assms(2) pre suf(1) [OF True] fmt [OF True] by (subst un) (simp add: fmt_result_def lk Let_def)
  qed (rule long)
qed

definition args_text :: "any list \<Rightarrow> string option" where
  "args_text args = (if None \<in> any_text ` set args then None else Some (concat (map (the \<circ> any_text) args)))"

lemma args_text_Cons:
  "args_text (a # args) = (case any_text a of None \<Rightarrow> None | Some t \<Rightarrow> map_option (\<lambda>u. t @ u) (args_text args))"
  by (auto simp: args_text_def split: option.splits)

lemma log_args_eq:
  assumes "length b = 200" "log_buffer st = emit 0 200 0 t b" "\<forall>a\<in>set args. any_ok a"
    and "LoggingMutex st \<noteq> 0" "\<not> UseInterrupts st"
  shows "log_args tries log_out args (int (length t)) st = (case args_text args of None \<Rightarrow> Inl Deadlock
           | Some u \<Rightarrow> Inr (int (length (t @ u)), st\<lparr>log_buffer := emit 0 200 0 (t @ u) b\<rparr>))"
  using assms(2-)
proof (induction args arbitrary: t st)
  case Nil
  then show ?case by (simp add: args_text_def)
next
  case (Cons a args)
  have len: "length (log_buffer st) = 200" using Cons.prems(1) assms(1) by (simp add: length_emit)
  obtain suf where suf: "Str__suffix log_out (min_s64 (int (length t)) 200) = Inr suf"
    "valid_out suf (min (length t) 200) (200 - min (length t) 200) (log_buffer st)"
    using valid_out_suffix [OF valid_log_out [OF len], of "length t"] by auto
  have fa: "any__fmt_any suf a (log_buffer st) = (case any_text a of
      Some u \<Rightarrow> Inr (int (length u), emit 0 200 0 (t @ u) b) | None \<Rightarrow> Inr (-1, log_buffer st))"
    using any__fmt_any_eq [OF suf(2)] Cons.prems(1,2) emit_suffix [of 0 "length t" 200 _ "log_buffer st"]
      emit_append [of 0 200 b 0 t] assms(1)
    by (simp split: option.splits)
  show ?case
  proof (cases "any_text a")
    case None
    then show ?thesis using suf(1) fa Cons.prems(3,4)
      by (simp add: BUF_SIZE_def args_text_Cons locked_log_fmt)
  next
    case (Some u)
    then show ?thesis
      using suf(1) fa Cons.prems Cons.IH [of "st\<lparr>log_buffer := emit 0 200 0 (t @ u) b\<rparr>" "t @ u"]
      by (simp add: BUF_SIZE_def args_text_Cons split: option.splits)
  qed
qed

lemma ext__log_eq:
  assumes "log_ok st" "\<not> UseInterrupts st" "\<forall>a\<in>set args. any_ok a"
  shows "case args_text args of None \<Rightarrow> ext__log tries loc args st = Inl Deadlock
    | Some t \<Rightarrow> \<exists>buf. length buf = 200 \<and>
        ext__log tries loc args st = Inr (st\<lparr>log_buffer := buf, serial := serial st @ log_line (prefix_text loc @ t)\<rparr>)"
proof -
  define b where "b = log_buffer st"
  have m: "LoggingMutex st = 0" and len: "length b = 200" using assms(1) by (auto simp: log_ok_def b_def)
  define p where "p = prefix_text loc"
  define st' where "st' = st\<lparr>LoggingMutex := 1, log_buffer := emit 0 200 0 p b\<rparr>"
  have st': "log_buffer st' = emit 0 200 0 p b" "LoggingMutex st' \<noteq> 0" "\<not> UseInterrupts st'" "serial st' = serial st"
    using assms(2) by (simp_all add: st'_def)
  have la: "ext__log tries loc args st = bindR (log_args tries log_out args (int (length p)) st')
      (\<lambda>(written, st). finish_log log_out written st)"
    using m assms(2) write_prefix_eq [OF len, of loc] by (simp add: ext__log_def b_def st'_def p_def Let_def)
  note eq = log_args_eq [OF len st'(1) assms(3) st'(2,3), of tries]
  show ?thesis
  proof (cases "args_text args")
    case None
    then show ?thesis using la eq by simp
  next
    case (Some t)
    obtain buf where "length buf = 200"
      "finish_log log_out (int (length (p @ t))) (st'\<lparr>log_buffer := emit 0 200 0 (p @ t) b\<rparr>)
       = Inr (st'\<lparr>log_buffer := buf, serial := serial st @ log_line (p @ t), LoggingMutex := 0\<rparr>)"
      using finish_log_eq [OF len, of "st'\<lparr>log_buffer := emit 0 200 0 (p @ t) b\<rparr>" "p @ t"] st'(4) by auto
    then show ?thesis using Some la eq m by (auto simp: p_def st'_def intro!: exI [of _ buf])
  qed
qed

section \<open>Sequences of calls\<close>

text \<open>The contract of a log for its callers: every accepted call appends one line.\<close>

locale line_log =
  fixes run :: "'call \<Rightarrow> 'st \<Rightarrow> 'st result"
    and ok :: "'call \<Rightarrow> bool"
    and ready :: "'st \<Rightarrow> bool"
    and sent :: "'st \<Rightarrow> string"
    and line :: "'call \<Rightarrow> string"
  assumes run_line: "ready st \<Longrightarrow> ok call \<Longrightarrow> \<exists>st'. run call st = Inr st' \<and> ready st' \<and> sent st' = sent st @ line call"
begin

fun run_all :: "'call list \<Rightarrow> 'st \<Rightarrow> 'st result" where
  "run_all [] st = Inr st"
| "run_all (call # calls) st = bindR (run call st) (run_all calls)"

lemma run_all_lines:
  "ready st \<Longrightarrow> \<forall>call\<in>set calls. ok call \<Longrightarrow>
   \<exists>st'. run_all calls st = Inr st' \<and> ready st' \<and> sent st' = sent st @ concat (map line calls)"
proof (induction calls arbitrary: st)
  case (Cons call calls)
  then show ?case using run_line [of st call] Cons.IH by fastforce
qed simp

end

datatype log_call = Log sloc "any list" | LogFmt sloc string "any list"

fun call_args :: "log_call \<Rightarrow> any list" where
  "call_args (Log loc args) = args"
| "call_args (LogFmt loc fmt args) = args"

fun log_calls :: "log_call list \<Rightarrow> logging \<Rightarrow> logging result" where
  "log_calls [] st = Inr st"
| "log_calls (Log loc args # calls) st = bindR (ext__log [] loc args st) (log_calls calls)"
| "log_calls (LogFmt loc fmt args # calls) st =
     bindR (ext__log_fmt [] loc fmt (int (length args)) args st) (log_calls calls)"

fun call_ok :: "log_call \<Rightarrow> bool" where
  "call_ok (Log loc args) \<longleftrightarrow> list_all any_ok args \<and> args_text args \<noteq> None"
| "call_ok (LogFmt loc fmt args) \<longleftrightarrow>
     list_all any_ok args \<and> length (prefix_text loc) \<le> 200 \<and> snd (snd (fmt_text fmt args))"

fun call_line :: "log_call \<Rightarrow> string" where
  "call_line (Log loc args) = log_line (prefix_text loc @ the (args_text args))"
| "call_line (LogFmt loc fmt args) = log_line (prefix_text loc @ fst (fmt_text fmt args))"

abbreviation log_ready :: "logging \<Rightarrow> bool" where
  "log_ready st \<equiv> log_ok st \<and> \<not> UseInterrupts st"

interpretation kl: line_log "\<lambda>call. log_calls [call]" call_ok log_ready serial call_line
proof
  fix st call
  assume st: "log_ready st" and ok: "call_ok call"
  show "\<exists>st'. log_calls [call] st = Inr st' \<and> log_ready st' \<and> serial st' = serial st @ call_line call"
  proof (cases call)
    case (Log loc args)
    then have "\<forall>a\<in>set args. any_ok a" "args_text args \<noteq> None" using ok by (auto simp: list_all_iff)
    then show ?thesis using ext__log_eq [of st args "[]" loc] st Log by (auto simp: log_ok_def)
  next
    case (LogFmt loc fmt args)
    obtain t k b where f: "fmt_text fmt args = (t, k, b)" by (cases "fmt_text fmt args")
    have "\<forall>a\<in>set args. any_ok a" "length (prefix_text loc) \<le> 200" b
      using ok LogFmt f by (auto simp: list_all_iff)
    then show ?thesis
      using ext__log_fmt_eq(1) [of st args fmt t k b loc "[]"] st LogFmt f by (auto simp: log_ok_def)
  qed
qed

lemma log_calls_run_all: "log_calls calls st = kl.run_all calls st"
proof (induction calls arbitrary: st)
  case (Cons call calls)
  have "log_calls calls = kl.run_all calls" using Cons.IH by blast
  moreover have "log_calls (call # calls) st = bindR (log_calls [call] st) (log_calls calls)"
    by (cases call) (simp_all add: bindR_assoc)
  ultimately show ?case by simp
qed simp

section \<open>Properties\<close>

text \<open>C29. The log refines a list of lines. From a state whose mutex is free, any sequence of calls of
  \<^verbatim>\<open>log\<close> and \<^verbatim>\<open>log_fmt\<close> with matching arguments returns, and what it sends to the serial port is
  the concatenation of its lines, each with the place of the call in front, cut at 200 characters
  with \<^verbatim>\<open>... [clipped]\<close> at the end, and a newline. The mutex is free again afterwards.\<close>

theorem log_calls_refine_lines:
  assumes "log_ok st" "\<not> UseInterrupts st" "list_all call_ok calls"
  shows "\<exists>st'. log_calls calls st = Inr st' \<and> log_ok st' \<and> \<not> UseInterrupts st'
           \<and> serial st' = serial st @ concat (map call_line calls)
           \<and> list_all (\<lambda>call. length (call_line call) \<le> 201) calls"
proof -
  have "length (log_line t) \<le> 201" for t by (auto simp: log_line_def clip_def clip_suffix_def)
  then have "length (call_line call) \<le> 201" for call by (cases call) simp_all
  then show ?thesis
    using kl.run_all_lines [of st calls] assms by (auto simp: log_calls_run_all list_all_iff)
qed

definition sample_log :: logging where
  "sample_log = \<lparr>UseInterrupts = False, LoggingMutex = 0, log_buffer = replicate 200 CHR ''.'', serial = []\<rparr>"

definition sample_loc :: sloc where
  "sample_loc = \<lparr>loc_file = Some ''main.c'', loc_line = 7\<rparr>"

lemma sample_log_ready: "log_ok sample_log" "\<not> UseInterrupts sample_log" "serial sample_log = []"
  by (simp_all add: sample_log_def log_ok_def)

lemma sample_prefix: "prefix_text sample_loc = ''[main.c:7]: ''"
proof -
  have "decimal 7 = ''7''" by code_simp
  then show ?thesis by (simp add: prefix_text_def sample_loc_def ctext_def NUL_def)
qed

lemmas sample_arg_simps = any_ok_def any__char_ptr_def any__bool_def any__u64_def signed_type_def any_text_def ctext_def NUL_def

theorem log_calls_refine_lines_witness:
  "\<exists>st'. log_calls [Log sample_loc [any__bool True], LogFmt sample_loc ''got %f'' [any__char_ptr (Some ''abc'')]] sample_log = Inr st'
     \<and> serial st' = ''[main.c:7]: true'' @ [CHR 0x0A] @ ''[main.c:7]: got abc'' @ [CHR 0x0A]"
proof -
  have "call_ok (Log sample_loc [any__bool True])"
    "call_line (Log sample_loc [any__bool True]) = ''[main.c:7]: true'' @ [CHR 0x0A]"
    by (simp_all add: sample_arg_simps args_text_def log_line_def clip_def sample_prefix)
  moreover have "call_ok (LogFmt sample_loc ''got %f'' [any__char_ptr (Some ''abc'')])"
    "call_line (LogFmt sample_loc ''got %f'' [any__char_ptr (Some ''abc'')]) = ''[main.c:7]: got abc'' @ [CHR 0x0A]"
    by (simp_all add: sample_arg_simps log_line_def clip_def sample_prefix)
  ultimately show ?thesis
    using log_calls_refine_lines [OF sample_log_ready(1,2),
        of "[Log sample_loc [any__bool True], LogFmt sample_loc ''got %f'' [any__char_ptr (Some ''abc'')]]"]
    by (auto simp: sample_log_ready(3) simp del: call_ok.simps call_line.simps)
qed

text \<open>C30. \<^verbatim>\<open>ext__log_fmt\<close> never reports a bad call: when the format string does not match the arguments
  (wrong directive, too few or too many arguments, an argument of unknown type), or when the
  place of the call alone fills more than the 200 characters of the buffer, it logs again while it
  holds the mutex: the loop that waits for the mutex (\<open>spin\<close>, a partial function) never returns, whatever attempts
  fail spuriously.\<close>

theorem log_fmt_bad_call_deadlocks:
  assumes "log_ok st" "\<not> UseInterrupts st" "list_all any_ok args"
    and "\<not> snd (snd (fmt_text fmt args)) \<or> length (prefix_text loc) > 200"
  shows "ext__log_fmt tries loc fmt (int (length args)) args st = Inl Deadlock \<and> (\<forall>ts. spin ts 1 = None)"
proof -
  obtain t k b where f: "fmt_text fmt args = (t, k, b)" by (cases "fmt_text fmt args")
  have "\<forall>a\<in>set args. any_ok a" using assms(3) by (simp add: list_all_iff)
  then show ?thesis using ext__log_fmt_eq(2) [OF assms(1,2) _ f, of loc tries] assms(4) f spin_held [of 1] by auto
qed

theorem log_fmt_bad_call_deadlocks_witness:
  "ext__log_fmt [True, False] sample_loc ''%f and %f'' 1 [any__u64 5] sample_log = Inl Deadlock"
  using log_fmt_bad_call_deadlocks [OF sample_log_ready(1,2), of "[any__u64 5]" "''%f and %f''" sample_loc "[True, False]"]
  by (simp add: sample_arg_simps)

end
