(* ===== verification/Descriptors.thy ===== *)
theory Descriptors
  imports Bump_Alloc Logging
begin

text \<open>
  The global descriptor table of \<^verbatim>\<open>src/kern/descriptor_tables.c\<close>, and the machine state that the
  initialisation code of the kernel works on: the heap, the initial bump allocator, the log, the
  registers the code loads and the descriptor tables. Memory from the bump allocator is zero, so a
  new table starts with zero entries; its address is kept beside it.
\<close>

record Tss =
  privilege_stack_table :: "u64 list"
  interrupt_stack_table :: "u64 list"
  iomap_base :: u16

record Gdt =
  gdt_index :: u16
  gdt_table :: "u64 list"

record cpu =
  gdtr_size :: u16
  gdtr_base :: u64
  idtr_size :: u16
  idtr_base :: u64
  cs :: u16
  tr :: u16
  cr3 :: u64
  msr :: "u32 \<Rightarrow> u64"

definition zero_tss :: Tss where
  "zero_tss = \<lparr>privilege_stack_table = replicate 3 0, interrupt_stack_table = replicate 7 0, iomap_base = 0\<rparr>"

definition zero_gdt :: Gdt where
  "zero_gdt = \<lparr>gdt_index = 0, gdt_table = replicate 8 0\<rparr>"

definition GDT__ACCESSED :: u64 where "GDT__ACCESSED = push_bit 40 1"
definition GDT__WRITABLE :: u64 where "GDT__WRITABLE = push_bit 41 1"
definition GDT__EXECUTABLE :: u64 where "GDT__EXECUTABLE = push_bit 43 1"
definition GDT__USER_SEGMENT :: u64 where "GDT__USER_SEGMENT = push_bit 44 1"
definition GDT__DPL_RING_3 :: u64 where "GDT__DPL_RING_3 = push_bit 45 3"
definition GDT__PRESENT :: u64 where "GDT__PRESENT = push_bit 47 1"
definition GDT__LONG_MODE :: u64 where "GDT__LONG_MODE = push_bit 53 1"
definition GDT__GRANULARITY :: u64 where "GDT__GRANULARITY = push_bit 55 1"
definition GDT__LIMIT_0_15 :: u64 where "GDT__LIMIT_0_15 = 0xffff"
definition GDT__LIMIT_16_19 :: u64 where "GDT__LIMIT_16_19 = push_bit 48 0xf"

definition GDT__COMMON :: u64 where
  "GDT__COMMON = GDT__USER_SEGMENT OR GDT__ACCESSED OR GDT__PRESENT OR GDT__WRITABLE OR GDT__LIMIT_0_15
     OR GDT__LIMIT_16_19 OR GDT__GRANULARITY"

definition GDT__KERNEL_CODE :: u64 where
  "GDT__KERNEL_CODE = GDT__COMMON OR GDT__EXECUTABLE OR GDT__LONG_MODE"

definition GDT__USER_CODE :: u64 where
  "GDT__USER_CODE = GDT__KERNEL_CODE OR GDT__DPL_RING_3"

definition tss_segment :: "s64 \<Rightarrow> u16" where
  "tss_segment core_idx =
     (let tss_idx = (word_of_int (uint (word_of_int core_idx :: u16) * 2 + 2) :: u16) in push_bit 3 tss_idx)"

definition Gdt__init :: "Gdt \<Rightarrow> Gdt" where
  "Gdt__init gdt = gdt\<lparr>gdt_table := (gdt_table gdt)[0 := 0], gdt_index := 1\<rparr>"

definition Gdt__add_entry :: "Gdt \<Rightarrow> u64 \<Rightarrow> (u16 \<times> Gdt) result" where
  "Gdt__add_entry gdt entry =
     (let index = gdt_index gdt in
      bindR (assertR (uint index < 8) ''index < 8'') (\<lambda>_.
      bindR (updR (gdt_table gdt) (uint index) entry) (\<lambda>table.
      let gdt = gdt\<lparr>gdt_table := table, gdt_index := index + 1\<rparr>;
          priviledge_level = (if entry AND GDT__DPL_RING_3 \<noteq> 0 then 3 else 0) in
      Inr (push_bit 3 index OR priviledge_level, gdt))))"

definition sizeof_Tss :: u64 where
  "sizeof_Tss = 104"

definition Gdt__add_tss :: "Gdt \<Rightarrow> u64 \<Rightarrow> s64 \<Rightarrow> Gdt result" where
  "Gdt__add_tss gdt tss core_idx =
     (let BYTE = (255 :: u64);
          BYTES_0_24 = BYTE OR push_bit 8 BYTE OR push_bit 16 BYTE;
          BYTES_24_32 = push_bit 24 BYTE;
          BYTES_32_64 = push_bit 32 BYTE OR push_bit 40 BYTE OR push_bit 48 BYTE OR push_bit 56 BYTE;
          addr = tss;
          low = GDT__PRESENT;
          low = low OR push_bit 16 (addr AND BYTES_0_24);
          low = low OR push_bit 32 (addr AND BYTES_24_32);
          low = low OR (sizeof_Tss - 1);
          low = low OR push_bit 40 9;
          high = drop_bit 32 (addr AND BYTES_32_64);
          index = gdt_index gdt in
      bindR (assertR (uint index + 1 < 8) ''index + 1 < 8'') (\<lambda>_.
      bindR (updR (gdt_table gdt) (uint index) low) (\<lambda>table.
      bindR (updR table (uint index + 1) high) (\<lambda>table.
      let gdt = gdt\<lparr>gdt_table := table, gdt_index := index + 2\<rparr>;
          selector = push_bit 3 index in
      bindR (assertR (selector = tss_segment core_idx) ''selector == tss_segment(core_idx)'') (\<lambda>_.
      Inr gdt)))))"

text \<open>\<^verbatim>\<open>load_gdt\<close>: the table starts eight bytes into \<^verbatim>\<open>Gdt\<close>; the far return loads \<^verbatim>\<open>cs\<close>.\<close>

definition load_gdt :: "u64 \<Rightarrow> Gdt \<Rightarrow> u16 \<Rightarrow> cpu \<Rightarrow> cpu" where
  "load_gdt base gdt selector c = c\<lparr>gdtr_size := gdt_index gdt * 8 - 1, gdtr_base := base + 8, cs := selector\<rparr>"

record GdtInfo =
  info_gdt :: u64
  info_size :: u16

definition current_gdt :: "cpu \<Rightarrow> GdtInfo" where
  "current_gdt c = \<lparr>info_gdt = gdtr_base c, info_size = gdtr_size c\<rparr>"

record machine =
  heap :: memory
  InitAlloc :: Bump
  log_state :: logging
  cpu_state :: cpu
  gdt_obj :: "u64 \<times> Gdt"
  tss_obj :: "u64 \<times> Tss"

definition kernel_log_fmt :: "string \<Rightarrow> u32 \<Rightarrow> string \<Rightarrow> any list \<Rightarrow> machine \<Rightarrow> machine result" where
  "kernel_log_fmt file line fmt args M =
     bindR (ext__log_fmt [] \<lparr>loc_file = Some file, loc_line = line\<rparr> fmt (int (length args)) args (log_state M))
       (\<lambda>l. Inr (M\<lparr>log_state := l\<rparr>))"

definition descriptor__init :: "machine \<Rightarrow> machine result" where
  "descriptor__init M =
     bindR (Bump__bump_impl [] (InitAlloc M) 72 8) (\<lambda>(gdt_ptr, b).
     bindR (assertR (gdt_ptr \<noteq> 0) ''gdt'') (\<lambda>_.
     let gdt = Gdt__init zero_gdt in
     bindR (Bump__bump_impl [] b 104 1) (\<lambda>(tss_ptr, b).
     bindR (assertR (tss_ptr \<noteq> 0) ''tss'') (\<lambda>_.
     bindR (zeroed_pages (heap M) 2) (\<lambda>(new_stack, h).
     let tss = zero_tss\<lparr>interrupt_stack_table := (interrupt_stack_table zero_tss)[0 := new_stack + 2 * 4096]\<rparr> in
     bindR (Gdt__add_entry gdt GDT__KERNEL_CODE) (\<lambda>(segment, gdt).
     bindR (Gdt__add_tss gdt tss_ptr 0) (\<lambda>gdt.
     let M = M\<lparr>heap := h, InitAlloc := b, gdt_obj := (gdt_ptr, gdt), tss_obj := (tss_ptr, tss),
                cpu_state := load_gdt gdt_ptr gdt segment (cpu_state M)\<rparr> in
     kernel_log_fmt ''./kern/descriptor_tables.c'' 79 ''global descriptor table INIT_COMPLETE'' [] M)))))))"

section \<open>What the processor reads from the table\<close>

text \<open>
  The fields of a 16-byte system descriptor as the processor reads them: base, limit, type, present.
\<close>

definition desc_base :: "u64 \<Rightarrow> u64 \<Rightarrow> u64" where
  "desc_base low high = (drop_bit 16 low AND 0xffffff) OR push_bit 24 (drop_bit 56 low) OR push_bit 32 high"

definition desc_limit :: "u64 \<Rightarrow> u64" where
  "desc_limit low = (low AND 0xffff) OR push_bit 16 (drop_bit 48 low AND 0xf)"

definition desc_type :: "u64 \<Rightarrow> u64" where
  "desc_type low = drop_bit 40 low AND 0x1f"

definition desc_present :: "u64 \<Rightarrow> bool" where
  "desc_present low \<longleftrightarrow> bit low 47"

definition tss_low :: "u64 \<Rightarrow> u64" where
  "tss_low addr = 0x0000890000000067 OR push_bit 16 (addr AND 0xffffff) OR push_bit 32 (addr AND 0xff000000)"

definition tss_high :: "u64 \<Rightarrow> u64" where
  "tss_high addr = drop_bit 32 addr"

lemma GDT__KERNEL_CODE_eq: "GDT__KERNEL_CODE = 0x00af9b000000ffff"
  by (simp add: GDT__KERNEL_CODE_def GDT__COMMON_def GDT__USER_SEGMENT_def GDT__ACCESSED_def GDT__PRESENT_def
      GDT__WRITABLE_def GDT__LIMIT_0_15_def GDT__LIMIT_16_19_def GDT__GRANULARITY_def GDT__EXECUTABLE_def
      GDT__LONG_MODE_def push_bit_eq_mult)

lemma GDT__USER_CODE_eq: "GDT__USER_CODE = 0x00affb000000ffff"
  by (simp add: GDT__USER_CODE_def GDT__KERNEL_CODE_eq GDT__DPL_RING_3_def push_bit_eq_mult)

lemma byte_masks:
  "(0xffffff :: u64) = mask 24" "(0xff000000 :: u64) = push_bit 24 (mask 8)" "(0xffff :: u64) = mask 16"
  "(0xf :: u64) = mask 4" "(0x1f :: u64) = mask 5"
  by (simp_all add: mask_eq_exp_minus_1 push_bit_eq_mult)

lemma desc_base_tss: "desc_base (tss_low addr) (tss_high addr) = addr"
proof -
  define X where "X = push_bit 16 (addr AND mask 24)"
  define Y where "Y = push_bit 32 (addr AND push_bit 24 (mask 8))"
  have low: "tss_low addr = 0x0000890000000067 OR X OR Y" by (simp add: tss_low_def X_def Y_def byte_masks or.assoc)
  have "drop_bit 16 (tss_low addr) AND mask 24 = (drop_bit 16 0x0000890000000067 AND mask 24) OR (drop_bit 16 (X OR Y) AND mask 24)"
    by (simp only: low bit.conj_disj_distrib2 drop_bit_or)
  also have "(drop_bit 16 0x0000890000000067 :: u64) AND mask 24 = 0"
    by (simp add: drop_bit_eq_div and_exp_eq_0_iff_not_bit flip: take_bit_eq_mask)
  finally have a: "drop_bit 16 (tss_low addr) AND mask 24 = drop_bit 16 (X OR Y) AND mask 24" by simp
  have "(drop_bit 56 0x0000890000000067 :: u64) = 0" by (simp add: drop_bit_eq_div)
  then have b: "drop_bit 56 (tss_low addr) = drop_bit 56 (X OR Y)" by (simp only: low drop_bit_or or.left_neutral)
  have "drop_bit 16 (X OR Y) AND mask 24 = addr AND mask 24"
    by (rule bit_word_eqI) (auto simp: X_def Y_def bit_simps)
  moreover have "push_bit 24 (drop_bit 56 (X OR Y)) = addr AND push_bit 24 (mask 8)"
  proof (rule bit_word_eqI)
    fix n :: nat
    assume "n < LENGTH(64)"
    then show "bit (push_bit 24 (drop_bit 56 (X OR Y))) n = bit (addr AND push_bit 24 (mask 8)) n"
      by (cases "24 \<le> n"; cases "n < 32") (simp_all add: X_def Y_def bit_simps, auto)
  qed
  moreover have "push_bit 32 (drop_bit 32 addr) = addr AND NOT (mask 32)"
    by (rule bit_word_eqI) (auto simp: bit_simps)
  moreover have "(addr AND mask 24) OR (addr AND push_bit 24 (mask 8)) OR (addr AND NOT (mask 32)) = addr"
    by (rule bit_word_eqI) (auto simp: bit_simps)
  ultimately show ?thesis
    unfolding desc_base_def byte_masks(1) a b tss_high_def by simp
qed

lemma desc_fields_tss: "desc_limit (tss_low addr) = 103" "desc_type (tss_low addr) = 9" "desc_present (tss_low addr)"
proof -
  define X where "X = push_bit 16 (addr AND mask 24)"
  define Y where "Y = push_bit 32 (addr AND push_bit 24 (mask 8))"
  have low: "tss_low addr = 0x0000890000000067 OR X OR Y" by (simp add: tss_low_def X_def Y_def byte_masks or.assoc)
  have "(X OR Y) AND mask 16 = 0" "drop_bit 48 (X OR Y) AND mask 4 = 0" "drop_bit 40 (X OR Y) AND mask 5 = 0"
    by (rule bit_word_eqI, auto simp: X_def Y_def bit_simps)+
  then show "desc_limit (tss_low addr) = 103" "desc_type (tss_low addr) = 9"
    unfolding desc_limit_def desc_type_def byte_masks low drop_bit_or bit.conj_disj_distrib2
    by (simp_all add: drop_bit_eq_div take_bit_eq_mod flip: take_bit_eq_mask)
  have "drop_bit 47 0x0000890000000067 AND (1 :: u64) = 1" by (simp add: drop_bit_eq_div)
  then have "bit (0x0000890000000067 :: u64) 47" by (simp add: bit_iff_odd_drop_bit odd_iff_mod_2_eq_one flip: and_one_eq)
  then show "desc_present (tss_low addr)" by (simp add: desc_present_def low bit_or_iff)
qed

lemma zeros:
  "replicate 8 (0 :: u64) = [0, 0, 0, 0, 0, 0, 0, 0]" "replicate 6 (0 :: u64) = [0, 0, 0, 0, 0, 0]"
  "replicate 4 (0 :: u64) = [0, 0, 0, 0]" "replicate 2 (0 :: u64) = [0, 0]"
  by (simp_all add: numeral_eq_Suc)

lemma bytes_masks:
  "(255 :: u64) OR push_bit 8 255 OR push_bit 16 255 = 0xffffff" "push_bit 24 (255 :: u64) = 0xff000000"
  "push_bit 32 (255 :: u64) OR push_bit 40 255 OR push_bit 48 255 OR push_bit 56 255 = 0xffffffff00000000"
  by (simp_all add: push_bit_eq_mult)

lemma tss_high_eq: "drop_bit 32 (addr AND 0xffffffff00000000) = tss_high addr"
proof -
  have m: "(0xffffffff00000000 :: u64) = NOT (mask 32)" by (simp add: mask_eq_exp_minus_1)
  show ?thesis unfolding tss_high_def m by (rule bit_word_eqI) (auto simp: bit_simps dest: bit_imp_le_length)
qed

lemma tss_low_eq:
  "(((GDT__PRESENT OR push_bit 16 (addr AND 0xffffff)) OR push_bit 32 (addr AND 0xff000000)) OR (sizeof_Tss - 1)) OR push_bit 40 9
   = tss_low addr"
proof -
  have "(0x0000890000000067 :: u64) = GDT__PRESENT OR (sizeof_Tss - 1) OR push_bit 40 9"
    by (simp add: GDT__PRESENT_def sizeof_Tss_def push_bit_eq_mult)
  then show ?thesis unfolding tss_low_def by (simp only: ac_simps)
qed

lemma Gdt__add_tss_eq:
  assumes "length (gdt_table g) = 8"
  shows "Gdt__add_tss g addr n =
    (if uint (gdt_index g) + 1 < 8
     then if push_bit 3 (gdt_index g) = tss_segment n
          then Inr (g\<lparr>gdt_table := (gdt_table g)[unat (gdt_index g) := tss_low addr, unat (gdt_index g) + 1 := tss_high addr],
                      gdt_index := gdt_index g + 2\<rparr>)
          else Inl (Panic ''selector == tss_segment(core_idx)'')
     else Inl (Panic ''index + 1 < 8''))"
proof -
  obtain i k where i: "gdt_index g = i" "unat i = k" "uint i = int k" by (simp add: uint_nat)
  have "nat (int k + 1) = k + 1" by simp
  then show ?thesis
    unfolding Gdt__add_tss_def Let_def bytes_masks tss_high_eq tss_low_eq i using assms by (auto simp: updR_def)
qed

lemma Gdt__add_entry_eq:
  assumes "length (gdt_table g) = 8"
  shows "Gdt__add_entry g entry =
    (if uint (gdt_index g) < 8
     then Inr (push_bit 3 (gdt_index g) OR (if entry AND GDT__DPL_RING_3 \<noteq> 0 then 3 else 0),
               g\<lparr>gdt_table := (gdt_table g)[unat (gdt_index g) := entry], gdt_index := gdt_index g + 1\<rparr>)
     else Inl (Panic ''index < 8''))"
proof -
  obtain i k where i: "gdt_index g = i" "unat i = k" "uint i = int k" by (simp add: uint_nat)
  show ?thesis unfolding Gdt__add_entry_def Let_def i using assms by (auto simp: updR_def)
qed

definition code_gdt :: Gdt where
  "code_gdt = \<lparr>gdt_index = 2, gdt_table = [0, GDT__KERNEL_CODE, 0, 0, 0, 0, 0, 0]\<rparr>"

lemma add_kernel_code: "Gdt__add_entry (Gdt__init zero_gdt) GDT__KERNEL_CODE = Inr (8, code_gdt)"
proof -
  have "GDT__KERNEL_CODE AND GDT__DPL_RING_3 = 0"
    by (simp add: GDT__KERNEL_CODE_eq GDT__DPL_RING_3_def push_bit_eq_mult)
  moreover have "length (gdt_table (Gdt__init zero_gdt)) = 8" by (simp add: Gdt__init_def zero_gdt_def)
  ultimately show ?thesis
    by (simp add: Gdt__add_entry_eq Gdt__init_def zero_gdt_def code_gdt_def push_bit_eq_mult zeros)
qed

fun add_cores :: "Gdt \<Rightarrow> s64 \<Rightarrow> u64 list \<Rightarrow> Gdt result" where
  "add_cores gdt n [] = Inr gdt"
| "add_cores gdt n (addr # addrs) = bindR (Gdt__add_tss gdt addr n) (\<lambda>gdt. add_cores gdt (n + 1) addrs)"

lemma tss_segments: "tss_segment 0 = 16" "tss_segment 1 = 32" "tss_segment 2 = 48" "tss_segment 3 = 64"
  by (simp_all add: tss_segment_def push_bit_eq_mult)

lemma add_core:
  assumes "length (gdt_table g) = 8" "gdt_index g = i" "uint i + 1 < 8" "push_bit 3 i = tss_segment n"
  shows "Gdt__add_tss g addr n =
    Inr \<lparr>gdt_index = i + 2, gdt_table = (gdt_table g)[unat i := tss_low addr, unat i + 1 := tss_high addr]\<rparr>"
  using assms by (cases g) (simp add: Gdt__add_tss_eq)

definition core_table :: "u64 list \<Rightarrow> u64 list" where
  "core_table addrs = take 8 ([0, GDT__KERNEL_CODE] @ concat (map (\<lambda>a. [tss_low a, tss_high a]) addrs) @ replicate 6 0)"

lemma add_cores_le_3:
  "add_cores code_gdt 0 [] = Inr \<lparr>gdt_index = 2, gdt_table = core_table []\<rparr>"
  "add_cores code_gdt 0 [a] = Inr \<lparr>gdt_index = 4, gdt_table = core_table [a]\<rparr>"
  "add_cores code_gdt 0 [a, b] = Inr \<lparr>gdt_index = 6, gdt_table = core_table [a, b]\<rparr>"
  "add_cores code_gdt 0 [a, b, c] = Inr \<lparr>gdt_index = 8, gdt_table = core_table [a, b, c]\<rparr>"
  by (simp_all add: zeros code_gdt_def core_table_def Gdt__add_tss_eq tss_segments push_bit_eq_mult)

lemma add_cores_append:
  "add_cores g n (xs @ ys) = bindR (add_cores g n xs) (\<lambda>g. add_cores g (n + int (length xs)) ys)"
proof (induction xs arbitrary: g n)
  case (Cons x xs)
  then show ?case by (cases "Gdt__add_tss g x n") (simp_all add: add.assoc)
qed simp

lemma add_cores_gt_3:
  assumes "length addrs > 3"
  shows "add_cores code_gdt 0 addrs = Inl (Panic ''index + 1 < 8'')"
proof -
  obtain a b c d rest where "addrs = [a, b, c] @ d # rest"
    using assms by (auto simp: numeral_3_eq_3 length_Suc_conv Suc_le_length_iff less_eq_Suc_le)
  moreover have "length (core_table [a, b, c]) = 8" by (simp add: core_table_def)
  ultimately show ?thesis
    by (simp only: add_cores_append add_cores_le_3) (simp add: Gdt__add_tss_eq)
qed

section \<open>Initialisation\<close>

lemma fmt_text_plain: "list_all (\<lambda>c. c \<noteq> NUL \<and> c \<noteq> CHR ''%'') t \<Longrightarrow> fmt_text t [] = (t, 0, True)"
  by (induction t) auto

definition short_loc :: "string \<Rightarrow> u32 \<Rightarrow> bool" where
  "short_loc file line \<longleftrightarrow> length (prefix_text \<lparr>loc_file = Some file, loc_line = line\<rparr>) \<le> 200"

lemma short_loc: "length file \<le> 100 \<Longrightarrow> short_loc file line"
proof -
  assume "length file \<le> 100"
  moreover have "length (ctext file) \<le> length file" by (simp add: ctext_def length_takeWhile_le)
  moreover have "length (decimal (unat line)) \<le> 20"
    using length_decimal [of "unat line" 19] unsigned_less [where ?'a = nat, of line] by simp
  ultimately show ?thesis by (simp add: short_loc_def prefix_text_def)
qed

lemma kernel_log_plain:
  assumes "log_ok (log_state M)" "\<not> UseInterrupts (log_state M)" "length file \<le> 100"
    and "list_all (\<lambda>c. c \<noteq> NUL \<and> c \<noteq> CHR ''%'') t"
  shows "\<exists>buf. length buf = 200 \<and> kernel_log_fmt file line t [] M = Inr (M\<lparr>log_state := (log_state M)\<lparr>log_buffer := buf,
           serial := serial (log_state M) @ log_line (prefix_text \<lparr>loc_file = Some file, loc_line = line\<rparr> @ t)\<rparr>\<rparr>)"
  using ext__log_fmt_eq(1) [OF assms(1,2) _ fmt_text_plain [OF assms(4)], of "\<lparr>loc_file = Some file, loc_line = line\<rparr>" "[]"]
    short_loc [OF assms(3), of line]
  by (auto simp: kernel_log_fmt_def short_loc_def)

text \<open>\<open>logged M M' t\<close>: the machine only went on to say \<open>t\<close> on its serial port.\<close>

definition logged :: "machine \<Rightarrow> machine \<Rightarrow> string \<Rightarrow> bool" where
  "logged M M' t \<longleftrightarrow> M' = M\<lparr>log_state := log_state M'\<rparr> \<and> log_ready (log_state M') \<and> serial (log_state M') = serial (log_state M) @ t"

lemma logged_trans: "logged M M' t \<Longrightarrow> logged M' M'' u \<Longrightarrow> logged M M'' (t @ u)"
  unfolding logged_def by (metis (no_types, lifting) append.assoc machine.surjective machine.update_convs(3))

lemma logged_fields: "logged M M' t \<Longrightarrow> heap M' = heap M \<and> cpu_state M' = cpu_state M \<and> InitAlloc M' = InitAlloc M
    \<and> gdt_obj M' = gdt_obj M \<and> tss_obj M' = tss_obj M \<and> log_ready (log_state M')"
  unfolding logged_def by (metis machine.select_convs machine.surjective machine.update_convs(3))

lemma kernel_log_logged:
  assumes "log_ready (log_state M)" "length file \<le> 100" "list_all (\<lambda>c. c \<noteq> NUL \<and> c \<noteq> CHR ''%'') t"
  shows "\<exists>M'. kernel_log_fmt file line t [] M = Inr M' \<and> logged M M' (log_line (prefix_text \<lparr>loc_file = Some file, loc_line = line\<rparr> @ t))"
  using kernel_log_plain [OF _ _ assms(2,3), of M line] assms(1) by (auto simp: logged_def log_ok_def)

text \<open>The pages of the initial allocator lie in the kernel's half of the address space.\<close>

definition alloc_placed :: "Bump \<Rightarrow> bool" where
  "alloc_placed b \<longleftrightarrow> bump_ok b \<and> (\<exists>x. 0 \<le> x \<and> bump_begin b = page_ptr x \<and> x * 4096 + bump_count b \<le> 2 ^ 47)"

lemma alloc_placed_nonzero:
  assumes "alloc_placed b" "0 \<le> a" "a < bump_count b"
  shows "bump_begin b + U64 a \<noteq> 0"
proof -
  obtain x where x: "0 \<le> x" "bump_begin b = page_ptr x" "x * 4096 + bump_count b \<le> 2 ^ 47"
    using assms(1) by (auto simp: alloc_placed_def)
  have "bump_begin b + U64 a = U64 (x * 4096 + a + 0xffff800000000000)"
    by (simp add: x(2) page_ptr_def KERNEL_SPACE_BEGIN_def algebra_simps)
  moreover have "uint (U64 (x * 4096 + a + 0xffff800000000000)) = x * 4096 + a + 0xffff800000000000"
    using x assms(2,3) by (intro uint_word_of_int_small) auto
  ultimately show ?thesis using x(1) assms(2) by (metis add_nonneg_eq_0_iff uint_0_eq zero_le_mult_iff zero_le_numeral zero_neq_numeral add_nonneg_nonneg)
qed

section \<open>Properties\<close>

text \<open>C34. The boot table: after \<^verbatim>\<open>Gdt__init\<close>, the kernel code entry gets selector 8, and the task state
  segment of core 0 gets the selector \<^verbatim>\<open>tss_segment(0)\<close> that \<^verbatim>\<open>ltr\<close> loads later. The processor reads
  back from the two halves of the descriptor the full 64-bit address of the segment, its limit, the
  type of an available segment and the present bit; the null and code entries are untouched.\<close>

theorem boot_gdt_decodes:
  "\<exists>g g'. Gdt__add_entry (Gdt__init zero_gdt) GDT__KERNEL_CODE = Inr (8, g) \<and> Gdt__add_tss g addr 0 = Inr g'
     \<and> unat (tss_segment 0) = 8 * 2 \<and> gdt_table g' ! 0 = 0 \<and> gdt_table g' ! 1 = 0x00af9b000000ffff
     \<and> desc_base (gdt_table g' ! 2) (gdt_table g' ! 3) = addr \<and> desc_limit (gdt_table g' ! 2) = 103
     \<and> desc_type (gdt_table g' ! 2) = 9 \<and> desc_present (gdt_table g' ! 2)"
  using add_cores_le_3(2) [of addr]
  by (auto simp: add_kernel_code [unfolded GDT__KERNEL_CODE_eq] desc_base_tss desc_fields_tss tss_segments core_table_def GDT__KERNEL_CODE_eq
      bindR_eq_Inr)

text \<open>The table of eight entries has room for the task state segments of three cores, added in order:
  each is found under its \<^verbatim>\<open>tss_segment\<close> selector with its own address. A fourth core panics.\<close>

theorem gdt_holds_three_cores:
  "(length addrs \<le> 3 \<longrightarrow> (\<exists>g. add_cores code_gdt 0 addrs = Inr g \<and> (\<forall>i<length addrs.
       desc_base (gdt_table g ! (unat (tss_segment (int i)) div 8)) (gdt_table g ! (unat (tss_segment (int i)) div 8 + 1)) = addrs ! i)))
   \<and> (length addrs > 3 \<longrightarrow> add_cores code_gdt 0 addrs = Inl (Panic ''index + 1 < 8''))"
proof (intro conjI impI)
  assume "length addrs \<le> 3"
  then consider "addrs = []" | a where "addrs = [a]" | a b where "addrs = [a, b]" | a b c where "addrs = [a, b, c]"
    by (cases addrs rule: remdups_adj.cases) (auto simp: le_Suc_eq numeral_3_eq_3 length_Suc_conv)
  then show "\<exists>g. add_cores code_gdt 0 addrs = Inr g \<and> (\<forall>i<length addrs.
       desc_base (gdt_table g ! (unat (tss_segment (int i)) div 8)) (gdt_table g ! (unat (tss_segment (int i)) div 8 + 1)) = addrs ! i)"
    by cases (simp_all add: add_cores_le_3 del: add_cores.simps, auto simp: less_Suc_eq tss_segments core_table_def desc_base_tss)
qed (rule add_cores_gt_3)

theorem gdt_holds_three_cores_witness:
  "(\<exists>g. add_cores code_gdt 0 [4096, 8192] = Inr g
      \<and> desc_base (gdt_table g ! (unat (tss_segment 1) div 8)) (gdt_table g ! (unat (tss_segment 1) div 8 + 1)) = 8192)
   \<and> add_cores code_gdt 0 [1, 2, 3, 4] = Inl (Panic ''index + 1 < 8'')"
proof -
  obtain g where g: "add_cores code_gdt 0 [4096, 8192] = Inr g" "\<forall>i<2.
      desc_base (gdt_table g ! (unat (tss_segment (int i)) div 8)) (gdt_table g ! (unat (tss_segment (int i)) div 8 + 1))
        = [4096, 8192] ! i"
    using gdt_holds_three_cores [of "[4096, 8192]"] by auto
  show ?thesis using g(1) g(2) [rule_format, of 1] gdt_holds_three_cores [of "[1, 2, 3, 4]"] by auto
qed

text \<open>The machine after \<^verbatim>\<open>descriptor__init\<close>, before its log line: the table is at offset \<open>g\<close> of the initial
  allocator, the segment after it, and the interrupt stack in the pages \<open>x\<close> and \<open>x + 1\<close>.\<close>

definition described :: "int \<Rightarrow> memory \<Rightarrow> s64 \<Rightarrow> machine \<Rightarrow> machine" where
  "described x h g M = M\<lparr>heap := h, InitAlloc := (InitAlloc M)\<lparr>bump_idx := g + 176\<rparr>,
     gdt_obj := (bump_begin (InitAlloc M) + U64 g, \<lparr>gdt_index = 4, gdt_table = core_table [bump_begin (InitAlloc M) + U64 (g + 72)]\<rparr>),
     tss_obj := (bump_begin (InitAlloc M) + U64 (g + 72),
       zero_tss\<lparr>interrupt_stack_table := (interrupt_stack_table zero_tss)[0 := page_ptr x + 8192]\<rparr>),
     cpu_state := (cpu_state M)\<lparr>gdtr_size := 31, gdtr_base := bump_begin (InitAlloc M) + U64 g + 8, cs := 8\<rparr>\<rparr>"

abbreviation gdt_line :: string where
  "gdt_line \<equiv> log_line (prefix_text \<lparr>loc_file = Some ''./kern/descriptor_tables.c'', loc_line = 79\<rparr> @ ''global descriptor table INIT_COMPLETE'')"

lemma descriptor__init_run:
  assumes heap: "heap_ok N (heap M)" "{y..<y + 2} \<subseteq> free_set (heap M)" "2 dvd y"
    and alloc: "alloc_placed (InitAlloc M)" "bump_idx (InitAlloc M) + 183 \<le> bump_count (InitAlloc M)" and log: "log_ready (log_state M)"
  obtains x h g M' where "descriptor__init M = Inr M'" "logged (described x h g M) M' gdt_line" "allocated N (heap M) 2 x h"
    "8 dvd g" "bump_idx (InitAlloc M) \<le> g" "g < bump_idx (InitAlloc M) + 8" "0 \<le> g" "g + 176 \<le> bump_count (InitAlloc M)"
proof -
  define b where "b = InitAlloc M"
  define g where "g = round_up (bump_idx b) 3"
  have ok: "bump_ok b" and i0: "0 \<le> bump_idx b" using alloc(1) by (auto simp: b_def alloc_placed_def bump_ok_def)
  have g: "8 dvd g" "bump_idx b \<le> g" "g < bump_idx b + 8"
    using round_up [where i = "bump_idx b" and k = 3] by (simp_all add: g_def)
  have fit: "g + 72 + 104 \<le> bump_count b" using alloc(2) g(3) by (simp add: b_def)
  have b1: "Bump__bump_impl [] b 72 8 = Inr (bump_begin b + U64 g, b\<lparr>bump_idx := g + 72\<rparr>)"
    using Bump__bump_impl_eq [OF ok, of 3 72 "[]"] fit by (simp add: g_def)
  define b' where "b' = b\<lparr>bump_idx := g + 72\<rparr>"
  have b': "bump_ok b'" using ok fit g(2) i0 by (simp add: b'_def bump_ok_def)
  have b2: "Bump__bump_impl [] b' 104 1 = Inr (bump_begin b + U64 (g + 72), b\<lparr>bump_idx := g + 176\<rparr>)"
    using Bump__bump_impl_eq [OF b', of 0 104 "[]"] fit by (simp add: b'_def round_up_def)
  have nz: "bump_begin b + U64 g \<noteq> 0" "bump_begin b + U64 (g + 72) \<noteq> 0"
    using alloc_placed_nonzero [of b g] alloc_placed_nonzero [of b "g + 72"] alloc(1) g(2) i0 fit by (auto simp: b_def)
  have "\<not> (\<forall>k y. k < CLASS_COUNT \<longrightarrow> (2 :: int) \<le> 2 ^ k \<longrightarrow> 2 ^ k dvd y \<longrightarrow> \<not> {y..<y + 2 ^ k} \<subseteq> free_set (heap M))"
    unfolding not_all using heap(2,3) by (intro exI [of _ 1] exI [of _ y]) (simp add: CLASS_COUNT_def)
  then obtain x h where z: "zeroed_pages (heap M) 2 = Inr (page_ptr x, h)" "allocated N (heap M) 2 x h"
    using zeroed_pages_spec [OF heap(1), of 2] by auto
  have tss: "Gdt__add_tss code_gdt a 0 = Inr \<lparr>gdt_index = 4, gdt_table = core_table [a]\<rparr>" for a
    using add_cores_le_3(2) [of a] by (simp add: bindR_eq_Inr)
  have run: "descriptor__init M
      = kernel_log_fmt ''./kern/descriptor_tables.c'' 79 ''global descriptor table INIT_COMPLETE'' [] (described x h g M)"
    unfolding descriptor__init_def b_def [symmetric] b1 bindR_Inr prod.case b'_def [symmetric] b2 Let_def
    using nz by (simp add: z(1) add_kernel_code tss described_def load_gdt_def b_def)
  have "list_all (\<lambda>c. c \<noteq> NUL \<and> c \<noteq> CHR ''%'') ''global descriptor table INIT_COMPLETE''" by (simp add: NUL_def)
  then show thesis
    using kernel_log_logged [of "described x h g M" "''./kern/descriptor_tables.c''" "''global descriptor table INIT_COMPLETE''" 79] log
      that [of _ x h g] run z(2) g fit i0 by (auto simp: described_def b_def)
qed

text \<open>C35. \<^verbatim>\<open>descriptor__init\<close> on a consistent machine with room in the initial allocator returns: it
  places the table and the segment at two disjoint ranges, loads the register with the limit of the four
  used entries, sets \<^verbatim>\<open>cs\<close> to the kernel code selector, gives the segment a fresh interrupt stack whose
  top is the end of two zeroed pages, and logs one line. The heap stays consistent.\<close>

theorem descriptor__init_correct:
  assumes heap: "heap_ok N (heap M)" "{y..<y + 2} \<subseteq> free_set (heap M)" "2 dvd y"
    and alloc: "alloc_placed (InitAlloc M)" "bump_idx (InitAlloc M) + 183 \<le> bump_count (InitAlloc M)"
    and log: "log_ok (log_state M)" "\<not> UseInterrupts (log_state M)"
  shows "\<exists>M' x g t T. descriptor__init M = Inr M' \<and> heap_ok N (heap M') \<and> {x..<x + 2} \<subseteq> free_set (heap M)
    \<and> free_set (heap M') = free_set (heap M) - {x..<x + 2}
    \<and> interrupt_stack_table T ! 0 = page_ptr x + 8192 \<and> tss_obj M' = (bump_begin (InitAlloc M) + U64 t, T)
    \<and> cs (cpu_state M') = 8 \<and> gdtr_size (cpu_state M') = 31 \<and> gdtr_base (cpu_state M') = bump_begin (InitAlloc M) + U64 g + 8
    \<and> gdt_table (snd (gdt_obj M')) = core_table [fst (tss_obj M')]
    \<and> bump_idx (InitAlloc M) \<le> g \<and> 8 dvd g \<and> g + 72 \<le> t \<and> t + 104 = bump_idx (InitAlloc M')
    \<and> bump_idx (InitAlloc M') \<le> bump_count (InitAlloc M)
    \<and> log_ok (log_state M') \<and> serial (log_state M') = serial (log_state M)
        @ log_line (prefix_text \<lparr>loc_file = Some ''./kern/descriptor_tables.c'', loc_line = 79\<rparr> @ ''global descriptor table INIT_COMPLETE'')"
proof -
  obtain x h g M' where r: "descriptor__init M = Inr M'" "logged (described x h g M) M' gdt_line" "allocated N (heap M) 2 x h"
      "8 dvd g" "bump_idx (InitAlloc M) \<le> g" "g + 176 \<le> bump_count (InitAlloc M)"
    using descriptor__init_run [OF heap alloc] log by metis
  note f = logged_fields [OF r(2)]
  have "interrupt_stack_table (snd (tss_obj M')) ! 0 = page_ptr x + 8192" using f by (simp add: described_def zero_tss_def numeral_eq_Suc)
  moreover have "serial (log_state M') = serial (log_state M) @ gdt_line" using r(2) by (simp add: logged_def described_def)
  ultimately show ?thesis using r f
    by (intro exI [of _ M'] exI [of _ x] exI [of _ g] exI [of _ "g + 72"] exI [of _ "snd (tss_obj M')"])
      (simp add: described_def allocated_def)
qed

definition sample_cpu :: cpu where
  "sample_cpu = \<lparr>gdtr_size = 0, gdtr_base = 0, idtr_size = 0, idtr_base = 0, cs = 0, tr = 0, cr3 = 0, msr = (\<lambda>_. 0)\<rparr>"

definition sample_machine :: "memory \<Rightarrow> machine" where
  "sample_machine s = \<lparr>heap = s, InitAlloc = \<lparr>bump_begin = page_ptr 16, bump_count = 4096, bump_idx = 5\<rparr>,
     log_state = sample_log, cpu_state = sample_cpu, gdt_obj = (0, zero_gdt), tss_obj = (0, zero_tss)\<rparr>"

theorem descriptor__init_correct_witness:
  "\<exists>s M. release_pages sample_heap (page_ptr 0) 8 = Inr s \<and> descriptor__init (sample_machine s) = Inr M
     \<and> cs (cpu_state M) = 8 \<and> gdtr_size (cpu_state M) = 31"
proof -
  obtain s where s: "release_pages sample_heap (page_ptr 0) 8 = Inr s" "heap_ok 64 s" "free_set s = {0..<8}"
    using sample_released by blast
  have "alloc_placed (InitAlloc (sample_machine s))"
    by (auto simp: alloc_placed_def sample_machine_def bump_ok_def intro!: exI [of _ 16])
  then obtain M where "descriptor__init (sample_machine s) = Inr M" "cs (cpu_state M) = 8" "gdtr_size (cpu_state M) = 31"
    using descriptor__init_correct [of 64 "sample_machine s" 0] s(2,3) sample_log_ready
    by (auto simp: sample_machine_def)
  with s(1) show ?thesis by blast
qed

text \<open>What \<^verbatim>\<open>load_gdt\<close> loads is what \<^verbatim>\<open>current_gdt\<close> reads: the table and the offset of its last byte.\<close>

lemma current_gdt_load:
  assumes "0 < uint (gdt_index g)" "uint (gdt_index g) \<le> 8"
  shows "info_gdt (current_gdt (load_gdt base g sel c)) = base + 8"
    "uint (info_size (current_gdt (load_gdt base g sel c))) = 8 * uint (gdt_index g) - 1"
proof -
  have "gdt_index g * 8 - 1 = word_of_int (uint (gdt_index g) * 8 - 1)" by simp
  moreover have "uint (word_of_int (uint (gdt_index g) * 8 - 1) :: u16) = uint (gdt_index g) * 8 - 1"
    unfolding uint_word_of_int by (rule mod_pos_pos_trivial) (use assms in simp_all)
  ultimately have "uint (gdt_index g * 8 - 1) = 8 * uint (gdt_index g) - 1" by (simp only: mult.commute)
  then show "uint (info_size (current_gdt (load_gdt base g sel c))) = 8 * uint (gdt_index g) - 1"
    by (simp add: current_gdt_def load_gdt_def)
qed (simp add: current_gdt_def load_gdt_def)

end
