(* ===== verification/Address_Space.thy ===== *)
theory Address_Space
  imports Page_Destroy Descriptors
begin

text \<open>
  Whole address spaces, from \<^verbatim>\<open>src/kern/page_tables.c\<close>: the table that \<^verbatim>\<open>cr3\<close> points to, the move of
  the boot loader's identity mapping to the higher half, and the copy of mappings from one tree of tables to
  another. Before the move the kernel reads its tables at their physical addresses; the model reads the same
  words of physical memory.
\<close>

section \<open>Model\<close>

definition get_page_table :: "cpu \<Rightarrow> u64 result" where
  "get_page_table c = kernel_ptr (cr3 c)"

definition set_page_table :: "u64 \<Rightarrow> cpu \<Rightarrow> cpu result" where
  "set_page_table p4 c = bindR (physical_address p4) (\<lambda>a. Inr (c\<lparr>cr3 := a\<rparr>))"

definition UNSAFE_HACKY_higher_half_init :: "cpu \<Rightarrow> memory \<Rightarrow> (cpu \<times> memory) result" where
  "UNSAFE_HACKY_higher_half_init c s =
     (let table = cr3 c + KERNEL_SPACE_BEGIN; ind = page_table_indices KERNEL_SPACE_BEGIN in
      bindR (assertR (i3 ind = 0) ''indices.p3 == 0'') (\<lambda>_.
      bindR (assertR (i2 ind = 0) ''indices.p2 == 0'') (\<lambda>_.
      bindR (assertR (i1 ind = 0) ''indices.p1 == 0'') (\<lambda>_.
      bindR (assertR (i0 ind = 0) ''indices.p0 == 0'') (\<lambda>_.
      let s = store_entry s table (i4 ind) (load_entry s table 0);
          s = store_entry s table 0 0
      in Inr (c\<lparr>cr3 := cr3 c\<rparr>, s))))))"

section \<open>The move to the higher half\<close>

lemma kernel_indices: "i4 (page_table_indices KERNEL_SPACE_BEGIN) = 256" "i3 (page_table_indices KERNEL_SPACE_BEGIN) = 0"
    "i2 (page_table_indices KERNEL_SPACE_BEGIN) = 0" "i1 (page_table_indices KERNEL_SPACE_BEGIN) = 0"
    "i0 (page_table_indices KERNEL_SPACE_BEGIN) = 0"
  by code_simp+

lemma higher_half_run:
  assumes "cr3 c + KERNEL_SPACE_BEGIN = page_ptr p"
  shows "UNSAFE_HACKY_higher_half_init c s
    = Inr (c, store (store s (page_ptr p + U64 (8 * 256)) (entry s p 0)) (page_ptr p + U64 (8 * 0)) 0)"
  using assms kernel_indices
  by (simp add: UNSAFE_HACKY_higher_half_init_def Let_def store_entry_def load_entry_def entry_def)

text \<open>\<open>moved s s' lv p\<close>: the first entry of the root is now its entry 256, nothing else changed in the tree.\<close>

definition moved :: "memory \<Rightarrow> memory \<Rightarrow> (int \<rightharpoonup> nat) \<Rightarrow> int \<Rightarrow> bool" where
  "moved s s' lv p \<longleftrightarrow> free_set s' = free_set s \<and> (\<forall>t\<in>dom lv. \<forall>i\<in>{0..<512}. entry s' t i =
     (if t = p \<and> i = 0 then 0 else if t = p \<and> i = 256 then entry s p 0 else entry s t i))"

lemma moved_store:
  assumes "\<forall>t\<in>dom lv. page_ok t" "p \<in> dom lv"
  shows "moved s (store (store s (page_ptr p + U64 (8 * 256)) (entry s p 0)) (page_ptr p + U64 (8 * 0)) 0) lv p"
proof -
  have "entry (store (store s (page_ptr p + U64 (8 * 256)) e) (page_ptr p + U64 (8 * 0)) 0) t i
      = (if t = p \<and> i = 0 then 0 else if t = p \<and> i = 256 then e else entry s t i)"
    if "t \<in> dom lv" "i \<in> {0..<512}" for t i e
    using entry_store [of p t 0 i _ 0] entry_store [of p t 256 i s e] assms that by auto
  then show ?thesis by (simp add: moved_def free_set_def store_def)
qed

lemma moved_child:
  assumes m: "moved s s' lv p" and p: "lv p = Some 4" and t: "lv t = Some l" "0 \<le> i" "i < 512"
  shows "child s' l t i = (if t = p \<and> i = 0 then None else if t = p \<and> i = 256 then child s l p 0 else child s l t i)"
  using m t p unfolding moved_def child_def by (auto simp: Let_def domI)

lemma moved_pt_ok:
  assumes m: "moved s s' lv p" and pt: "pt_ok N s lv p"
  shows "pt_ok N s' lv p"
proof -
  note p = pt_okD(1) [OF pt] and D = pt_okD [OF pt]
  have src: "\<exists>j. 0 \<le> j \<and> j < 512 \<and> child s l t j = Some c \<and> (if t = p \<and> i = 256 then j = 0 else j = i) \<and> \<not> (t = p \<and> i = 0)"
    if t: "lv t = Some l" "0 \<le> i" "i < 512" "child s' l t i = Some c" for t l i c
    using t(2-) moved_child [OF m p t(1-3)] by (cases "t = p \<and> i = 256") (auto split: if_splits)
  have lvl: "lv c = Some (l - 1)" if "lv t = Some l" "0 \<le> i" "i < 512" "child s' l t i = Some c" for t l i c
    using src [OF that] D(4) [OF that(1)] by blast
  have uni: "t = u \<and> i = j" if t: "lv t = Some l" "0 \<le> i" "i < 512" "child s' l t i = Some c"
    and u: "lv u = Some k" "0 \<le> j" "j < 512" "child s' k u j = Some c" for t l i u k j c
    using src [OF t] src [OF u] D(5) [OF t(1) u(1)] by (metis)
  have pg: "page_ok (pte_page (entry s' t i))" if "t \<in> dom lv" "0 \<le> i" "i < 512" for t i
    using m that D(6) [of t _ i] D(6) [OF p, of 0] pte_page_zero unfolding moved_def by auto
  have "dom lv \<subseteq> {0..<N} - free_set s'" using D(2) m by (simp add: moved_def)
  note A = pt_okI [where s = s' and lv = lv, OF p this D(3) lvl uni pg]
  show ?thesis by (rule A)
qed

lemma moved_rooted:
  assumes m: "moved s s' lv p" and pt: "pt_ok N s lv p" and r: "rooted s lv p" and z: "entry s p 256 = 0"
  shows "rooted s' lv p"
proof -
  note p = pt_okD(1) [OF pt]
  have "\<exists>u l i. lv u = Some l \<and> 0 \<le> i \<and> i < 512 \<and> child s' l u i = Some t" if t: "t \<in> dom lv" "t \<noteq> p" for t
  proof -
    obtain u l i where u: "lv u = Some l" "0 \<le> i" "i < 512" "child s l u i = Some t" using r t unfolding rooted_def by blast
    have ne: "\<not> (u = p \<and> i = 256)" using u(4) z by (auto simp: child_def)
    show ?thesis
    proof (cases "u = p \<and> i = 0")
      case True
      then show ?thesis using u moved_child [OF m p p, of 256] p by (intro exI [of _ p] exI [of _ 4] exI [of _ 256]) auto
    next
      case False
      then have "child s' l u i = Some t" using ne u(4) moved_child [OF m p u(1-3)] by auto
      then show ?thesis using u(1-3) by blast
    qed
  qed
  moreover have "\<not> huge (entry s' t i)" if "lv t = Some l" "2 < l" "0 \<le> i" "i < 512" for t l i
    using m that r p unfolding moved_def rooted_def by (auto simp: domI)
  ultimately show ?thesis unfolding rooted_def by blast
qed

lemma view_cong:
  assumes "\<And>j. 0 < j \<Longrightarrow> j \<le> l \<Longrightarrow> idx j va = idx j va'"
  shows "view s l t va = view s l t va'"
  using assms
proof (induction l arbitrary: t)
  case (Suc l)
  have v: "view s l u va = view s l u va'" for u using Suc by auto
  have i: "idx (Suc l) va = idx (Suc l) va'" using Suc.prems [of "Suc l"] by simp
  show ?case unfolding view.simps v i ..
qed simp

lemma moved_view_below:
  assumes m: "moved s s' lv p" and pt: "pt_ok N s lv p"
  shows "lv t = Some l \<Longrightarrow> l < 4 \<Longrightarrow> view s' l t va = view s l t va"
proof (induction l arbitrary: t)
  case (Suc l)
  have e: "entry s' t (idx (Suc l) va) = entry s t (idx (Suc l) va)"
    using m Suc.prems pt_okD(1) [OF pt] unfolding moved_def by (auto simp: domI)
  have "view s' l (pte_page (entry s t (idx (Suc l) va))) va = view s l (pte_page (entry s t (idx (Suc l) va))) va"
    if "entry s t (idx (Suc l) va) \<noteq> 0" "\<not> (l = 0 \<or> l = 1 \<and> huge (entry s t (idx (Suc l) va)))"
  proof -
    have "2 < Suc l \<or> Suc l = 2 \<and> \<not> huge (entry s t (idx (Suc l) va))" using that(2) by (cases "l = 1") auto
    then have "lv (pte_page (entry s t (idx (Suc l) va))) = Some l"
      using child_table [OF pt Suc.prems(1) that(1) idx_bounds] by simp
    then show ?thesis using Suc.IH Suc.prems(2) by simp
  qed
  then show ?case unfolding view.simps e Let_def by auto
qed simp

lemma moved_view:
  assumes m: "moved s s' lv p" and pt: "pt_ok N s lv p"
  shows "idx 4 va = 0 \<Longrightarrow> view s' 4 p va = None"
    and "idx 4 va \<noteq> 0 \<Longrightarrow> idx 4 va \<noteq> 256 \<Longrightarrow> view s' 4 p va = view s 4 p va"
    and "idx 4 va = 256 \<Longrightarrow> idx 4 va0 = 0 \<Longrightarrow> (\<And>j. 0 < j \<Longrightarrow> j \<le> 3 \<Longrightarrow> idx j va = idx j va0) \<Longrightarrow> view s' 4 p va = view s 4 p va0"
proof -
  note p = pt_okD(1) [OF pt]
  have e: "entry s' p i = (if i = 0 then 0 else if i = 256 then entry s p 0 else entry s p i)" if "i \<in> {0..<512}" for i
    using m p that unfolding moved_def by (auto simp: domI)
  have v: "view x 4 p va = (let e = entry x p (idx 4 va) in if e = 0 then None else view x 3 (pte_page e) va)" for x va
    using view.simps(2) [of x 3 p va] by (simp add: Let_def)
  have low: "view s' 3 (pte_page (entry s p i)) va = view s 3 (pte_page (entry s p i)) va"
    if "entry s p i \<noteq> 0" "0 \<le> i" "i < 512" for i va
    using moved_view_below [OF m pt] child_table [OF pt p that] by simp
  show "idx 4 va = 0 \<Longrightarrow> view s' 4 p va = None" using e [of 0] by (simp add: v)
  show "idx 4 va \<noteq> 0 \<Longrightarrow> idx 4 va \<noteq> 256 \<Longrightarrow> view s' 4 p va = view s 4 p va"
    using e [of "idx 4 va"] low [of "idx 4 va"] by (simp add: v Let_def)
  assume a: "idx 4 va = 256" "idx 4 va0 = 0" "\<And>j. 0 < j \<Longrightarrow> j \<le> 3 \<Longrightarrow> idx j va = idx j va0"
  have "view s 3 t va = view s 3 t va0" for t using a(3) by (rule view_cong)
  then show "view s' 4 p va = view s 4 p va0" using a(1,2) e [of 256] low [of 0] by (simp add: v Let_def)
qed

lemma high_idx:
  assumes "uint va < 2 ^ 39"
  shows "idx 4 (va + KERNEL_SPACE_BEGIN) = 256" "idx 4 va = 0" "0 < j \<Longrightarrow> j \<le> 3 \<Longrightarrow> idx j (va + KERNEL_SPACE_BEGIN) = idx j va"
    and "n \<le> 39 \<Longrightarrow> uint (va + KERNEL_SPACE_BEGIN) mod 2 ^ n = uint va mod 2 ^ n"
proof -
  have u: "uint (va + KERNEL_SPACE_BEGIN) = uint va + 0xffff800000000000"
    using uint_add_lem [of va KERNEL_SPACE_BEGIN] assms by (simp add: KERNEL_SPACE_BEGIN_def)
  have nn: "0 \<le> uint va" by simp
  show "idx 4 va = 0" using assms nn by (simp add: idx_def)
  have "(uint va + 0xffff800000000000) div 2 ^ 39 = uint va div 2 ^ 39 + 0x1ffff00" by simp
  then show "idx 4 (va + KERNEL_SPACE_BEGIN) = 256" using assms nn by (simp add: idx_def u)
  have k: "(0xffff800000000000 :: int) = 2 ^ 39 * 0x1ffff00" by simp
  show md: "uint (va + KERNEL_SPACE_BEGIN) mod 2 ^ n = uint va mod 2 ^ n" if "n \<le> 39" for n
  proof -
    have "(2 :: int) ^ n dvd 2 ^ 39" using that by (rule le_imp_power_dvd)
    then have "(2 :: int) ^ n dvd 0xffff800000000000" unfolding k by (rule dvd_mult2)
    then show ?thesis unfolding u by (metis mod_add_right_eq add.right_neutral dvd_imp_mod_0)
  qed
  assume j: "0 < j" "j \<le> 3"
  have split: "x div 2 ^ (3 + 9 * j) mod 512 = x mod 2 ^ (12 + 9 * j) div 2 ^ (3 + 9 * j)" for x :: int
  proof -
    have "(2 :: int) ^ (12 + 9 * j) = 2 ^ (3 + 9 * j) * 512" by (simp add: power_add)
    then show ?thesis by (simp add: zmod_zmult2_eq)
  qed
  show "idx j (va + KERNEL_SPACE_BEGIN) = idx j va"
    unfolding idx_def split using md [of "12 + 9 * j"] j by simp
qed

section \<open>Contiguous regions\<close>

text \<open>The addresses that a tree of tables can give for a page-aligned address.\<close>

lemma uint_vaddr_mod: "uint (vaddr V) mod 2 ^ (12 + n) = 4096 * (V mod 2 ^ n)" if "12 + n \<le> 64"
proof -
  have "uint (vaddr V) = take_bit 64 (4096 * V)" unfolding vaddr_def unsigned_of_int by simp
  moreover have "take_bit 64 (4096 * V) mod 2 ^ (12 + n) = take_bit (12 + n) (4096 * V)"
    using that by (simp add: take_bit_eq_mod [symmetric] min_def)
  moreover have p: "(2 :: int) ^ (12 + n) = 4096 * 2 ^ n" by (simp add: power_add)
  have "take_bit (12 + n) (4096 * V) = 4096 * (V mod 2 ^ n)" unfolding take_bit_eq_mod p mult_mod_right ..
  ultimately show ?thesis by simp
qed

lemma vaddr_aligned: "4096 dvd uint (vaddr V)"
  using uint_vaddr_mod [of 0 V] by (simp add: dvd_eq_mod_eq_0)

lemma view_level: "view s l t va = Some (e, m) \<Longrightarrow> m = 1 \<or> m = 2"
  by (induction l arbitrary: t) (auto simp: Let_def split: if_splits)

lemma view_page_ok:
  assumes pt: "pt_ok N s lv p"
  shows "lv t = Some l \<Longrightarrow> view s l t va = Some (e, m) \<Longrightarrow> page_ok (pte_page e)"
proof (induction l arbitrary: t)
  case (Suc l)
  let ?e = "entry s t (idx (Suc l) va)"
  show ?case
  proof (cases "l = 0 \<or> l = 1 \<and> huge ?e")
    case True
    then show ?thesis using Suc.prems pt_okD(6) [OF pt Suc.prems(1) idx_bounds] by (auto simp: Let_def split: if_splits)
  next
    case False
    then have "2 < Suc l \<or> Suc l = 2 \<and> \<not> huge ?e" by (cases "l = 1") auto
    moreover have "?e \<noteq> 0" "view s l (pte_page ?e) va = Some (e, m)"
      using Suc.prems(2) False unfolding view.simps Let_def by (simp_all split: if_splits)
    ultimately show ?thesis using Suc.IH child_table [OF pt Suc.prems(1), of "idx (Suc l) va"] by simp
  qed
qed simp

lemma target_bound:
  assumes pt: "pt_ok N s lv p" and v: "view s 4 p (vaddr V) = Some (e, m)"
  shows "\<exists>k. target (Some (e, m)) (vaddr V) = page_ptr k \<and> 0 \<le> k \<and> k < 2 ^ 36"
proof -
  have e: "page_ok (pte_page e)" by (rule view_page_ok [OF pt pt_okD(1) [OF pt] v])
  obtain n where n: "n = (0 :: nat) \<or> n = 9" "3 + 9 * m = 12 + n" using view_level [OF v] by auto
  have "target (Some (e, m)) (vaddr V) = page_ptr (pte_page e) + U64 (4096 * (V mod 2 ^ n))"
    using uint_vaddr_mod [of n V] n by (auto simp: target_def)
  also have "\<dots> = page_ptr (pte_page e + V mod 2 ^ n)" by (simp add: page_ptr_add)
  finally show ?thesis using e n(1) by (intro exI conjI) (auto simp: page_ok_def intro: add_nonneg_nonneg)
qed

lemma page_ptr_inject:
  assumes "0 \<le> x" "x < 2 ^ 52" "0 \<le> y" "y < 2 ^ 52" "page_ptr x = page_ptr y"
  shows "x = y"
proof -
  have "U64 (x * 4096) = U64 (y * 4096)" using assms(5) by (simp add: page_ptr_def)
  moreover have "uint (U64 (x * 4096)) = x * 4096" by (rule uint_word_of_int_small) (use assms in simp_all)
  moreover have "uint (U64 (y * 4096)) = y * 4096" by (rule uint_word_of_int_small) (use assms in simp_all)
  ultimately show ?thesis by (metis mult_right_cancel zero_neq_numeral)
qed

lemma translate_vaddr:
  "pt_ok N s lv p \<Longrightarrow> N \<le> 2 ^ 35 \<Longrightarrow> translate s (page_ptr p) (vaddr V) = Inr (target (view s 4 p (vaddr V)) (vaddr V))"
  using vaddr_aligned [of V] by (intro translate_view) (auto simp: dvd_eq_mod_eq_0)

lemma region_size_loop_spec:
  assumes pt: "pt_ok N s lv p" and N: "N \<le> 2 ^ 35" and k: "0 \<le> k" and j: "0 \<le> j" "k + j \<le> 2 ^ 36"
  shows "\<exists>n. region_size_loop s (page_ptr p) (vaddr (V + j)) (page_ptr (k + j)) j = Some (Inr n) \<and> j \<le> n
           \<and> \<not> (translate s (page_ptr p) (vaddr (V + n)) = Inr (page_ptr (k + n)) \<and> page_ptr (k + n) \<noteq> 0)"
  using j
proof (induction "nat (2 ^ 36 - (k + j))" arbitrary: j rule: less_induct)
  case less
  let ?a = "target (view s 4 p (vaddr (V + j))) (vaddr (V + j))"
  note t = translate_vaddr [OF pt N, of "V + j"]
  have step: "region_size_loop s (page_ptr p) (vaddr (V + j)) (page_ptr (k + j)) j
      = (if ?a = 0 \<or> ?a \<noteq> page_ptr (k + j) then Some (Inr j)
         else region_size_loop s (page_ptr p) (vaddr (V + (j + 1))) (page_ptr (k + (j + 1))) (j + 1))"
    using t vaddr_add [of "V + j" 1] page_ptr_add [of "k + j" 1]
    by (subst region_size_loop.simps) (simp add: algebra_simps)
  show ?case
  proof (cases "?a = 0 \<or> ?a \<noteq> page_ptr (k + j)")
    case True
    then show ?thesis unfolding step using t by (intro exI [of _ j]) auto
  next
    case False
    then obtain e m where v: "view s 4 p (vaddr (V + j)) = Some (e, m)" by (auto simp: target_def split: option.splits)
    obtain k' where "?a = page_ptr k'" "0 \<le> k'" "k' < 2 ^ 36" using target_bound [OF pt v] v by auto
    then have "k + j < 2 ^ 36" using page_ptr_inject [of "k + j" k'] False less.prems k by auto
    then obtain n where "region_size_loop s (page_ptr p) (vaddr (V + (j + 1))) (page_ptr (k + (j + 1))) (j + 1) = Some (Inr n)"
        "j + 1 \<le> n" "\<not> (translate s (page_ptr p) (vaddr (V + n)) = Inr (page_ptr (k + n)) \<and> page_ptr (k + n) \<noteq> 0)"
      using less.hyps [of "j + 1"] less.prems k by (auto simp: algebra_simps)
    moreover have "region_size_loop s (page_ptr p) (vaddr (V + j)) (page_ptr (k + j)) j
        = region_size_loop s (page_ptr p) (vaddr (V + (j + 1))) (page_ptr (k + (j + 1))) (j + 1)"
      using step False by auto
    ultimately show ?thesis by (intro exI [of _ n]) simp
  qed
qed

lemma region_size_spec:
  assumes pt: "pt_ok N s lv p" and N: "N \<le> 2 ^ 35" and k: "0 \<le> k" "k + n \<le> 2 ^ 35" "0 < n" and r: "translates p s V n k"
  shows "\<exists>m. region_size s (page_ptr p) (vaddr V) = Some (Inr m) \<and> n \<le> m"
proof -
  have nz: "page_ptr (k + j) \<noteq> 0" if "j \<in> {0..<n}" for j using page_ptr_nonzero [of "k + j"] k that by (auto simp: page_ok_def)
  have tr: "translate s (page_ptr p) (vaddr (V + j)) = Inr (page_ptr (k + j))" if "j \<in> {0..<n}" for j
    using translate_vaddr [OF pt N, of "V + j"] r that by (simp add: translates_def)
  obtain m where m: "region_size_loop s (page_ptr p) (vaddr V) (page_ptr k) 0 = Some (Inr m)" "0 \<le> m"
      "\<not> (translate s (page_ptr p) (vaddr (V + m)) = Inr (page_ptr (k + m)) \<and> page_ptr (k + m) \<noteq> 0)"
    using region_size_loop_spec [OF pt N k(1), of 0 V] k by auto
  have "n \<le> m" using m(2,3) tr [of m] nz [of m] by (cases "m < n") auto
  moreover have "region_size s (page_ptr p) (vaddr V) = Some (Inr m)"
    using tr [of 0] nz [of 0] k(3) m(1) by (simp add: region_size_def)
  ultimately show ?thesis by blast
qed

section \<open>Two trees at once\<close>

text \<open>\<open>tree_same s s' lv\<close>: the tables \<open>lv\<close> have the same entries in both states.\<close>

definition tree_same :: "memory \<Rightarrow> memory \<Rightarrow> (int \<rightharpoonup> nat) \<Rightarrow> bool" where
  "tree_same s s' lv \<longleftrightarrow> (\<forall>t\<in>dom lv. \<forall>i\<in>{0..<512}. entry s' t i = entry s t i)"

lemma tree_same_child: "tree_same s s' lv \<Longrightarrow> lv t = Some l \<Longrightarrow> 0 \<le> i \<Longrightarrow> i < 512 \<Longrightarrow> child s' l t i = child s l t i"
  unfolding tree_same_def child_def by (metis atLeastLessThan_iff domI)

lemma tree_same_view:
  assumes m: "tree_same s s' lv" and pt: "pt_ok N s lv p"
  shows "lv t = Some l \<Longrightarrow> view s' l t va = view s l t va"
proof (induction l arbitrary: t)
  case (Suc l)
  let ?e = "entry s t (idx (Suc l) va)"
  have e: "entry s' t (idx (Suc l) va) = ?e" using m Suc.prems unfolding tree_same_def by (auto simp: domI)
  have "view s' l (pte_page ?e) va = view s l (pte_page ?e) va" if "?e \<noteq> 0" "\<not> (l = 0 \<or> l = 1 \<and> huge ?e)"
  proof -
    have "2 < Suc l \<or> Suc l = 2 \<and> \<not> huge ?e" using that(2) by (cases "l = 1") auto
    then show ?thesis using Suc.IH child_table [OF pt Suc.prems that(1) idx_bounds] by simp
  qed
  then show ?case unfolding view.simps e Let_def by auto
qed simp

lemma tree_same_ok:
  assumes m: "tree_same s s' lv" and pt: "pt_ok N s lv p" and f: "dom lv \<inter> free_set s' = {}"
  shows "pt_ok N s' lv p" "rooted s lv p \<Longrightarrow> rooted s' lv p"
proof -
  note D = pt_okD [OF pt] and c = tree_same_child [OF m]
  have lvl: "lv d = Some (l - 1)" if "lv t = Some l" "0 \<le> i" "i < 512" "child s' l t i = Some d" for t l i d
    using D(4) [OF that(1-3)] c [OF that(1-3)] that(4) by simp
  have uni: "t = u \<and> i = j" if t: "lv t = Some l" "0 \<le> i" "i < 512" "child s' l t i = Some d"
    and u: "lv u = Some k" "0 \<le> j" "j < 512" "child s' k u j = Some d" for t l i u k j d
    by (rule D(5) [OF t(1) u(1) t(2,3) u(2,3)]) (rule t(4) [unfolded c [OF t(1-3)]], rule u(4) [unfolded c [OF u(1-3)]])
  have pg: "page_ok (pte_page (entry s' t i))" if "t \<in> dom lv" "0 \<le> i" "i < 512" for t i
    using D(6) that m unfolding tree_same_def by (metis atLeastLessThan_iff domD)
  have dm: "dom lv \<subseteq> {0..<N} - free_set s'" using D(2) f by blast
  note A = pt_okI [where s = s' and lv = lv, OF D(1) dm D(3) lvl uni pg]
  show "pt_ok N s' lv p" by (rule A)
  show "rooted s' lv p" if r: "rooted s lv p"
  proof -
    have "\<exists>u l i. lv u = Some l \<and> 0 \<le> i \<and> i < 512 \<and> child s' l u i = Some t" if "t \<in> dom lv" "t \<noteq> p" for t
      using r that c unfolding rooted_def by metis
    moreover have "\<not> huge (entry s' t i)" if "lv t = Some l" "2 < l" "0 \<le> i" "i < 512" for t l i
      using r that m unfolding rooted_def tree_same_def by (metis atLeastLessThan_iff domI)
    ultimately show ?thesis unfolding rooted_def by blast
  qed
qed

lemma grows_tree_same:
  assumes g: "grows N p s lv s' lv'" and pt: "pt_ok N s lv2 q" and N: "N \<le> 2 ^ 35" and d: "dom lv2 \<inter> dom lv = {}"
  shows "tree_same s s' lv2" "dom lv2 \<inter> free_set s' = {}" "dom lv2 \<inter> dom lv' = {}"
proof -
  have f: "dom lv2 \<inter> free_set s = {}" using pt_okD(2) [OF pt] by blast
  show "dom lv2 \<inter> free_set s' = {}" "dom lv2 \<inter> dom lv' = {}" using g f d unfolding grows_def by blast+
  have "entry s' t i = entry s t i" if t: "t \<in> dom lv2" "0 \<le> i" "i < 512" for t i
  proof -
    have "page_ok t" using table_page_ok [OF pt N] t(1) by blast
    moreover have "t \<notin> free_set s" "t \<notin> dom lv" using f d t(1) by blast+
    ultimately show ?thesis using g entry_addr [OF t(2,3), of t] unfolding grows_def entry_def by blast
  qed
  then show "tree_same s s' lv2" by (simp add: tree_same_def)
qed

section \<open>Copying mappings\<close>

lemma copy_mapping_run:
  assumes ok: "heap_ok N s" and src: "pt_ok N s lv2 q" and b: "0 < n" "0 \<le> k" "k + n \<le> 2 ^ 35" and r: "translates q s V n k"
  shows "copy_mapping s p (page_ptr q) (vaddr V) n f = Some (map_region s p (vaddr V) (page_ptr k) n f)"
proof -
  note N = heap_ok_bound [OF ok]
  obtain m where m: "region_size s (page_ptr q) (vaddr V) = Some (Inr m)" "n \<le> m"
    using region_size_spec [OF src N b(2,3,1) r] by blast
  have t0: "translate s (page_ptr q) (vaddr V) = Inr (page_ptr k)"
    using translate_vaddr [OF src N, of V] r b(1) by (auto simp: translates_def dest!: bspec [of _ _ 0])
  have nz: "page_ptr k \<noteq> 0" using b by (intro page_ptr_nonzero) (simp add: page_ok_def)
  have "vaddr V AND NOT (mask 12) = vaddr V"
  proof -
    have "uint (vaddr V AND NOT (mask 12)) = uint (vaddr V)" using vaddr_aligned [of V] by (simp add: uint_and_not_mask)
    then show ?thesis by (simp add: word_uint_eq_iff)
  qed
  then have al: "align_down (vaddr V) 4096 = Inr (vaddr V)" using align_down_pow2 [of 12 "vaddr V"] by simp
  have stop: "copy_mapping_loop s' p (page_ptr q) (vaddr V) (n - m) f = Some (Inr (True, s'))" for s'
    using m(2) by (subst copy_mapping_loop.simps) simp
  have "min_s64 m n = n" using m(2) by (simp add: min_s64_def)
  then show ?thesis
    using al t0 nz m b(1) stop
    by (auto simp: copy_mapping_def copy_mapping_loop.simps [of s] split: sum.splits)
qed

lemma copy_mapping_spec:
  assumes ok: "heap_ok N s" and src: "pt_ok N s lv2 q" and dest: "pt_ok N s lv p" and d: "dom lv2 \<inter> dom lv = {}" and f: "flags_ok f"
    and b: "0 < V" "0 < n" "V + n \<le> 2 ^ 52" "0 \<le> k" "k + n \<le> 2 ^ 35" and r: "translates q s V n k"
    and nh: "\<forall>j\<in>{0..<n}. \<forall>e. view s 4 p (vaddr (V + j)) \<noteq> Some (e, 2)"
  shows "\<exists>res s' lv'. copy_mapping s (page_ptr p) (page_ptr q) (vaddr V) n f = Some (Inr (res, s')) \<and> grows N p s lv s' lv'
           \<and> keeps_outside p s s' V n \<and> (res \<longrightarrow> translates p s' V n k)"
  unfolding copy_mapping_run [OF ok src b(2,4,5) r] using map_region_spec [OF ok dest f b nh] by simp

lemma copy_mapping_cost:
  assumes "heap_ok N s" "pt_ok N s lv2 q" "pt_ok N s lv p" "flags_ok f"
    and "0 < V" "0 < n" "V + n \<le> 2 ^ 52" "0 \<le> k" "k + n \<le> 2 ^ 35" "translates q s V n k"
    and "\<forall>j\<in>{0..<n}. view s 4 p (vaddr (V + j)) = None" "region_fits s lv n"
    and "copy_mapping s (page_ptr p) (page_ptr q) (vaddr V) n f = Some (Inr (res, s'))"
  shows "\<exists>lv'. grows N p s lv s' lv' \<and> spends (region_cost V n k) s s' \<and> (res \<or> free_set s' = {})
           \<and> (res \<and> leafy s lv \<longrightarrow> leafy s' lv')"
  using map_region_cost [OF assms(1,3-9) assms(11,12)] assms(13) unfolding copy_mapping_run [OF assms(1,2,6,8-10)] by simp

section \<open>A small tree\<close>

text \<open>
  Four tables in the pages \<open>q\<close> to \<open>q + 3\<close>, as a boot loader may leave them: the last entries of the upper three lead
  to the lowest one, which maps its first five slots and its last one, the slot \<open>i\<close> to the page \<open>q + 4 + i\<close>.
\<close>

definition boot_entry :: "int \<Rightarrow> int \<Rightarrow> int \<Rightarrow> u64" where
  "boot_entry q t i =
     (if q \<le> t \<and> t \<le> q + 2 \<and> i = 511 then U64 ((t + 1) * 4096) OR PTE_KERNEL
      else if t = q + 3 \<and> (i < 5 \<or> i = 511) then U64 ((q + 4 + i) * 4096) OR PTE_KERNEL
      else 0)"

definition boot_levels :: "int \<Rightarrow> (int \<rightharpoonup> nat)" where
  "boot_levels q = [q \<mapsto> 4, q + 1 \<mapsto> 3, q + 2 \<mapsto> 2, q + 3 \<mapsto> 1]"

definition with_boot_tables :: "int \<Rightarrow> memory \<Rightarrow> memory" where
  "with_boot_tables q s = s\<lparr>mem := (\<lambda>a. let t = page_number a in
     if q \<le> t \<and> t \<le> q + 3 then boot_entry q t (uint a mod 4096 div 8) else mem s a)\<rparr>"

lemma page_number_off:
  assumes "page_ok t" "0 \<le> off" "off < 4096"
  shows "page_number (page_ptr t + U64 off) = t" "uint (page_ptr t + U64 off) mod 4096 = off"
proof -
  have "t * 4096 + off + 0xffff800000000000 = off + 4096 * (t + 0xffff800000000)" by simp
  then have "(t * 4096 + off + 0xffff800000000000) mod 4096 = off" using assms(2,3) by (metis mod_mult_self2 mod_pos_pos_trivial)
  then show "uint (page_ptr t + U64 off) mod 4096 = off" using uint_page_off [OF assms] by simp
  show "page_number (page_ptr t + U64 off) = t" using uint_page_off [OF assms] assms by (simp add: page_number_def KERNEL_SPACE_BEGIN_def)
qed

lemma page_number_mem: "page_ok t \<Longrightarrow> a \<in> page_addrs t \<Longrightarrow> page_number a = t"
  by (auto simp: page_addrs_def page_number_off)

lemma with_boot_tables_simps [simp]:
  "free_set (with_boot_tables q s) = free_set s" "usable_set (with_boot_tables q s) = usable_set s"
  "free_memory (with_boot_tables q s) = free_memory s"
  "classes (with_boot_tables q s) = classes s"
  by (simp_all add: with_boot_tables_def free_set_def usable_set_def)

lemma with_boot_tables_mem:
  "page_ok x \<Longrightarrow> \<not> (q \<le> x \<and> x \<le> q + 3) \<Longrightarrow> a \<in> page_addrs x \<Longrightarrow> mem (with_boot_tables q s) a = mem s a"
  using page_number_mem [of x a] by (auto simp: with_boot_tables_def)

lemma with_boot_tables_ok:
  assumes "heap_ok N s" "{q..q + 3} \<inter> free_set s = {}"
  shows "heap_ok N (with_boot_tables q s)"
proof -
  have "page_ok x" if "x \<in> free_set s" for x
  proof -
    obtain fl where "heap_inv N s fl" using assms(1) by (auto simp: heap_ok_def)
    then show ?thesis using that heap_invD(9) by (fastforce simp: heap_inv_def bs_wf_def free_set_def bits_of_def page_ok_def)
  qed
  then have "mem (with_boot_tables q s) a = mem s a" if "x \<in> free_set s" "a \<in> page_addrs x" for x a
    using that assms(2) by (intro with_boot_tables_mem) auto
  from heap_ok_mem [OF assms(1) this] show ?thesis by (simp add: with_boot_tables_def)
qed

lemma keeps_entry: "keeps P s s' \<Longrightarrow> page_ok t \<Longrightarrow> t \<notin> P \<Longrightarrow> 0 \<le> i \<Longrightarrow> i < 512 \<Longrightarrow> entry s' t i = entry s t i"
  using entry_addr [of i t] unfolding keeps_def entry_def by blast

text \<open>\<open>boot_tree q s\<close>: the memory holds these tables.\<close>

definition boot_tree :: "int \<Rightarrow> memory \<Rightarrow> bool" where
  "boot_tree q s \<longleftrightarrow> (\<forall>t\<in>{q..q + 3}. \<forall>i\<in>{0..<512}. entry s t i = boot_entry q t i)"

lemma boot_tree_with:
  assumes "page_ok q" "page_ok (q + 3)"
  shows "boot_tree q (with_boot_tables q s)"
proof -
  have "entry (with_boot_tables q s) t i = boot_entry q t i" if "t \<in> {q..q + 3}" "i \<in> {0..<512}" for t i
    using page_number_off [of t "8 * i"] assms that by (simp add: entry_def with_boot_tables_def Let_def page_ok_def)
  then show ?thesis by (simp add: boot_tree_def)
qed

lemmas boot_slot = pte_facts [OF _ kernel_flags_ok(1)]

lemma boot_levels_cases: "boot_levels q t = Some l \<longleftrightarrow> q \<le> t \<and> t \<le> q + 3 \<and> int l = q + 4 - t"
  by (auto simp: boot_levels_def)

lemma boot_levels_dom: "dom (boot_levels q) = {q..q + 3}"
  by (auto simp: boot_levels_def)

lemma boot_child:
  assumes b: "boot_tree q s" "page_ok q" "page_ok (q + 3)" and t: "boot_levels q t = Some l" "0 \<le> i" "i < 512"
  shows "child s l t i = (if t \<le> q + 2 \<and> i = 511 then Some (t + 1) else None)"
proof -
  have r: "q \<le> t" "t \<le> q + 3" "int l = q + 4 - t" using t(1) by (auto simp: boot_levels_cases)
  have e: "entry s t i = boot_entry q t i" using b(1) r t by (simp add: boot_tree_def)
  have "page_ok (t + 1)" if "t \<le> q + 2" using that r b by (simp add: page_ok_def)
  note f = boot_slot [OF this]
  show ?thesis using r f unfolding child_def e boot_entry_def by (cases "t \<le> q + 2") (auto simp: Let_def)
qed

lemma boot_pt_ok:
  assumes b: "boot_tree q s" and q: "0 \<le> q" "q + 3 < N" "N \<le> 2 ^ 34" and f: "{q..q + 3} \<inter> free_set s = {}"
  shows "pt_ok N s (boot_levels q) q" "rooted s (boot_levels q) q"
proof -
  let ?lv = "boot_levels q"
  have pq: "page_ok q" "page_ok (q + 3)" using q by (simp_all add: page_ok_def)
  note c = boot_child [OF b pq]
  have p: "?lv q = Some 4" by (simp add: boot_levels_cases)
  have dm: "dom ?lv \<subseteq> {0..<N} - free_set s" using q f by (auto simp: boot_levels_dom)
  have rn: "1 \<le> l \<and> l \<le> 4" if "?lv t = Some l" for t l using that by (auto simp: boot_levels_cases)
  have lvl: "?lv d = Some (l - 1)" if "?lv t = Some l" "0 \<le> i" "i < 512" "child s l t i = Some d" for t l i d
    using c [OF that(1-3)] that by (auto simp: boot_levels_cases split: if_splits)
  have uni: "t = u \<and> i = j" if "?lv t = Some l" "0 \<le> i" "i < 512" "child s l t i = Some d"
    "?lv u = Some k" "0 \<le> j" "j < 512" "child s k u j = Some d" for t l i u k j d
    using c [OF that(1-3)] c [OF that(5-7)] that by (auto split: if_splits)
  have pg: "page_ok (pte_page (entry s t i))" if "t \<in> dom ?lv" "0 \<le> i" "i < 512" for t i
  proof -
    have t: "q \<le> t" "t \<le> q + 3" using that by (auto simp: boot_levels_dom)
    have ok: "page_ok (t + 1)" "page_ok (q + 4 + i)" using t q that(2,3) by (simp_all add: page_ok_def)
    have "entry s t i = boot_entry q t i" using b t that by (simp add: boot_tree_def)
    then show ?thesis using boot_slot(3) [OF ok(1)] boot_slot(3) [OF ok(2)] ok pte_page_zero by (simp add: boot_entry_def)
  qed
  note A = pt_okI [where s = s and lv = ?lv, OF p dm rn lvl uni pg]
  show "pt_ok N s ?lv q" by (rule A)
  have "\<exists>u l i. ?lv u = Some l \<and> 0 \<le> i \<and> i < 512 \<and> child s l u i = Some t" if "t \<in> dom ?lv" "t \<noteq> q" for t
  proof -
    have "?lv (t - 1) = Some (nat (q + 5 - t))" using that by (auto simp: boot_levels_cases boot_levels_dom)
    moreover from this have "child s (nat (q + 5 - t)) (t - 1) 511 = Some t"
      using c [of "t - 1" _ 511] that by (auto simp: boot_levels_dom)
    ultimately show ?thesis by (intro exI [of _ "t - 1"] exI [of _ "nat (q + 5 - t)"] exI [of _ "511 :: int"]) simp
  qed
  moreover have "\<not> huge (entry s t i)" if "?lv t = Some l" "2 < l" "0 \<le> i" "i < 512" for t l i
  proof -
    have t: "q \<le> t" "t < q + 2" using that by (auto simp: boot_levels_cases)
    then have "entry s t i = boot_entry q t i" "page_ok (t + 1)" using b q that by (simp_all add: boot_tree_def page_ok_def)
    then show ?thesis using boot_slot(2) [of "t + 1"] t by (auto simp: boot_entry_def huge_def)
  qed
  ultimately show "rooted s ?lv q" unfolding rooted_def by blast
qed

lemma boot_idx:
  assumes "0 \<le> i" "i < 512"
  shows "idx 4 (vaddr (2 ^ 52 - 512 + i)) = 511" "idx 3 (vaddr (2 ^ 52 - 512 + i)) = 511"
    "idx 2 (vaddr (2 ^ 52 - 512 + i)) = 511" "idx 1 (vaddr (2 ^ 52 - 512 + i)) = i"
proof -
  have u: "uint (vaddr (2 ^ 52 - 512 + i)) = 4096 * (2 ^ 52 - 512 + i)" using assms by (intro uint_vaddr) simp_all
  have e: "4096 * (2 ^ 52 - 512 + i) = 4096 * i + 0xffffffffffe00000" by simp
  have d: "(4096 * i + 0xffffffffffe00000) div 549755813888 = 0x1ffffff" "(4096 * i + 0xffffffffffe00000) div 1073741824 = 0x3ffffffff"
      "(4096 * i + 0xffffffffffe00000) div 2097152 = 0x7ffffffffff"
    by (rule int_div_pos_eq [of _ _ _ "4096 * i + 549753716736"] int_div_pos_eq [of _ _ _ "4096 * i + 1071644672"]
        int_div_pos_eq [of _ _ _ "4096 * i"]; use assms in simp)+
  have "(4096 * i + 0xffffffffffe00000) div 4096 = i + 512 * 0x7ffffffffff" by simp
  then have d1: "(4096 * i + 0xffffffffffe00000) div 4096 mod 512 = i"
    using assms by (metis mod_mult_self2 mod_pos_pos_trivial)
  show "idx 4 (vaddr (2 ^ 52 - 512 + i)) = 511" "idx 3 (vaddr (2 ^ 52 - 512 + i)) = 511"
    "idx 2 (vaddr (2 ^ 52 - 512 + i)) = 511" "idx 1 (vaddr (2 ^ 52 - 512 + i)) = i"
    unfolding idx_def u e using d d1 by simp_all
qed

lemma boot_view:
  assumes b: "boot_tree q s" and q: "0 \<le> q" "q + 3 < 2 ^ 34" and i: "0 \<le> i" "i < 5 \<or> i = 511"
  shows "view s 4 q (vaddr (2 ^ 52 - 512 + i)) = Some (U64 ((q + 4 + i) * 4096) OR PTE_KERNEL, 1)"
    "target (view s 4 q (vaddr (2 ^ 52 - 512 + i))) (vaddr (2 ^ 52 - 512 + i)) = page_ptr (q + 4 + i)"
proof -
  let ?va = "vaddr (2 ^ 52 - 512 + i)"
  have e: "entry s t 511 = U64 ((t + 1) * 4096) OR PTE_KERNEL" if "q \<le> t" "t \<le> q + 2" for t
    using b that by (simp add: boot_tree_def boot_entry_def)
  have e1: "entry s (q + 3) i = U64 ((q + 4 + i) * 4096) OR PTE_KERNEL" using b i by (auto simp: boot_tree_def boot_entry_def)
  have ok: "page_ok (q + 1)" "page_ok (q + 2)" "page_ok (q + 3)" "page_ok (q + 4 + i)" using q i by (auto simp: page_ok_def)
  have s: "entry s q 511 = U64 ((q + 1) * 4096) OR PTE_KERNEL" "entry s (q + 1) 511 = U64 ((q + 2) * 4096) OR PTE_KERNEL"
      "entry s (q + 2) 511 = U64 ((q + 3) * 4096) OR PTE_KERNEL"
    using e [of q] e [of "q + 1"] e [of "q + 2"] by (simp_all add: add.assoc)
  have n: "4 = Suc 3" "3 = Suc 2" "2 = Suc 1" "1 = Suc 0" by simp_all
  have ix: "idx 4 ?va = 511" "idx 3 ?va = 511" "idx 2 ?va = 511" "idx 1 ?va = i" using boot_idx [of i] i by auto
  have v1: "view s 1 (q + 3) ?va = Some (entry s (q + 3) i, 1)"
    using view.simps(2) [of s 0 "q + 3" ?va] ix(4) e1 boot_slot(1) [OF ok(4)] by (simp add: Let_def)
  have v2: "view s 2 (q + 2) ?va = view s 1 (q + 3) ?va"
    using view.simps(2) [of s 1 "q + 2" ?va] boot_slot [OF ok(3)] unfolding n(3) [symmetric] ix s(3) by (simp add: Let_def)
  have v3: "view s 3 (q + 1) ?va = view s 2 (q + 2) ?va"
    using view.simps(2) [of s 2 "q + 1" ?va] boot_slot [OF ok(2)] unfolding n(2) [symmetric] ix s(2) by (simp add: Let_def)
  have v4: "view s 4 q ?va = view s 3 (q + 1) ?va"
    using view.simps(2) [of s 3 q ?va] boot_slot [OF ok(1)] unfolding n(1) [symmetric] ix s(1) by (simp add: Let_def)
  show v: "view s 4 q ?va = Some (U64 ((q + 4 + i) * 4096) OR PTE_KERNEL, 1)" unfolding v4 v3 v2 v1 e1 ..
  have "uint ?va mod 4096 = 0" using vaddr_aligned by (simp add: dvd_eq_mod_eq_0)
  then show "target (view s 4 q ?va) ?va = page_ptr (q + 4 + i)" unfolding v target_def using boot_slot(3) [OF ok(4)] by simp
qed

section \<open>Properties\<close>

lemma target_high: "uint va < 2 ^ 39 \<Longrightarrow> view s 4 p va = Some (e, l) \<Longrightarrow>
    target (Some (e, l)) (va + KERNEL_SPACE_BEGIN) = target (Some (e, l)) va"
  using high_idx(4) [of va "3 + 9 * l"] view_level [of s 4 p va e l] by (auto simp: target_def)

lemma higher_half_view:
  assumes pt: "pt_ok N s lv p" and N: "N \<le> 2 ^ 35" and c: "cr3 c + KERNEL_SPACE_BEGIN = page_ptr p"
  obtains s' where "UNSAFE_HACKY_higher_half_init c s = Inr (c, s')" "moved s s' lv p" "pt_ok N s' lv p"
    "\<And>va. uint va < 2 ^ 39 \<Longrightarrow> view s' 4 p (va + KERNEL_SPACE_BEGIN) = view s 4 p va" "s' = s\<lparr>mem := mem s'\<rparr>"
    "\<And>x a. page_ok x \<Longrightarrow> x \<noteq> p \<Longrightarrow> a \<in> page_addrs x \<Longrightarrow> mem s' a = mem s a"
proof -
  define s' where "s' = store (store s (page_ptr p + U64 (8 * 256)) (entry s p 0)) (page_ptr p + U64 (8 * 0)) 0"
  have ok: "\<forall>t\<in>dom lv. page_ok t" "p \<in> dom lv" using table_page_ok [OF pt N] pt_okD(1) [OF pt] by blast+
  have m: "moved s s' lv p" unfolding s'_def by (rule moved_store [OF ok])
  have "view s' 4 p (va + KERNEL_SPACE_BEGIN) = view s 4 p va" if "uint va < 2 ^ 39" for va
    by (rule moved_view(3) [OF m pt]) (use high_idx [OF that] in auto)
  moreover have "mem s' a = mem s a" if "page_ok x" "x \<noteq> p" "a \<in> page_addrs x" for x a
    using page_addrs_disjoint [of x p] entry_addr [of 0 p] entry_addr [of 256 p] ok that by (auto simp: s'_def store_def)
  moreover have "s' = s\<lparr>mem := mem s'\<rparr>" by (simp add: s'_def store_def)
  ultimately show thesis using that [OF higher_half_run [OF c, of s, folded s'_def] m moved_pt_ok [OF m pt]] by blast
qed

text \<open>C19. The move to the higher half keeps what the boot loader mapped: every address of the first 512 GB translates, plus the
  start of kernel space, to what it translated to before; the low half is no longer mapped, all other addresses
  translate as before, and the tables are still a well-formed tree.\<close>

theorem higher_half_correct:
  assumes "pt_ok N s lv p" "N \<le> 2 ^ 35" "cr3 c + KERNEL_SPACE_BEGIN = page_ptr p"
  shows "\<exists>s'. UNSAFE_HACKY_higher_half_init c s = Inr (c, s') \<and> pt_ok N s' lv p
    \<and> (\<forall>va. 4096 dvd uint va \<longrightarrow> uint va < 2 ^ 39 \<longrightarrow>
         translate s' (page_ptr p) (va + KERNEL_SPACE_BEGIN) = translate s (page_ptr p) va \<and> translate s' (page_ptr p) va = Inr 0)
    \<and> (\<forall>va. 4096 dvd uint va \<longrightarrow> idx 4 va \<notin> {0, 256} \<longrightarrow> translate s' (page_ptr p) va = translate s (page_ptr p) va)"
proof -
  obtain s' where s': "UNSAFE_HACKY_higher_half_init c s = Inr (c, s')" "moved s s' lv p" "pt_ok N s' lv p"
      "\<And>va. uint va < 2 ^ 39 \<Longrightarrow> view s' 4 p (va + KERNEL_SPACE_BEGIN) = view s 4 p va"
    using higher_half_view [OF assms] by metis
  have al: "uint va mod 4096 = 0" if "4096 dvd uint va" for va :: u64 using that by (simp add: dvd_eq_mod_eq_0)
  have t: "translate s (page_ptr p) va = Inr (target (view s 4 p va) va)" if "4096 dvd uint va" for va
    by (rule translate_view [OF assms(1,2)]) (simp add: al [OF that])
  have t': "translate s' (page_ptr p) va = Inr (target (view s' 4 p va) va)" if "4096 dvd uint va" for va
    by (rule translate_view [OF s'(3) assms(2)]) (simp add: al [OF that])
  have "translate s' (page_ptr p) (va + KERNEL_SPACE_BEGIN) = translate s (page_ptr p) va \<and> translate s' (page_ptr p) va = Inr 0"
    if va: "4096 dvd uint va" "uint va < 2 ^ 39" for va
  proof -
    have "4096 dvd uint (va + KERNEL_SPACE_BEGIN)" using high_idx(4) [OF va(2), of 12] va(1) by (simp add: dvd_eq_mod_eq_0)
    moreover have "target (view s 4 p va) (va + KERNEL_SPACE_BEGIN) = target (view s 4 p va) va"
      using target_high [OF va(2)] by (cases "view s 4 p va") (auto simp: target_def)
    moreover have "view s' 4 p va = None" using moved_view(1) [OF s'(2) assms(1)] high_idx(2) [OF va(2)] .
    ultimately show ?thesis using t [OF va(1)] t' [OF va(1)] t' s'(4) [OF va(2)] by (simp add: target_def)
  qed
  moreover have "translate s' (page_ptr p) va = translate s (page_ptr p) va" if "4096 dvd uint va" "idx 4 va \<notin> {0, 256}" for va
    using t [OF that(1)] t' [OF that(1)] moved_view(2) [OF s'(2) assms(1), of va] that(2) by simp
  ultimately show ?thesis using s'(1,3) by blast
qed

theorem higher_half_correct_witness:
  "\<exists>s x s'. UNSAFE_HACKY_higher_half_init (sample_cpu\<lparr>cr3 := page_ptr x - KERNEL_SPACE_BEGIN\<rparr>) s
     = Inr (sample_cpu\<lparr>cr3 := page_ptr x - KERNEL_SPACE_BEGIN\<rparr>, s') \<and> pt_ok 64 s' [x \<mapsto> 4] x"
proof -
  obtain s x where "heap_ok 64 s" "pt_ok 64 s [x \<mapsto> 4] x" using sample_tree by blast
  then show ?thesis using higher_half_correct [of 64 s "[x \<mapsto> 4]" x "sample_cpu\<lparr>cr3 := page_ptr x - KERNEL_SPACE_BEGIN\<rparr>"] by auto
qed

text \<open>C20. Copying a mapping terminates and is faithful: where the source tree maps the region to consecutive pages,
  \<^verbatim>\<open>copy_mapping\<close> returns, leaves the source tree and everything outside the region as it was, and when it reports
  success every page of the region translates in the destination to the same page as in the source. When nothing was mapped there
  in the destination, and the region is below 2 MB or the destination has no empty table of the lowest level, it fails only
  when no page is left for a table, and succeeds whenever more than \<open>region_cost\<close> aligned groups of four free pages exist.\<close>

theorem copy_mapping_correct:
  assumes "heap_ok N s" "pt_ok N s lv2 q" "pt_ok N s lv p" "dom lv2 \<inter> dom lv = {}" "flags_ok f"
    and "0 < V" "0 < n" "V + n \<le> 2 ^ 52" "0 \<le> k" "k + n \<le> 2 ^ 35"
    and "\<forall>j\<in>{0..<n}. translate s (page_ptr q) (vaddr (V + j)) = Inr (page_ptr (k + j))"
    and "\<forall>j\<in>{0..<n}. \<forall>e. view s 4 p (vaddr (V + j)) \<noteq> Some (e, 2)"
  shows "\<exists>res s'. copy_mapping s (page_ptr p) (page_ptr q) (vaddr V) n f = Some (Inr (res, s')) \<and> heap_ok N s'
           \<and> (res \<longrightarrow> (\<forall>j\<in>{0..<n}. translate s' (page_ptr p) (vaddr (V + j)) = translate s (page_ptr q) (vaddr (V + j))))
           \<and> (\<forall>W. \<not> in_region V n (vaddr W) \<longrightarrow> translate s' (page_ptr p) (vaddr W) = translate s (page_ptr p) (vaddr W))
           \<and> (\<forall>W. translate s' (page_ptr q) (vaddr W) = translate s (page_ptr q) (vaddr W))
           \<and> ((\<forall>j\<in>{0..<n}. view s 4 p (vaddr (V + j)) = None) \<longrightarrow> region_fits s lv n \<longrightarrow>
                (res \<or> free_set s' = {}) \<and> (region_cost V n k < card (free_quads s) \<longrightarrow> res))"
proof -
  note N = heap_ok_bound [OF assms(1)]
  note tq = translate_vaddr [OF assms(2) N] and tp = translate_vaddr [OF assms(3) N]
  have "page_ptr (k + j) \<noteq> 0" if "j \<in> {0..<n}" for j using assms(9,10) that by (intro page_ptr_nonzero) (simp add: page_ok_def)
  moreover have "target None va = 0" for va by (simp add: target_def)
  moreover have "target (view s 4 q (vaddr (V + j))) (vaddr (V + j)) = page_ptr (k + j)" if "j \<in> {0..<n}" for j
    using assms(11) that tq [of "V + j"] by simp
  ultimately have r: "translates q s V n k" unfolding translates_def by (metis)
  obtain res s' lv' where g: "copy_mapping s (page_ptr p) (page_ptr q) (vaddr V) n f = Some (Inr (res, s'))" "grows N p s lv s' lv'"
      "keeps_outside p s s' V n" "res \<longrightarrow> translates p s' V n k"
    using copy_mapping_spec [OF assms(1-10) r assms(12)] by blast
  note same = grows_tree_same [OF g(2) assms(2) N assms(4)]
  note tq' = translate_vaddr [OF tree_same_ok(1) [OF same(1) assms(2) same(2)] N]
  have gp: "heap_ok N s'" "pt_ok N s' lv' p" using g(2) by (auto simp: grows_def)
  note tp' = translate_vaddr [OF gp(2) N]
  have "translate s' (page_ptr q) (vaddr W) = translate s (page_ptr q) (vaddr W)" for W
    using tq tq' tree_same_view [OF same(1) assms(2) pt_okD(1) [OF assms(2)]] by simp
  moreover have "translate s' (page_ptr p) (vaddr (V + j)) = translate s (page_ptr q) (vaddr (V + j))" if res "j \<in> {0..<n}" for j
    using tp' g(4) assms(11) that by (simp add: translates_def)
  moreover have "translate s' (page_ptr p) (vaddr W) = translate s (page_ptr p) (vaddr W)" if "\<not> in_region V n (vaddr W)" for W
    using tp tp' g(3) that by (simp add: keeps_outside_def)
  moreover have "(res \<or> free_set s' = {}) \<and> (region_cost V n k < card (free_quads s) \<longrightarrow> res)"
    if "\<forall>j\<in>{0..<n}. view s 4 p (vaddr (V + j)) = None" "region_fits s lv n"
    using copy_mapping_cost [OF assms(1-3,5-10) r that g(1)] spends_all [of "region_cost V n k" s s'] by auto
  ultimately show ?thesis using g(1) gp(1) by (intro exI [of _ res] exI [of _ s']) simp
qed

theorem copy_mapping_correct_witness:
  "\<exists>s x s'. copy_mapping s (page_ptr x) (page_ptr 56) (vaddr (2 ^ 52 - 512)) 5 PTE_KERNEL_EXE = Some (Inr (True, s'))
     \<and> heap_ok 64 s' \<and> translate s' (page_ptr x) (vaddr (2 ^ 52 - 509)) = Inr (page_ptr 63)"
proof -
  obtain t where t: "heap_ok 64 t" "free_set t = {0..<48}" using sample_release [of 48] by auto
  let ?b = "with_boot_tables 56 t"
  have b: "heap_ok 64 ?b" by (rule with_boot_tables_ok [OF t(1)]) (auto simp: t(2))
  have bt0: "boot_tree 56 ?b" by (rule boot_tree_with) (simp_all add: page_ok_def)
  have quads: "10 < card (free_quads ?b)" using sample_quads [of ?b] t(2) by simp
  obtain x s where x: "allocated 64 ?b 1 x s" "\<forall>k\<in>{0..<512}. mem s (page_ptr x + U64 (8 * k)) = 0"
    using zeroed_pages_one [OF b] t(2) by auto
  then have a: "heap_ok 64 s" "free_set s \<subseteq> {0..<48}" "x < 48" "keeps (free_set ?b) ?b s" using t(2) by (auto simp: allocated_def)
  have "entry s u i = entry ?b u i" if "u \<in> {56..59}" "i \<in> {0..<512}" for u i
    using keeps_entry [OF a(4), of u i] that t(2) by (simp add: page_ok_def)
  then have bt: "boot_tree 56 s" using bt0 by (simp add: boot_tree_def)
  have q: "pt_ok 64 s (boot_levels 56) 56" using a(2) by (intro boot_pt_ok [OF bt]) auto
  have zero: "entry s x i = 0" if "0 \<le> i" "i < 512" for i using x(2) that by (simp add: entry_def)
  note p = pt_ok_single [OF a(1) x(1) zero]
  have tr: "translate s (page_ptr 56) (vaddr (2 ^ 52 - 512 + j)) = Inr (page_ptr (60 + j))" if "j \<in> {0..<5}" for j
    using translate_vaddr [OF q, of "2 ^ 52 - 512 + j"] boot_view(2) [OF bt, of j] that by simp
  have "spends 1 ?b s" using allocated_quads [OF b x(1)] by simp
  then have cost: "region_cost (2 ^ 52 - 512) 5 60 < card (free_quads s)" "region_fits s [x \<mapsto> 4] 5"
    using quads by (simp_all add: spends_def region_cost_def region_left_def region_fits_def)
  obtain res s' where r: "copy_mapping s (page_ptr x) (page_ptr 56) (vaddr (2 ^ 52 - 512)) 5 PTE_KERNEL_EXE = Some (Inr (res, s'))"
      "heap_ok 64 s'" "res \<longrightarrow> (\<forall>j\<in>{0..<5}. translate s' (page_ptr x) (vaddr (2 ^ 52 - 512 + j)) = translate s (page_ptr 56) (vaddr (2 ^ 52 - 512 + j)))"
      "res = True"
    using copy_mapping_correct [OF a(1) q p(1) _ kernel_flags_ok(2), of "2 ^ 52 - 512" 5 60] tr p(2) a(3) cost by (auto simp: boot_levels_dom)
  have "translate s' (page_ptr x) (vaddr (2 ^ 52 - 509)) = Inr (page_ptr 63)"
    using r(3,4) tr [of 3] by (auto dest!: bspec [of _ _ 3])
  with r show ?thesis by blast
qed

end
