(* ===== verification/Memory_Map.thy ===== *)
theory Memory_Map
  imports Align Free_Lists "HOL-Library.Multiset"
begin

text \<open>
  The memory map that the boot loader hands to \<^verbatim>\<open>memory__init\<close> (\<^verbatim>\<open>src/kern/memory.c\<close> and the macros
  of \<^verbatim>\<open>bootboot.h\<close>): the bubble sort that puts the free entries first, the loop that cuts off the others,
  the allocation of the first buffers from the free entries, and the size format of its log lines.
\<close>

record MMapEnt =
  ent_ptr :: u64
  ent_size :: u64

definition MMapEnt_Ptr :: "MMapEnt \<Rightarrow> u64" where "MMapEnt_Ptr a = ent_ptr a"
definition MMapEnt_Size :: "MMapEnt \<Rightarrow> u64" where "MMapEnt_Size a = ent_size a AND 0xFFFFFFFFFFFFFFF0"
definition MMapEnt_Type :: "MMapEnt \<Rightarrow> u64" where "MMapEnt_Type a = ent_size a AND 0xF"
definition MMapEnt_IsFree :: "MMapEnt \<Rightarrow> bool" where "MMapEnt_IsFree a \<longleftrightarrow> ent_size a AND 0xF = 1"
definition MMAP_FREE :: u64 where "MMAP_FREE = 1"

text \<open>\<^verbatim>\<open>REPEAT(3)\<close> with its \<^verbatim>\<open>break\<close>; C division truncates towards zero.\<close>

fun mem_fmt_loop :: "nat \<Rightarrow> nat \<Rightarrow> s64 \<Rightarrow> nat \<times> s64" where
  "mem_fmt_loop 0 cls sz = (cls, sz)"
| "mem_fmt_loop (Suc n) cls sz = (if sz < 1024 then (cls, sz) else mem_fmt_loop n (cls + 1) (sz div 1024))"

definition mem_fmt :: "s64 \<Rightarrow> s64 \<times> string" where
  "mem_fmt sz = (let (cls, sz) = mem_fmt_loop 3 0 sz in (sz, ['''', '' Kb'', '' Mb'', '' Gb''] ! cls))"

text \<open>\<^verbatim>\<open>SLOW_SORT\<close> with the body of \<^verbatim>\<open>memory__init\<close>: \<open>sort_pass n i\<close> is the inner loop from \<open>i\<close> for \<open>n\<close> rounds.\<close>

definition sort_step :: "nat \<Rightarrow> MMapEnt list \<Rightarrow> MMapEnt list" where
  "sort_step i xs =
     (let left = xs ! i; right = xs ! (i + 1);
          swap = (MMapEnt_Type left \<noteq> MMAP_FREE \<and> MMapEnt_Type right = MMAP_FREE) in
      if swap then xs[i := right, i + 1 := left] else xs)"

fun sort_pass :: "nat \<Rightarrow> nat \<Rightarrow> MMapEnt list \<Rightarrow> MMapEnt list" where
  "sort_pass 0 i xs = xs"
| "sort_pass (Suc n) i xs = sort_pass n (i + 1) (sort_step i xs)"

fun sort_loop :: "nat \<Rightarrow> MMapEnt list \<Rightarrow> MMapEnt list" where
  "sort_loop 0 xs = xs"
| "sort_loop (Suc right_bound) xs = sort_loop right_bound (sort_pass (Suc right_bound) 0 xs)"

definition sort_mmap :: "MMapEnt list \<Rightarrow> MMapEnt list" where
  "sort_mmap mmap = sort_loop (length mmap - 1) mmap"

fun cut_mmap :: "MMapEnt list \<Rightarrow> MMapEnt list" where
  "cut_mmap [] = []"
| "cut_mmap (it # rest) = (if \<not> MMapEnt_IsFree it then [] else it\<lparr>ent_size := MMapEnt_Size it\<rparr> # cut_mmap rest)"

fun alloc_entries_loop :: "u64 \<Rightarrow> u64 \<Rightarrow> MMapEnt list \<Rightarrow> (u64 \<times> MMapEnt list) result" where
  "alloc_entries_loop sz align [] = Inl (Panic ''false'')"
| "alloc_entries_loop sz align (it # rest) =
     bindR (align_up (ent_ptr it) align) (\<lambda>aligned_ptr.
     let aligned_size = ent_size it + ent_ptr it - aligned_ptr in
     if aligned_size < sz then bindR (alloc_entries_loop sz align rest) (\<lambda>(p, rest). Inr (p, it # rest))
     else Inr (aligned_ptr + KERNEL_SPACE_BEGIN, it\<lparr>ent_ptr := aligned_ptr + sz, ent_size := aligned_size - sz\<rparr> # rest))"

definition alloc_from_entries :: "MMapEnt list \<Rightarrow> s64 \<Rightarrow> s64 \<Rightarrow> (u64 \<times> MMapEnt list) result" where
  "alloc_from_entries mmap sz align =
     bindR (assertR (sz > 0 \<and> align \<ge> 0) ''_size > 0 && _align >= 0'') (\<lambda>_.
     let align = max_u64 (U64 align) 1 in
     bindR (align_up (U64 sz) align) (\<lambda>sz. alloc_entries_loop sz align mmap))"

section \<open>The sort\<close>

abbreviation free_ent :: "MMapEnt \<Rightarrow> bool" where
  "free_ent e \<equiv> MMapEnt_IsFree e"

lemma type_free: "MMapEnt_Type e = MMAP_FREE \<longleftrightarrow> free_ent e"
  by (simp add: MMapEnt_Type_def MMAP_FREE_def MMapEnt_IsFree_def)

lemma sort_step_split:
  assumes "Suc i < length xs"
  shows "sort_step i xs = take i xs @ (if \<not> free_ent (xs ! i) \<and> free_ent (xs ! Suc i) then [xs ! Suc i, xs ! i] else [xs ! i, xs ! Suc i])
           @ drop (Suc (Suc i)) xs"
    and "xs = take i xs @ [xs ! i, xs ! Suc i] @ drop (Suc (Suc i)) xs"
proof -
  show xs: "xs = take i xs @ [xs ! i, xs ! Suc i] @ drop (Suc (Suc i)) xs"
    using assms by (simp add: Cons_nth_drop_Suc)
  have "xs[i := b, Suc i := a] = take i xs @ [b, a] @ drop (Suc (Suc i)) xs" for a b
    using assms by (subst xs) (simp add: list_update_append)
  then show "sort_step i xs = take i xs @ (if \<not> free_ent (xs ! i) \<and> free_ent (xs ! Suc i) then [xs ! Suc i, xs ! i] else [xs ! i, xs ! Suc i])
           @ drop (Suc (Suc i)) xs"
    using xs by (auto simp: sort_step_def type_free)
qed

lemma sort_step_filter:
  assumes "Suc i < length xs"
  shows "filter free_ent (sort_step i xs) = filter free_ent xs"
    and "filter (\<lambda>e. \<not> free_ent e) (sort_step i xs) = filter (\<lambda>e. \<not> free_ent e) xs"
  using sort_step_split(2) [OF assms] unfolding sort_step_split(1) [OF assms] by (smt (verit) filter.simps filter_append)+

lemma length_sort_step [simp]: "length (sort_step i xs) = length xs"
  by (simp add: sort_step_def Let_def)

lemma sort_step_nth:
  assumes "Suc i < length xs" "j < length xs"
  shows "sort_step i xs ! j = (if \<not> free_ent (xs ! i) \<and> free_ent (xs ! Suc i)
           then if j = i then xs ! Suc i else if j = Suc i then xs ! i else xs ! j else xs ! j)"
  using assms by (auto simp: sort_step_def type_free nth_list_update)

lemma sort_pass_props:
  assumes "i + n < length xs"
  shows "length (sort_pass n i xs) = length xs"
    and "filter free_ent (sort_pass n i xs) = filter free_ent xs"
    and "filter (\<lambda>e. \<not> free_ent e) (sort_pass n i xs) = filter (\<lambda>e. \<not> free_ent e) xs"
    and "\<And>j. i + n < j \<Longrightarrow> j < length xs \<Longrightarrow> sort_pass n i xs ! j = xs ! j"
  using assms
proof (induction n arbitrary: i xs)
  case (Suc n)
  { case 1 then show ?case using Suc.IH(1) [of "i + 1" "sort_step i xs"] by simp }
  { case 2 then show ?case using Suc.IH(2) [of "i + 1" "sort_step i xs"] by (simp add: sort_step_filter) }
  { case 3 then show ?case using Suc.IH(3) [of "i + 1" "sort_step i xs"] by (simp add: sort_step_filter) }
  { case (4 j) then show ?case using Suc.IH(4) [of "i + 1" j "sort_step i xs"] sort_step_nth [of i xs j] by simp }
qed simp_all

lemma sort_pass_last:
  assumes "i + n < length xs" "\<forall>a<i. \<not> free_ent (xs ! a) \<longrightarrow> \<not> free_ent (xs ! i)"
  shows "\<forall>a<i + n. \<not> free_ent (sort_pass n i xs ! a) \<longrightarrow> \<not> free_ent (sort_pass n i xs ! (i + n))"
  using assms
proof (induction n arbitrary: i xs)
  case (Suc n)
  have "\<forall>a<Suc i. \<not> free_ent (sort_step i xs ! a) \<longrightarrow> \<not> free_ent (sort_step i xs ! Suc i)"
    using Suc.prems by (auto simp: sort_step_nth less_Suc_eq)
  then show ?case using Suc.IH [of "Suc i" "sort_step i xs"] Suc.prems(1) by simp
qed simp

definition settled :: "nat \<Rightarrow> MMapEnt list \<Rightarrow> bool" where
  "settled b xs \<longleftrightarrow> (\<forall>j<length xs. b < j \<longrightarrow> (\<forall>i<j. \<not> free_ent (xs ! i) \<longrightarrow> \<not> free_ent (xs ! j)))"

lemma sort_pass_settled:
  assumes "Suc b < length xs" "settled (Suc b) xs"
  shows "settled b (sort_pass (Suc b) 0 xs)"
proof -
  define ys where "ys = sort_pass (Suc b) 0 xs"
  note P = sort_pass_props [of 0 "Suc b" xs, folded ys_def]
  have len: "length ys = length xs" using P(1) assms(1) by simp
  have same: "ys ! j = xs ! j" if "Suc b < j" "j < length xs" for j using P(4) [of j] assms(1) that by simp
  have "drop (Suc (Suc b)) ys = drop (Suc (Suc b)) xs"
    using len same by (intro nth_equalityI) auto
  moreover have "filter (\<lambda>e. \<not> free_ent e) (take k ys) @ filter (\<lambda>e. \<not> free_ent e) (drop k ys)
      = filter (\<lambda>e. \<not> free_ent e) (take k xs) @ filter (\<lambda>e. \<not> free_ent e) (drop k xs)" for k
    using P(3) assms(1) by (simp flip: filter_append)
  ultimately have ft: "filter (\<lambda>e. \<not> free_ent e) (take (Suc (Suc b)) ys) = filter (\<lambda>e. \<not> free_ent e) (take (Suc (Suc b)) xs)"
    by (metis append_same_eq)
  have ex: "\<exists>k<Suc (Suc b). \<not> free_ent (xs ! k)" if i: "i < Suc (Suc b)" "\<not> free_ent (ys ! i)" for i
  proof -
    have "ys ! i \<in> set (filter (\<lambda>e. \<not> free_ent e) (take (Suc (Suc b)) ys))"
      using i len assms(1) by (auto simp: in_set_conv_nth intro!: exI [of _ i])
    then have "ys ! i \<in> set (take (Suc (Suc b)) xs)" unfolding ft by simp
    then show ?thesis using i(2) assms(1) by (auto simp: in_set_conv_nth)
  qed
  have "\<not> free_ent (ys ! j)" if j: "j < length ys" "b < j" "i < j" "\<not> free_ent (ys ! i)" for i j
  proof (cases "j = Suc b")
    case True
    then show ?thesis using sort_pass_last [of 0 "Suc b" xs] assms(1) j by (simp add: ys_def)
  next
    case False
    then have "Suc b < j" using j(2) by simp
    moreover have "\<exists>k<j. \<not> free_ent (xs ! k)"
    proof (cases "i < Suc (Suc b)")
      case True
      then obtain k where "k < Suc (Suc b)" "\<not> free_ent (xs ! k)" using ex j(4) by blast
      then show ?thesis using \<open>Suc b < j\<close> by (auto intro!: exI [of _ k])
    next
      case False
      then show ?thesis using same [of i] j len by auto
    qed
    ultimately show ?thesis using assms(2) same [of j] j(1) len by (auto simp: settled_def)
  qed
  then show ?thesis unfolding settled_def ys_def [symmetric] by blast
qed

lemma sort_loop_props:
  "xs = [] \<or> b < length xs \<Longrightarrow> settled b xs \<Longrightarrow> settled 0 (sort_loop b xs)
     \<and> filter free_ent (sort_loop b xs) = filter free_ent xs
     \<and> filter (\<lambda>e. \<not> free_ent e) (sort_loop b xs) = filter (\<lambda>e. \<not> free_ent e) xs \<or> xs = [] \<and> b \<noteq> 0"
proof (induction b arbitrary: xs)
  case (Suc b)
  show ?case
  proof (cases "xs = []")
    case False
    then have b: "Suc b < length xs" using Suc.prems(1) by simp
    note P = sort_pass_props [of 0 "Suc b" xs]
    have "b < length (sort_pass (Suc b) 0 xs)" "sort_pass (Suc b) 0 xs \<noteq> []" using P(1) b False by (auto simp del: sort_pass.simps)
    then show ?thesis
      using Suc.IH [OF _ sort_pass_settled [OF b Suc.prems(2)]] P(2,3) b by (simp del: sort_pass.simps)
  qed simp
qed simp

lemma settled_partition: "settled 0 xs \<Longrightarrow> xs = filter free_ent xs @ filter (\<lambda>e. \<not> free_ent e) xs"
proof (induction xs)
  case (Cons x xs)
  show ?case
  proof (cases "free_ent x")
    case True
    have "settled 0 xs" using Cons.prems unfolding settled_def by (metis Suc_mono length_Cons nth_Cons_Suc zero_less_Suc)
    then show ?thesis using Cons.IH True by simp
  next
    case False
    have "\<not> free_ent y" if y: "y \<in> set xs" for y
    proof -
      obtain j where "j < length xs" "y = xs ! j" using y by (auto simp: in_set_conv_nth)
      then show ?thesis using Cons.prems False unfolding settled_def
        by (metis Suc_mono length_Cons nth_Cons_0 nth_Cons_Suc zero_less_Suc)
    qed
    then show ?thesis using False by (simp add: filter_empty_conv)
  qed
qed simp

lemma sort_mmap_eq: "sort_mmap mmap = filter free_ent mmap @ filter (\<lambda>e. \<not> free_ent e) mmap"
proof (cases "mmap = []")
  case False
  have "settled (length mmap - 1) mmap" by (auto simp: settled_def)
  then have P: "settled 0 (sort_mmap mmap)" "filter free_ent (sort_mmap mmap) = filter free_ent mmap"
    "filter (\<lambda>e. \<not> free_ent e) (sort_mmap mmap) = filter (\<lambda>e. \<not> free_ent e) mmap"
    using sort_loop_props [of mmap "length mmap - 1"] False by (auto simp: sort_mmap_def)
  show ?thesis using settled_partition [OF P(1)] unfolding P(2,3) .
qed (simp add: sort_mmap_def)

lemma cut_mmap_eq: "cut_mmap xs = map (\<lambda>e. e\<lparr>ent_size := MMapEnt_Size e\<rparr>) (takeWhile free_ent xs)"
  by (induction xs) auto

section \<open>Allocation from the entries\<close>

definition ent_wf :: "MMapEnt \<Rightarrow> bool" where
  "ent_wf e \<longleftrightarrow> 8 dvd uint (ent_ptr e) \<and> uint (ent_ptr e) + uint (ent_size e) \<le> 2 ^ 47"

definition region :: "MMapEnt \<Rightarrow> int set" where
  "region e = {uint (ent_ptr e)..<uint (ent_ptr e) + uint (ent_size e)}"

definition pad8 :: "int \<Rightarrow> int" where
  "pad8 n = (n + 7) div 8 * 8"

lemma pad8: "8 dvd pad8 n" "n \<le> pad8 n" "pad8 n < n + 8"
  unfolding pad8_def by simp presburger+

lemma align_up_8:
  assumes "0 \<le> n" "n < 2 ^ 48"
  shows "align_up (U64 n) 8 = Inr (U64 (pad8 n))"
proof -
  have u: "uint (U64 n) = n" using assms by (intro uint_word_of_int_small) auto
  have "align_up (U64 n) (2 ^ 3) = Inr ((U64 n + mask 3) AND NOT (mask 3))" by (rule align_up_pow2) simp
  moreover have "uint ((U64 n + mask 3) AND NOT (mask 3)) = (uint (U64 n) + 2 ^ 3 - 1) div 2 ^ 3 * 2 ^ 3"
    using u assms by (intro uint_align_up) simp
  then have "uint ((U64 n + mask 3) AND NOT (mask 3)) = pad8 n" by (simp add: u pad8_def add.commute)
  then have "(U64 n + mask 3) AND NOT (mask 3) = U64 (pad8 n)" by (metis word_of_int_uint)
  ultimately show ?thesis by simp
qed

lemma ent_bound:
  assumes "ent_wf e"
  shows "0 \<le> uint (ent_ptr e)" "uint (ent_ptr e) \<le> 0x800000000000" "uint (ent_size e) \<le> 0x800000000000"
proof -
  have "uint (ent_ptr e) + uint (ent_size e) \<le> 0x800000000000" using assms by (simp add: ent_wf_def)
  then show "uint (ent_ptr e) \<le> 0x800000000000" "uint (ent_size e) \<le> 0x800000000000"
    using uint_ge_0 [of "ent_ptr e"] uint_ge_0 [of "ent_size e"] by linarith+
qed simp

lemma align_up_ent: "ent_wf e \<Longrightarrow> align_up (ent_ptr e) 8 = Inr (ent_ptr e)"
proof -
  assume e: "ent_wf e"
  then have "0 \<le> uint (ent_ptr e)" "uint (ent_ptr e) < 2 ^ 48" using ent_bound [OF e] by simp_all
  moreover have "pad8 (uint (ent_ptr e)) = uint (ent_ptr e)" using e by (auto simp: ent_wf_def pad8_def)
  ultimately show ?thesis using align_up_8 [of "uint (ent_ptr e)"] by simp
qed

definition take_front :: "int \<Rightarrow> MMapEnt \<Rightarrow> MMapEnt" where
  "take_front n e = e\<lparr>ent_ptr := ent_ptr e + U64 n, ent_size := ent_size e - U64 n\<rparr>"

lemma take_front:
  assumes "ent_wf e" "0 \<le> n" "n \<le> uint (ent_size e)" "8 dvd n"
  shows "uint (ent_ptr (take_front n e)) = uint (ent_ptr e) + n" "uint (ent_size (take_front n e)) = uint (ent_size e) - n"
    "ent_wf (take_front n e)"
proof -
  note b = ent_bound [OF assms(1)]
  have "n < 2 ^ 64" "uint (ent_ptr e) + n < 2 ^ 64" using b assms(3) by simp_all
  then have n: "uint (U64 n) = n" using assms(2) by (intro uint_word_of_int_small)
  show p: "uint (ent_ptr (take_front n e)) = uint (ent_ptr e) + n"
    unfolding take_front_def using n \<open>uint (ent_ptr e) + n < 2 ^ 64\<close> uint_add_lem [of "ent_ptr e" "U64 n"] by simp
  have "U64 n \<le> ent_size e" using n assms(3) by (simp add: word_le_def)
  then show s: "uint (ent_size (take_front n e)) = uint (ent_size e) - n"
    unfolding take_front_def using n uint_sub_lem [of "U64 n" "ent_size e"] by (simp add: word_le_def)
  show "ent_wf (take_front n e)" unfolding ent_wf_def p s using assms(1,4) by (simp add: ent_wf_def)
qed

lemma alloc_entries_loop_spec:
  assumes "list_all ent_wf es" "0 \<le> n" "n < 2 ^ 48"
  shows "(\<exists>i<length es. n \<le> uint (ent_size (es ! i)) \<and> (\<forall>j<i. uint (ent_size (es ! j)) < n)
            \<and> alloc_entries_loop (U64 n) 8 es = Inr (ent_ptr (es ! i) + KERNEL_SPACE_BEGIN, es[i := take_front n (es ! i)]))
       \<or> (\<forall>e\<in>set es. uint (ent_size e) < n) \<and> alloc_entries_loop (U64 n) 8 es = Inl (Panic ''false'')"
  using assms(1)
proof (induction es)
  case (Cons e es)
  have n: "uint (U64 n) = n" using assms(2,3) by (intro uint_word_of_int_small) auto
  have a: "align_up (ent_ptr e) 8 = Inr (ent_ptr e)" using Cons.prems align_up_ent by simp
  show ?case
  proof (cases "uint (ent_size e) < n")
    case True
    then have "alloc_entries_loop (U64 n) 8 (e # es) = bindR (alloc_entries_loop (U64 n) 8 es) (\<lambda>(p, rest). Inr (p, e # rest))"
      using a n by (simp add: word_less_def)
    note step = this
    consider (found) i where "i < length es" "n \<le> uint (ent_size (es ! i))" "\<forall>j<i. uint (ent_size (es ! j)) < n"
        "alloc_entries_loop (U64 n) 8 es = Inr (ent_ptr (es ! i) + KERNEL_SPACE_BEGIN, es[i := take_front n (es ! i)])"
      | (none) "\<forall>e\<in>set es. uint (ent_size e) < n" "alloc_entries_loop (U64 n) 8 es = Inl (Panic ''false'')"
      using Cons by auto
    then show ?thesis
    proof cases
      case found
      then show ?thesis using step True
        by (intro disjI1 exI [of _ "Suc i"]) (auto simp: less_Suc_eq_0_disj)
    qed (use True step in auto)
  next
    case False
    then have "alloc_entries_loop (U64 n) 8 (e # es) = Inr (ent_ptr e + KERNEL_SPACE_BEGIN, take_front n e # es)"
      using a n by (simp add: word_less_def take_front_def)
    then show ?thesis using False by (intro disjI1 exI [of _ 0]) simp
  qed
qed simp

section \<open>Properties\<close>

text \<open>C17. The bubble sort of the memory map is a stable partition: it moves the free entries to the front and
  keeps the order among them and among the others. After the cut exactly the free entries are left, with the
  type bits removed from their sizes.\<close>

theorem sort_mmap_partitions:
  "sort_mmap mmap = filter MMapEnt_IsFree mmap @ filter (\<lambda>e. \<not> MMapEnt_IsFree e) mmap
   \<and> mset (sort_mmap mmap) = mset mmap
   \<and> cut_mmap (sort_mmap mmap) = map (\<lambda>e. e\<lparr>ent_size := MMapEnt_Size e\<rparr>) (filter MMapEnt_IsFree mmap)"
proof -
  have "takeWhile free_ent (filter (\<lambda>e. \<not> free_ent e) ys) = []" for ys by (induction ys) auto
  then have "takeWhile free_ent (filter free_ent xs @ filter (\<lambda>e. \<not> free_ent e) ys) = filter free_ent xs" for xs ys
    by (subst takeWhile_append2) auto
  then show ?thesis by (simp add: sort_mmap_eq cut_mmap_eq)
qed

text \<open>C18. Buffers allocated from the free entries never overlap: on entries that are 8-byte aligned,
  \<^verbatim>\<open>alloc_from_entries\<close> takes an aligned range of the padded size out of the first entry that can hold it and
  leaves exactly the rest of that entry and all other entries; it panics exactly when no entry can hold it.\<close>

theorem alloc_from_entries_correct:
  assumes "list_all ent_wf es" "0 < n" "n < 2 ^ 47"
  shows "(\<exists>i a es'. i < length es \<and> alloc_from_entries es n 8 = Inr (U64 a + KERNEL_SPACE_BEGIN, es') \<and> 8 dvd a
            \<and> {a..<a + pad8 n} \<subseteq> region (es ! i) \<and> region (es' ! i) = region (es ! i) - {a..<a + pad8 n}
            \<and> list_all ent_wf es' \<and> es' = es[i := es' ! i])
       \<or> (\<forall>e\<in>set es. uint (ent_size e) < pad8 n) \<and> alloc_from_entries es n 8 = Inl (Panic ''false'')"
proof -
  have p: "0 \<le> pad8 n" "pad8 n < 2 ^ 48" using pad8(2,3) [of n] assms(2,3) by auto
  have "max_u64 (U64 8) 1 = 8" by (simp add: max_u64_def word_less_def)
  then have run: "alloc_from_entries es n 8 = alloc_entries_loop (U64 (pad8 n)) 8 es"
    using assms(2,3) align_up_8 [of n] by (simp add: alloc_from_entries_def)
  consider (found) i where "i < length es" "pad8 n \<le> uint (ent_size (es ! i))"
      "alloc_from_entries es n 8 = Inr (ent_ptr (es ! i) + KERNEL_SPACE_BEGIN, es[i := take_front (pad8 n) (es ! i)])"
    | (none) "\<forall>e\<in>set es. uint (ent_size e) < pad8 n" "alloc_from_entries es n 8 = Inl (Panic ''false'')"
    using alloc_entries_loop_spec [OF assms(1) p] run by auto
  then show ?thesis
  proof cases
    case found
    let ?e = "es ! i" and ?e' = "take_front (pad8 n) (es ! i)"
    have wf: "ent_wf ?e" using assms(1) found(1) by (simp add: list_all_length)
    note tf = take_front [OF wf p(1) found(2) pad8(1)]
    have "list_all ent_wf (es[i := ?e'])"
      using assms(1) tf(3) set_update_subset_insert [of es i ?e'] by (auto simp: list_all_iff)
    moreover have "region ?e' = region ?e - {uint (ent_ptr ?e)..<uint (ent_ptr ?e) + pad8 n}"
      using p(1) unfolding region_def tf(1,2) by auto
    moreover have "8 dvd uint (ent_ptr ?e)" using wf by (simp add: ent_wf_def)
    moreover have "{uint (ent_ptr ?e)..<uint (ent_ptr ?e) + pad8 n} \<subseteq> region ?e" using found(2) by (auto simp: region_def)
    ultimately show ?thesis using found(1,3)
      by (intro disjI1 exI [of _ i] exI [of _ "uint (ent_ptr ?e)"] exI [of _ "es[i := ?e']"]) simp
  qed simp
qed

theorem alloc_from_entries_correct_witness:
  "\<exists>i a es'. i < 2 \<and> alloc_from_entries [\<lparr>ent_ptr = 64, ent_size = 16\<rparr>, \<lparr>ent_ptr = 4096, ent_size = 256\<rparr>] 21 8
      = Inr (U64 a + KERNEL_SPACE_BEGIN, es') \<and> {a..<a + 24} \<subseteq> region ([\<lparr>ent_ptr = 64, ent_size = 16\<rparr>, \<lparr>ent_ptr = 4096, ent_size = 256\<rparr>] ! i)"
proof -
  let ?es = "[\<lparr>ent_ptr = 64, ent_size = 16\<rparr>, \<lparr>ent_ptr = 4096, ent_size = 256\<rparr>]"
  have "list_all ent_wf ?es" by (simp add: ent_wf_def)
  moreover have "pad8 21 = 24" by (simp add: pad8_def)
  moreover have "\<not> (\<forall>e\<in>set ?es. uint (ent_size e) < 24)" by simp
  ultimately obtain i a es' where "i < length ?es" "alloc_from_entries ?es 21 8 = Inr (U64 a + KERNEL_SPACE_BEGIN, es')"
      "{a..<a + 24} \<subseteq> region (?es ! i)"
    using alloc_from_entries_correct [of ?es 21] by (auto simp del: length_Cons)
  then show ?thesis by (intro exI [of _ i] exI [of _ a] exI [of _ es']) simp
qed

text \<open>An entry that ends before the next aligned address is not skipped: the remaining size wraps around, and
  the allocation lies outside the entry.\<close>

theorem alloc_from_entries_wraps:
  "alloc_from_entries [\<lparr>ent_ptr = 4100, ent_size = 2\<rparr>] 16 8
     = Inr (4104 + KERNEL_SPACE_BEGIN, [\<lparr>ent_ptr = 4120, ent_size = - 18\<rparr>])"
proof -
  have a: "align_up 16 8 = Inr 16" "align_up 4100 8 = Inr 4104"
    using align_up_8 [of 16] align_up_8 [of 4100] by (simp_all add: pad8_def)
  have "max_u64 8 1 = 8" by (simp add: max_u64_def word_less_def)
  moreover have "\<not> (- 2 :: u64) < 16" by (simp add: word_less_def)
  ultimately show ?thesis using a by (simp add: alloc_from_entries_def)
qed

end
