(* ===== verification/Heap_Init.thy ===== *)
theory Heap_Init
  imports Memory_Map Page_Allocator
begin

text \<open>
  How \<^verbatim>\<open>memory__init\<close> (\<^verbatim>\<open>src/kern/memory.c\<close>) builds the page allocator: it takes the buffers of all
  bit sets from the free entries of the memory map, clears them, and releases the whole pages of what is left.
  A bit set buffer has exactly the words that \<^verbatim>\<open>alloc_from_entries\<close> reserved for it; a bit set that
  reaches past them is an access out of bounds. The main theorem says that the allocator's invariant holds at
  the end and that the free pages are exactly the whole pages left in the entries, so the buffers are not
  handed out.
\<close>

section \<open>Model\<close>

definition buffer_words :: "(u64 \<Rightarrow> u64) \<Rightarrow> u64 \<Rightarrow> s64 \<Rightarrow> u64 list" where
  "buffer_words m data bytes = map (\<lambda>k. m (data + 8 * of_nat k)) [0..<nat ((bytes + 7) div 8)]"

definition alloc_bits :: "MMapEnt list \<Rightarrow> memory \<Rightarrow> s64 \<Rightarrow> s64 \<Rightarrow> (BitSet \<times> MMapEnt list) result" where
  "alloc_bits mmap s bytes nbits =
     bindR (alloc_from_entries mmap bytes 8) (\<lambda>(data, mmap).
     bindR (BitSet__set_all (BitSet__from_raw (buffer_words (mem s) data bytes) nbits) False) (\<lambda>bits.
     Inr (bits, mmap)))"

text \<open>\<open>init_buddies n\<close> is the loop over the classes with \<open>n\<close> rounds to go.\<close>

fun init_buddies :: "nat \<Rightarrow> s64 \<Rightarrow> MMapEnt list \<Rightarrow> memory \<Rightarrow> (MMapEnt list \<times> memory) result" where
  "init_buddies 0 buddy_end_page mmap s = Inr (mmap, s)"
| "init_buddies (Suc n) buddy_end_page mmap s =
     (let cls = CLASS_COUNT - 1 - Suc n in
      bindR (buddy_info buddy_end_page cls) (\<lambda>bi.
      bindR (align_up (U64 (bitset_index bi)) 8) (\<lambda>sz.
      let bitset_size = S64 sz in
      bindR (alloc_bits mmap s (bitset_size div 8) bitset_size) (\<lambda>(bits, mmap).
      init_buddies n buddy_end_page mmap (set_buddies s cls bits)))))"

fun release_entries :: "MMapEnt list \<Rightarrow> s64 \<Rightarrow> memory \<Rightarrow> (s64 \<times> memory) result" where
  "release_entries [] available_memory s = Inr (available_memory, s)"
| "release_entries (entry # rest) available_memory s =
     bindR (align_up (ent_ptr entry) 4096) (\<lambda>begin.
     bindR (align_down (ent_ptr entry + ent_size entry) 4096) (\<lambda>end.
     let begin_page = S64 (begin div 4096); end_page = S64 (end div 4096);
         sz = S64 (max_u64 end begin - begin) in
     bindR (s64_chk (available_memory + sz)) (\<lambda>available_memory.
     bindR (BitSet__set_range (usable_pages s) begin_page end_page True) (\<lambda>up.
     bindR (kernel_ptr begin) (\<lambda>p.
     bindR (release_pages (s\<lparr>usable_pages := up\<rparr>) p (sz div 4096)) (\<lambda>s.
     release_entries rest available_memory s))))))"

definition init_bits :: "MMapEnt list \<Rightarrow> u64 \<Rightarrow> u64 \<Rightarrow> memory \<Rightarrow> (MMapEnt list \<times> memory) result" where
  "init_bits mmap end_address end_page s =
     bindR (align_up end_address (push_bit CLASS_COUNT 4096)) (\<lambda>buddy_max.
     let buddy_end_page = S64 (buddy_max div 4096); bytes = S64 ((end_page - 1) div 8 + 1) in
     bindR (alloc_bits mmap s bytes buddy_end_page) (\<lambda>(up, mmap).
     let s = s\<lparr>usable_pages := up\<rparr> in
     bindR (alloc_bits mmap s bytes buddy_end_page) (\<lambda>(fp, mmap).
     let s = s\<lparr>free_pages := fp\<rparr> in
     init_buddies (CLASS_COUNT - 1) buddy_end_page mmap s)))"

definition heap_init :: "MMapEnt list \<Rightarrow> u64 \<Rightarrow> u64 \<Rightarrow> memory \<Rightarrow> (MMapEnt list \<times> memory) result option" where
  "heap_init mmap end_address end_page s =
     (case bindR (init_bits mmap end_address end_page s) (\<lambda>(mmap, s).
           bindR (release_entries mmap 0 s) (\<lambda>(available_memory, s).
           bindR (assertR (available_memory = free_memory s) ''available_memory == MemGlobals.free_memory'') (\<lambda>_.
           Inr (mmap, s)))) of
        Inl e \<Rightarrow> Some (Inl e)
      | Inr (mmap, s) \<Rightarrow> map_option (\<lambda>r. bindR r (\<lambda>_. Inr (mmap, s))) (validate_heap s))"

section \<open>Entries that give up their front\<close>

text \<open>\<open>shrinks es es'\<close>: every entry keeps its end and lost at most a part of its front.\<close>

definition shrinks :: "MMapEnt list \<Rightarrow> MMapEnt list \<Rightarrow> bool" where
  "shrinks es es' \<longleftrightarrow> list_all2 (\<lambda>e e'. ent_wf e' \<and> uint (ent_ptr e) \<le> uint (ent_ptr e')
     \<and> uint (ent_ptr e') + uint (ent_size e') = uint (ent_ptr e) + uint (ent_size e)) es es'"

definition total_size :: "MMapEnt list \<Rightarrow> int" where
  "total_size es = sum_list (map (\<lambda>e. uint (ent_size e)) es)"

definition has_room :: "int \<Rightarrow> MMapEnt list \<Rightarrow> bool" where
  "has_room n es \<longleftrightarrow> (\<exists>e\<in>set es. n \<le> uint (ent_size e))"

lemma shrinks_refl: "list_all ent_wf es \<Longrightarrow> shrinks es es"
  by (auto simp: shrinks_def list_all2_same list_all_iff)

lemma shrinks_trans: "shrinks a b \<Longrightarrow> shrinks b c \<Longrightarrow> shrinks a c"
  unfolding shrinks_def by (rule list_all2_trans [of _ _ _ a b c]) auto

lemma shrinks_wf: "shrinks es es' \<Longrightarrow> list_all ent_wf es'"
  by (auto simp: shrinks_def list_all2_conv_all_nth list_all_length)

lemma total_size_update:
  "i < length es \<Longrightarrow> total_size (es[i := e]) = total_size es - uint (ent_size (es ! i)) + uint (ent_size e)"
  by (induction es arbitrary: i) (auto simp: total_size_def split: nat.splits)

lemma alloc_entries_shrinks:
  assumes "list_all ent_wf es" "0 < n" "n < 2 ^ 47" "has_room (m + pad8 n) es" "0 \<le> m"
  shows "\<exists>data es'. alloc_from_entries es n 8 = Inr (data, es') \<and> shrinks es es'
           \<and> total_size es' = total_size es - pad8 n \<and> has_room m es'"
proof -
  have p: "0 \<le> pad8 n" "pad8 n < 2 ^ 48" using pad8(2,3) [of n] assms(2,3) by auto
  have "max_u64 (U64 8) 1 = 8" by (simp add: max_u64_def word_less_def)
  then have run: "alloc_from_entries es n 8 = alloc_entries_loop (U64 (pad8 n)) 8 es"
    using assms(2,3) align_up_8 [of n] by (simp add: alloc_from_entries_def)
  obtain j where j: "j < length es" "m + pad8 n \<le> uint (ent_size (es ! j))"
    using assms(4) by (auto simp: has_room_def in_set_conv_nth)
  then have "\<not> (\<forall>e\<in>set es. uint (ent_size e) < pad8 n)" using assms(5) by (auto simp: not_less intro!: bexI [of _ "es ! j"])
  then obtain i where i: "i < length es" "pad8 n \<le> uint (ent_size (es ! i))"
      "alloc_from_entries es n 8 = Inr (ent_ptr (es ! i) + KERNEL_SPACE_BEGIN, es[i := take_front (pad8 n) (es ! i)])"
    using alloc_entries_loop_spec [OF assms(1) p] run by auto
  have wf: "ent_wf (es ! k)" if "k < length es" for k using assms(1) that by (simp add: list_all_length)
  note tf = take_front [OF wf [OF i(1)] p(1) i(2) pad8(1)]
  let ?es = "es[i := take_front (pad8 n) (es ! i)]"
  have "shrinks es ?es" using wf tf p(1) i(1) by (auto simp: shrinks_def list_all2_conv_all_nth nth_list_update)
  moreover have "total_size ?es = total_size es - pad8 n"
    using i(1) tf(2) by (simp add: total_size_update)
  moreover have "m \<le> uint (ent_size (?es ! j))" using j tf(2) p(1) i(1) by (auto simp: nth_list_update)
  then have "has_room m ?es" using j(1) by (auto simp: has_room_def intro!: bexI [of _ "?es ! j"])
  ultimately show ?thesis using i(3) by blast
qed

definition clear_bits :: "s64 \<Rightarrow> BitSet \<Rightarrow> bool" where
  "clear_bits n b \<longleftrightarrow> bs_wf b \<and> bs_count b = n \<and> bits_of b = {}"

lemma alloc_bits_spec:
  assumes "list_all ent_wf es" "0 < n" "n < 2 ^ 47" "has_room (m + pad8 n) es" "0 \<le> m"
    and "0 \<le> k" "k \<le> 64 * ((n + 7) div 8)"
  shows "\<exists>b es'. alloc_bits es s n k = Inr (b, es') \<and> clear_bits k b \<and> shrinks es es'
           \<and> total_size es' = total_size es - pad8 n \<and> has_room m es'"
proof -
  obtain data es' where a: "alloc_from_entries es n 8 = Inr (data, es')" "shrinks es es'"
      "total_size es' = total_size es - pad8 n" "has_room m es'"
    using alloc_entries_shrinks [OF assms(1-5)] by blast
  let ?b = "BitSet__from_raw (buffer_words (mem s) data n) k"
  have "bs_wf ?b" using assms(2,3,6,7) by (simp add: bs_wf_def BitSet__from_raw_def buffer_words_def)
  then obtain b where "BitSet__set_all ?b False = Inr b" "same_shape ?b b" "bits_of b = {}"
    using BitSet_set_all [of ?b False] by auto
  then show ?thesis using a by (auto simp: alloc_bits_def clear_bits_def same_shape_def BitSet__from_raw_def)
qed


section \<open>The bit sets of the classes\<close>

definition buddy_bits :: "int \<Rightarrow> nat \<Rightarrow> int" where
  "buddy_bits N c = (N div 2 ^ Suc c + 7) div 8 * 8"

definition buddy_bytes :: "int \<Rightarrow> nat \<Rightarrow> int" where
  "buddy_bytes N c = pad8 (buddy_bits N c div 8)"

text \<open>\<open>init_bytes N\<close>: what the bit sets of a machine with \<open>N\<close> pages take.\<close>

definition init_bytes :: "int \<Rightarrow> int" where
  "init_bytes N = 2 * pad8 ((N - 1) div 8 + 1) + (\<Sum>c<CLASS_COUNT - 1. buddy_bytes N c)"

lemma buddy_bits:
  assumes "0 < N" "N < 2 ^ 35" "4096 dvd N" "c < CLASS_COUNT - 1"
  shows "0 < buddy_bits N c" "buddy_bits N c < 2 ^ 36" "8 dvd buddy_bits N c" "N \<le> 2 ^ Suc c * buddy_bits N c"
    and "align_up (U64 (N div 2 ^ Suc c)) 8 = Inr (U64 (buddy_bits N c))" "S64 (U64 (buddy_bits N c)) = buddy_bits N c"
proof -
  let ?x = "N div 2 ^ Suc c"
  have "(2 :: int) ^ Suc c dvd 2 ^ 12" using assms(4) by (intro le_imp_power_dvd) (simp add: CLASS_COUNT_def)
  then have d: "2 ^ Suc c dvd N" using assms(3) dvd_trans [of "2 ^ Suc c" "4096 :: int" N] by simp
  then have x: "N = 2 ^ Suc c * ?x" by simp
  have "0 < ?x" using x assms(1) by (metis zero_less_mult_pos zero_less_power zero_less_numeral)
  moreover have "?x \<le> N div 1" using assms(1) one_le_power [of "2 :: int" "Suc c"] by (intro zdiv_mono2) simp_all
  then have "?x < 2 ^ 35" using assms(2) by simp
  moreover have p: "buddy_bits N c = pad8 ?x" by (simp add: buddy_bits_def pad8_def)
  note P = pad8 [of ?x, folded p]
  ultimately show b: "0 < buddy_bits N c" "buddy_bits N c < 2 ^ 36" using P(2,3) by simp_all
  show "8 dvd buddy_bits N c" by (rule P)
  have "2 ^ Suc c * ?x \<le> 2 ^ Suc c * buddy_bits N c" using P(2) by (intro mult_left_mono) simp_all
  then show "N \<le> 2 ^ Suc c * buddy_bits N c" using x by linarith
  show "align_up (U64 ?x) 8 = Inr (U64 (buddy_bits N c))"
    unfolding p using \<open>0 < ?x\<close> \<open>?x < 2 ^ 35\<close> by (intro align_up_8) simp_all
  have "uint (U64 (buddy_bits N c)) = buddy_bits N c" using b by (intro uint_word_of_int_small) simp_all
  then show "S64 (U64 (buddy_bits N c)) = buddy_bits N c"
    using b sint_eq_uint_small [of "U64 (buddy_bits N c)"] by simp
qed

lemma buddy_bytes_nonneg:
  assumes "0 < N" "N < 2 ^ 35" "4096 dvd N" "c < CLASS_COUNT - 1"
  shows "0 \<le> buddy_bytes N c"
  using buddy_bits(1) [OF assms] pad8(2) [of "buddy_bits N c div 8"] by (simp add: buddy_bytes_def)

lemma buddy_info_end:
  assumes "0 \<le> N" "N < 2 ^ 35" "4096 dvd N" "c < CLASS_COUNT - 1"
  shows "\<exists>b. buddy_info N c = Inr \<lparr>buddy = b, bitset_index = N div 2 ^ Suc c\<rparr>"
proof -
  have "(2 :: int) ^ c dvd 2 ^ 12" using assms(4) by (intro le_imp_power_dvd) (simp add: CLASS_COUNT_def)
  then have "2 ^ c dvd N" using assms(3) dvd_trans [of "2 ^ c" "4096 :: int" N] by simp
  moreover have "page_ok N" using assms by (simp add: page_ok_def)
  ultimately show ?thesis using assms(4) by (auto simp: buddy_info_eq CLASS_COUNT_def)
qed

lemma init_buddies_spec:
  assumes N: "0 < N" "N < 2 ^ 35" "4096 dvd N"
    and "n \<le> CLASS_COUNT - 1" "length (classes s) = CLASS_COUNT" "list_all ent_wf es"
    and "has_room (\<Sum>c=CLASS_COUNT - 1 - n..<CLASS_COUNT - 1. buddy_bytes N c) es"
  shows "\<exists>es' cs. init_buddies n N es s = Inr (es', s\<lparr>classes := cs\<rparr>) \<and> shrinks es es'
           \<and> total_size es' = total_size es - (\<Sum>c=CLASS_COUNT - 1 - n..<CLASS_COUNT - 1. buddy_bytes N c)
           \<and> length cs = CLASS_COUNT \<and> map freelist cs = map freelist (classes s)
           \<and> (\<forall>c<CLASS_COUNT - 1. if c < CLASS_COUNT - 1 - n then cs ! c = classes s ! c
                                  else clear_bits (buddy_bits N c) (buddies (cs ! c)))"
  using assms(4-)
proof (induction n arbitrary: es s)
  case 0
  then show ?case by (intro exI [of _ es] exI [of _ "classes s"]) (simp add: shrinks_refl)
next
  case (Suc n)
  let ?c = "CLASS_COUNT - 1 - Suc n" and ?m = "\<Sum>c=CLASS_COUNT - 1 - n..<CLASS_COUNT - 1. buddy_bytes N c"
  have c: "?c < CLASS_COUNT - 1" "Suc ?c = CLASS_COUNT - 1 - n" using Suc.prems(1) by simp_all
  note B = buddy_bits [OF N c(1)]
  have sum: "(\<Sum>c=?c..<CLASS_COUNT - 1. buddy_bytes N c) = ?m + pad8 (buddy_bits N ?c div 8)"
    using c by (simp add: sum.atLeast_Suc_lessThan buddy_bytes_def)
  have m: "0 \<le> ?m"
    by (intro sum_nonneg) (auto intro: buddy_bytes_nonneg [OF N])
  have n: "0 < buddy_bits N ?c div 8" "buddy_bits N ?c div 8 < 2 ^ 47" using B(1-3) by auto
  have "buddy_bits N ?c \<le> 64 * ((buddy_bits N ?c div 8 + 7) div 8)" using B(3) by auto
  then obtain b es1 where 1: "alloc_bits es s (buddy_bits N ?c div 8) (buddy_bits N ?c) = Inr (b, es1)"
      "clear_bits (buddy_bits N ?c) b" "shrinks es es1"
      "total_size es1 = total_size es - pad8 (buddy_bits N ?c div 8)" "has_room ?m es1"
    using alloc_bits_spec [OF Suc.prems(3) n _ m, of "buddy_bits N ?c" s] B(1) Suc.prems(4) unfolding sum by auto
  let ?s = "set_buddies s ?c b"
  obtain es' cs where 2: "init_buddies n N es1 ?s = Inr (es', ?s\<lparr>classes := cs\<rparr>)" "shrinks es1 es'"
      "total_size es' = total_size es1 - ?m" "length cs = CLASS_COUNT" "map freelist cs = map freelist (classes ?s)"
      "\<forall>c<CLASS_COUNT - 1. if c < CLASS_COUNT - 1 - n then cs ! c = classes ?s ! c
                           else clear_bits (buddy_bits N c) (buddies (cs ! c))"
    using Suc.IH [of ?s es1] Suc.prems(1,2) shrinks_wf [OF 1(3)] 1(5) by auto
  obtain bd where "buddy_info N ?c = Inr \<lparr>buddy = bd, bitset_index = N div 2 ^ Suc ?c\<rparr>"
    using buddy_info_end [OF _ N(2,3) c(1)] N(1) by auto
  then have "init_buddies (Suc n) N es s = Inr (es', ?s\<lparr>classes := cs\<rparr>)"
    using 1(1) 2(1) B(5,6) by (simp add: Let_def)
  moreover have "map freelist (classes ?s) = map freelist (classes s)"
    using Suc.prems(2) c(1) by (intro nth_equalityI) (auto simp: freelist_set_buddies)
  moreover have "if c < ?c then cs ! c = classes s ! c else clear_bits (buddy_bits N c) (buddies (cs ! c))"
    if d: "c < CLASS_COUNT - 1" for c
  proof (cases "c = ?c")
    case True
    then have "cs ! c = classes ?s ! c" using 2(6) d c(2) by auto
    then show ?thesis using True 1(2) Suc.prems(2) d by (simp add: set_buddies_def)
  next
    case False
    then show ?thesis using 2(6) d c(2) by (auto simp: set_buddies_def)
  qed
  ultimately show ?case using shrinks_trans [OF 1(3) 2(2)] 1(4) 2(3,4,5) unfolding sum
    by (intro exI [of _ es'] exI [of _ cs]) (simp add: set_buddies_def)
qed

section \<open>The empty allocator\<close>

text \<open>The globals of \<^verbatim>\<open>memory.c\<close> start as zeros.\<close>

definition bss_state :: "memory \<Rightarrow> bool" where
  "bss_state s \<longleftrightarrow> free_memory s = 0 \<and> length (classes s) = CLASS_COUNT \<and> (\<forall>c\<in>set (classes s). freelist c = 0)"

lemma empty_heap_inv:
  assumes "0 \<le> N" "N \<le> 2 ^ 35" "bss_state s" "clear_bits N (usable_pages s)" "clear_bits N (free_pages s)"
    and "\<forall>c<CLASS_COUNT - 1. \<exists>n. N \<le> 2 ^ Suc c * n \<and> clear_bits n (buddies (classes s ! c))"
  shows "heap_inv N s (\<lambda>_. [])"
proof -
  have "bits_ok N c (buddies (classes s ! c)) {}" if "c < CLASS_COUNT - 1" for c
    using assms(6) that by (auto simp: bits_ok_def clear_bits_def)
  moreover have "lists s (\<lambda>_. [])" using assms(3) by (auto simp: lists_def bss_state_def)
  ultimately have "core N s (\<lambda>_. [])" using assms(2) by (simp add: core_def wf_blocks_def)
  then show ?thesis using assms(3-5) by (simp add: heap_inv_def blocks_def clear_bits_def bss_state_def)
qed

section \<open>Releasing the entries\<close>

definition whole_pages :: "MMapEnt \<Rightarrow> int set" where
  "whole_pages e = {p. 4096 * p \<ge> uint (ent_ptr e) \<and> 4096 * (p + 1) \<le> uint (ent_ptr e) + uint (ent_size e)}"

definition pages_of :: "MMapEnt list \<Rightarrow> int set" where
  "pages_of es = (\<Union>e\<in>set es. whole_pages e)"

lemma usable_heap_inv:
  assumes "heap_inv N s fl" "bs_wf up" "bs_count up = N" "bits_of (usable_pages s) \<subseteq> bits_of up"
  shows "heap_inv N (s\<lparr>usable_pages := up\<rparr>) fl"
  using assms core_cong [of N s fl "s\<lparr>usable_pages := up\<rparr>"] by (auto simp: heap_inv_def)

text \<open>The rounded ends of an entry that ends at a page boundary.\<close>

lemma entry_bounds:
  assumes e: "ent_wf e" "4096 dvd uint (ent_ptr e) + uint (ent_size e)" "uint (ent_ptr e) + uint (ent_size e) < 2 ^ 47"
  obtains b n where "0 \<le> b" "0 \<le> n" "4096 * (b + n) = uint (ent_ptr e) + uint (ent_size e)" "whole_pages e = {b..<b + n}"
    "align_up (ent_ptr e) 4096 = Inr (U64 (b * 4096))" "align_down (ent_ptr e + ent_size e) 4096 = Inr (U64 ((b + n) * 4096))"
proof -
  let ?p = "uint (ent_ptr e)" and ?z = "uint (ent_size e)"
  define b where "b = (?p + 4095) div 4096"
  have le: "?p + ?z \<le> 0x800000000000" using e(1) by (simp add: ent_wf_def)
  have p0: "0 \<le> ?p" "0 \<le> ?z" by simp_all
  have b: "0 \<le> b" "?p \<le> 4096 * b" "4096 * b < ?p + 4096" using p0 unfolding b_def by linarith+
  obtain q where q: "?p + ?z = 4096 * q" using e(2) by (auto elim: dvdE)
  have "4096 * b < 4096 * q + 4096" using b(3) p0 q by linarith
  then have bq: "b \<le> q" by linarith
  have wp: "whole_pages e = {b..<b + (q - b)}"
    unfolding whole_pages_def q using b by auto
  have "uint (ent_ptr e + ent_size e) = ?p + ?z" using le uint_add_lem [of "ent_ptr e" "ent_size e"] by simp
  then have sum: "ent_ptr e + ent_size e = U64 (q * 4096)" using q by (metis mult.commute word_of_int_uint)
  have ok: "page_ok q" using bq b(1) q e(3) by (simp add: page_ok_def)
  have "uint ((ent_ptr e + mask 12) AND NOT (mask 12)) = (?p + 2 ^ 12 - 1) div 2 ^ 12 * 2 ^ 12"
    using ent_bound(2) [OF e(1)] by (intro uint_align_up) simp
  then have "uint ((ent_ptr e + mask 12) AND NOT (mask 12)) = b * 4096" by (simp add: b_def)
  then have "(ent_ptr e + mask 12) AND NOT (mask 12) = U64 (b * 4096)" by (metis word_of_int_uint)
  then have up: "align_up (ent_ptr e) 4096 = Inr (U64 (b * 4096))" using align_up_pow2 [of 12 "ent_ptr e"] by simp
  have down: "align_down (ent_ptr e + ent_size e) 4096 = Inr (U64 ((b + (q - b)) * 4096))"
    unfolding sum using page_addr_facts(1) [OF ok] by simp
  show thesis by (rule that [OF b(1) _ _ wp up down]) (use bq q in simp_all)
qed

definition mem_kept :: "int set \<Rightarrow> memory \<Rightarrow> memory \<Rightarrow> bool" where
  "mem_kept P s s' \<longleftrightarrow> (\<forall>x a. page_ok x \<longrightarrow> x \<notin> P \<longrightarrow> a \<in> page_addrs x \<longrightarrow> mem s' a = mem s a)"

lemma release_entry:
  assumes inv: "heap_inv N s fl" "N < 2 ^ 35"
    and e: "ent_wf e" "4096 dvd uint (ent_ptr e) + uint (ent_size e)" "uint (ent_ptr e) + uint (ent_size e) \<le> 4096 * N"
    and new: "whole_pages e \<inter> usable_set s = {}"
  shows "\<exists>s' fl'. release_entries (e # es) (free_memory s) s = release_entries es (free_memory s') s' \<and> heap_inv N s' fl'
           \<and> usable_set s' = usable_set s \<union> whole_pages e \<and> free_set s' = free_set s \<union> whole_pages e
           \<and> mem_kept (free_set s') s s'"
proof -
  note D = heap_invD [OF inv(1)]
  obtain b n where bn: "0 \<le> b" "0 \<le> n" "4096 * (b + n) = uint (ent_ptr e) + uint (ent_size e)" "whole_pages e = {b..<b + n}"
    "align_up (ent_ptr e) 4096 = Inr (U64 (b * 4096))" "align_down (ent_ptr e + ent_size e) 4096 = Inr (U64 ((b + n) * 4096))"
    using entry_bounds [OF e(1,2)] e(3) inv(2) by auto
  have le: "b + n \<le> N" using bn(3) e(3) by simp
  then have ok: "page_ok b" "page_ok (b + n)" using bn(1,2) inv(2) by (simp_all add: page_ok_def)
  have u: "uint (U64 (x * 4096)) = x * 4096" if "page_ok x" for x
    using that by (intro uint_word_of_int_small) (simp_all add: page_ok_def)
  have pg: "S64 (U64 (x * 4096) div 4096) = x" if x: "page_ok x" for x
    using page_addr_facts(2) [OF x] sint_eq_uint_small [of "U64 (x * 4096) div 4096"] x by (simp add: page_ok_def)
  have "max_u64 (U64 ((b + n) * 4096)) (U64 (b * 4096)) = U64 ((b + n) * 4096)"
    using u [OF ok(1)] u [OF ok(2)] bn(2) by (simp add: max_u64_def word_less_def)
  moreover have "uint (U64 ((b + n) * 4096) - U64 (b * 4096)) = n * 4096"
    using u [OF ok(1)] u [OF ok(2)] bn(2) uint_sub_lem [of "U64 (b * 4096)" "U64 ((b + n) * 4096)"] by (simp add: algebra_simps)
  then have "S64 (U64 ((b + n) * 4096) - U64 (b * 4096)) = n * 4096"
    using sint_eq_uint_small [of "U64 ((b + n) * 4096) - U64 (b * 4096)"] le bn(1) inv(2) by simp
  ultimately have sz: "S64 (max_u64 (U64 ((b + n) * 4096)) (U64 (b * 4096)) - U64 (b * 4096)) = n * 4096" by simp
  have "card (blocks fl) \<le> card {0..<N}" using D(10) by (intro card_mono) auto
  then have "free_memory s \<le> 4096 * 2 ^ 35" "0 \<le> free_memory s" using D(8) inv(2) by simp_all
  then have chk: "s64_chk (free_memory s + n * 4096) = Inr (free_memory s + n * 4096)"
    using bn(1,2) le inv(2) by (simp add: s64_ok_def)
  obtain up where up: "BitSet__set_range (usable_pages s) b (b + n) True = Inr up" "bs_wf up" "bs_count up = N"
    "bits_of up = bits_of (usable_pages s) \<union> {b..<b + n}"
    using bs.store_range [OF D(2) bn(1), of "b + n" True] bn(2) le D(3) by (auto simp: put_def)
  let ?s = "s\<lparr>usable_pages := up\<rparr>"
  have inv': "heap_inv N ?s fl" using usable_heap_inv [OF inv(1) up(2,3)] up(4) by simp
  have "{b..<b + n} \<inter> free_set s = {}" using new bn(4) D(6,7) by (auto simp: usable_set_def free_set_def)
  then obtain s' fl' where s': "release_pages ?s (page_ptr b) n = Inr s'" "heap_inv N s' fl'"
      "free_set s' = free_set s \<union> {b..<b + n}" "free_memory s' = free_memory s + n * 4096" "keeps (free_set s') ?s s'"
    using release_run_inv [OF inv' ok(1) bn(1,2) le] up(4) by (auto simp: usable_set_def free_set_def)
  have kp: "kernel_ptr (U64 (b * 4096)) = Inr (page_ptr b)" using kernel_ptr_page [OF ok(1)] unfolding page_word [OF ok(1)] .
  have "release_entries (e # es) (free_memory s) s = release_entries es (free_memory s') s'"
    unfolding release_entries.simps bn(5,6) bindR_Inr Let_def sz pg [OF ok(1)] pg [OF ok(2)] chk up(1) kp
    using s'(1,4) by simp
  moreover have "usable_set s' = usable_set s \<union> whole_pages e" "mem_kept (free_set s') s s'"
    using s'(5) up(4) bn(4) by (simp_all add: keeps_def mem_kept_def usable_set_def)
  ultimately show ?thesis using s'(2,3) bn(4) by blast
qed

lemma release_entries_spec:
  assumes "heap_inv N s fl" "N < 2 ^ 35"
    and "\<forall>e\<in>set es. ent_wf e \<and> 4096 dvd uint (ent_ptr e) + uint (ent_size e) \<and> uint (ent_ptr e) + uint (ent_size e) \<le> 4096 * N"
    and "sorted_wrt (\<lambda>e e'. whole_pages e \<inter> whole_pages e' = {}) es" "pages_of es \<inter> usable_set s = {}"
  shows "\<exists>s' fl'. release_entries es (free_memory s) s = Inr (free_memory s', s') \<and> heap_inv N s' fl'
           \<and> usable_set s' = usable_set s \<union> pages_of es \<and> free_set s' = free_set s \<union> pages_of es
           \<and> mem_kept (free_set s') s s'"
  using assms(1,3-)
proof (induction es arbitrary: s fl)
  case Nil
  then show ?case by (auto simp: pages_of_def mem_kept_def)
next
  case (Cons e es)
  have "whole_pages e \<inter> usable_set s = {}" using Cons.prems(4) by (auto simp: pages_of_def)
  then obtain t fl' where t: "release_entries (e # es) (free_memory s) s = release_entries es (free_memory t) t" "heap_inv N t fl'"
      "usable_set t = usable_set s \<union> whole_pages e" "free_set t = free_set s \<union> whole_pages e" "mem_kept (free_set t) s t"
    using release_entry [OF Cons.prems(1) assms(2), of e es] Cons.prems(2) by auto
  have "pages_of es \<inter> usable_set t = {}" using Cons.prems(3,4) t(3) by (auto simp: pages_of_def)
  then obtain s' fl' where s': "release_entries es (free_memory t) t = Inr (free_memory s', s')" "heap_inv N s' fl'"
      "usable_set s' = usable_set t \<union> pages_of es" "free_set s' = free_set t \<union> pages_of es" "mem_kept (free_set s') t s'"
    using Cons.IH [OF t(2)] Cons.prems(2,3) by auto
  have "mem_kept (free_set s') s s'" using t(5) s'(4,5) by (auto simp: mem_kept_def)
  then show ?case using t s' by (auto simp: pages_of_def)
qed

section \<open>Properties\<close>

definition boot_map :: "int \<Rightarrow> MMapEnt list \<Rightarrow> bool" where
  "boot_map N es \<longleftrightarrow> (\<forall>e\<in>set es. 8 dvd uint (ent_ptr e) \<and> 4096 dvd uint (ent_ptr e) + uint (ent_size e)
       \<and> uint (ent_ptr e) + uint (ent_size e) \<le> 4096 * N)
     \<and> sorted_wrt (\<lambda>e e'. region e \<inter> region e' = {}) es"

lemma boot_map_shrinks:
  assumes "boot_map N es" "shrinks es es'"
  shows "boot_map N es'"
proof -
  have len: "length es' = length es" using assms(2) by (simp add: shrinks_def list_all2_lengthD)
  have sh: "ent_wf (es' ! i)" "uint (ent_ptr (es ! i)) \<le> uint (ent_ptr (es' ! i))"
    "uint (ent_ptr (es' ! i)) + uint (ent_size (es' ! i)) = uint (ent_ptr (es ! i)) + uint (ent_size (es ! i))"
    if "i < length es" for i using assms(2) that by (auto simp: shrinks_def list_all2_conv_all_nth)
  have "region (es' ! i) \<subseteq> region (es ! i)" if "i < length es" for i using sh [OF that] by (auto simp: region_def)
  then have "region (es' ! i) \<inter> region (es' ! j) = {}" if "i < j" "j < length es" for i j
    using assms(1) that less_trans [OF that] unfolding boot_map_def sorted_wrt_iff_nth_less by blast
  then have "sorted_wrt (\<lambda>e e'. region e \<inter> region e' = {}) es'" by (simp add: sorted_wrt_iff_nth_less len)
  moreover have "4096 dvd uint (ent_ptr (es ! i)) + uint (ent_size (es ! i)) \<and> uint (ent_ptr (es ! i)) + uint (ent_size (es ! i)) \<le> 4096 * N"
    if "i < length es" for i using assms(1) nth_mem [OF that] by (simp add: boot_map_def)
  ultimately show ?thesis using len sh by (auto simp: boot_map_def ent_wf_def in_set_conv_nth)
qed

lemma boot_map_wf: "boot_map N es \<Longrightarrow> N < 2 ^ 35 \<Longrightarrow> list_all ent_wf es"
  by (auto simp: boot_map_def list_all_iff ent_wf_def intro: order_trans)

lemma boot_map_pages: "boot_map N es \<Longrightarrow> sorted_wrt (\<lambda>e e'. whole_pages e \<inter> whole_pages e' = {}) es"
proof -
  have "whole_pages e \<inter> whole_pages e' = {}" if d: "region e \<inter> region e' = {}" for e e'
  proof -
    have "4096 * p \<in> region x" if "p \<in> whole_pages x" for p x using that by (auto simp: whole_pages_def region_def)
    then show ?thesis using d by blast
  qed
  then show "boot_map N es \<Longrightarrow> ?thesis" by (simp add: boot_map_def sorted_wrt_iff_nth_less)
qed

lemma end_words:
  assumes P: "0 < P" "P < 2 ^ 35" and N: "N = (P + 4095) div 4096 * 4096"
  shows "align_up (U64 (4096 * P)) (push_bit CLASS_COUNT 4096) = Inr (U64 (4096 * N))"
    and "S64 (U64 (4096 * N) div 4096) = N" "S64 ((U64 P - 1) div 8 + 1) = (P - 1) div 8 + 1"
proof -
  have bd: "0 < N" "N \<le> 2 ^ 35" using P unfolding N by simp_all
  have u: "uint (U64 P) = P" by (rule uint_word_of_int_small) (use P in simp_all)
  have uP: "uint (U64 (4096 * P)) = 4096 * P" by (rule uint_word_of_int_small) (use P in simp_all)
  have uN: "uint (U64 (4096 * N)) = 4096 * N" by (rule uint_word_of_int_small) (use bd in simp_all)
  have "uint ((U64 (4096 * P) + mask 24) AND NOT (mask 24)) = (uint (U64 (4096 * P)) + 2 ^ 24 - 1) div 2 ^ 24 * 2 ^ 24"
    by (rule uint_align_up) (use P(2) in \<open>simp only: uP, simp\<close>)
  also have "\<dots> = 4096 * N" unfolding uP N by simp
  finally have "(U64 (4096 * P) + mask 24) AND NOT (mask 24) = U64 (4096 * N)" by (metis word_of_int_uint)
  then show "align_up (U64 (4096 * P)) (push_bit CLASS_COUNT 4096) = Inr (U64 (4096 * N))"
    using align_up_pow2 [of 24 "U64 (4096 * P)"] by (simp add: CLASS_COUNT_def push_bit_eq_mult)
  have "uint (U64 (4096 * N) div 4096) = N" unfolding uint_div_distrib uN by simp
  then show "S64 (U64 (4096 * N) div 4096) = N" using sint_eq_uint_small [of "U64 (4096 * N) div 4096"] bd(2) by simp
  have "uint (U64 P - 1) = P - 1" using uint_sub_lem [of 1 "U64 P"] u P(1) by simp
  then have "uint ((U64 P - 1) div 8) = (P - 1) div 8" by (simp add: uint_div_distrib)
  moreover have "(P - 1) div 8 < 2 ^ 63" using P(2) by simp
  ultimately have "uint ((U64 P - 1) div 8 + 1) = (P - 1) div 8 + 1" using uint_add_lem [of "(U64 P - 1) div 8" 1] by simp
  then show "S64 ((U64 P - 1) div 8 + 1) = (P - 1) div 8 + 1"
    using sint_eq_uint_small [of "(U64 P - 1) div 8 + 1"] P(2) by simp
qed

lemma init_bits_spec:
  assumes N: "0 < N" "N < 2 ^ 35" "4096 dvd N" and es: "list_all ent_wf es" "has_room (init_bytes N) es"
    and s: "bss_state s"
  shows "\<exists>es' s'. init_bits es (U64 (4096 * N)) (U64 N) s = Inr (es', s') \<and> shrinks es es'
           \<and> total_size es' = total_size es - init_bytes N \<and> heap_inv N s' (\<lambda>_. [])
           \<and> bits_of (usable_pages s') = {} \<and> mem s' = mem s \<and> free_memory s' = 0"
proof -
  let ?n = "(N - 1) div 8 + 1" and ?m = "\<Sum>c=0..<CLASS_COUNT - 1. buddy_bytes N c"
  have m: "0 \<le> ?m" by (intro sum_nonneg) (auto intro: buddy_bytes_nonneg [OF N])
  have n: "0 < ?n" "?n < 2 ^ 47" "N \<le> 64 * ((?n + 7) div 8)" using N by auto
  have room: "init_bytes N = (?m + pad8 ?n) + pad8 ?n" by (simp add: init_bytes_def lessThan_atLeast0)
  have mn: "0 \<le> ?m + pad8 ?n" using m n(1) pad8(2) [of ?n] by linarith
  obtain up es1 where 1: "alloc_bits es s ?n N = Inr (up, es1)" "clear_bits N up" "shrinks es es1"
      "total_size es1 = total_size es - pad8 ?n" "has_room (?m + pad8 ?n) es1"
    using alloc_bits_spec [OF es(1) n(1,2) es(2) [unfolded room] mn _ n(3), of s] N(1) by auto
  obtain fp es2 where 2: "alloc_bits es1 (s\<lparr>usable_pages := up\<rparr>) ?n N = Inr (fp, es2)" "clear_bits N fp" "shrinks es1 es2"
      "total_size es2 = total_size es1 - pad8 ?n" "has_room ?m es2"
    using alloc_bits_spec [OF shrinks_wf [OF 1(3)] n(1,2) 1(5) m _ n(3), of "s\<lparr>usable_pages := up\<rparr>"] N(1) by auto
  let ?s = "s\<lparr>usable_pages := up, free_pages := fp\<rparr>"
  obtain es' cs where 3: "init_buddies (CLASS_COUNT - 1) N es2 ?s = Inr (es', ?s\<lparr>classes := cs\<rparr>)" "shrinks es2 es'"
      "total_size es' = total_size es2 - ?m" "length cs = CLASS_COUNT" "map freelist cs = map freelist (classes s)"
      "\<forall>c<CLASS_COUNT - 1. clear_bits (buddy_bits N c) (buddies (cs ! c))"
    using init_buddies_spec [OF N, of "CLASS_COUNT - 1" ?s es2] shrinks_wf [OF 2(3)] 2(5) s by (auto simp: bss_state_def)
  have NN: "N = (N + 4095) div 4096 * 4096" using N(3) by auto
  have run: "init_bits es (U64 (4096 * N)) (U64 N) s = Inr (es', ?s\<lparr>classes := cs\<rparr>)"
    unfolding init_bits_def end_words [OF N(1,2) NN] bindR_Inr Let_def 1(1) prod.case 2(1) using 3(1) by simp
  have "freelist ` set cs = freelist ` set (classes s)" using 3(5) by (metis set_map)
  then have "bss_state (?s\<lparr>classes := cs\<rparr>)"
    using s 3(4) by (simp add: bss_state_def) (metis (mono_tags, lifting) imageE imageI)
  then have "heap_inv N (?s\<lparr>classes := cs\<rparr>) (\<lambda>_. [])"
    using N 1(2) 2(2) 3(6) buddy_bits(4) [OF N] by (intro empty_heap_inv) auto
  moreover have "shrinks es es'" using 1(3) 2(3) 3(2) by (blast intro: shrinks_trans)
  moreover have "total_size es' = total_size es - init_bytes N" using 1(4) 2(4) 3(3) room by simp
  ultimately show ?thesis using run 1(2) s
    by (intro exI [of _ es'] exI [of _ "?s\<lparr>classes := cs\<rparr>"]) (simp add: clear_bits_def bss_state_def)
qed

lemma set_all_overrun:
  "64 * int (length (bs_data bits)) < bs_count bits \<Longrightarrow> 0 \<le> i \<Longrightarrow> i \<le> int (length (bs_data bits)) \<Longrightarrow>
     set_all_loop v i (64 * i) bits = Inl OutOfBounds"
proof (induction "nat (int (length (bs_data bits)) - i)" arbitrary: i bits)
  case 0
  then show ?case by (simp add: set_all_loop.simps [of v i] store_word_def updR_def)
next
  case (Suc n)
  then obtain bits' where "store_word v i bits = Inr bits'" "length (bs_data bits') = length (bs_data bits)"
      "bs_count bits' = bs_count bits"
    by (cases v) (auto simp: store_word_def)
  then show ?case using Suc.hyps(1) [of bits' "i + 1"] Suc.hyps(2) Suc.prems by (simp add: set_all_loop.simps [of v i])
qed

lemma heap_init_spec:
  assumes "0 < N" "N < 2 ^ 35" "4096 dvd N" "boot_map N mmap" "has_room (init_bytes N) mmap" "bss_state s"
  shows "\<exists>mmap' s'. heap_init mmap (U64 (4096 * N)) (U64 N) s = Some (Inr (mmap', s')) \<and> heap_ok N s'
           \<and> free_set s' = pages_of mmap' \<and> usable_set s' = pages_of mmap' \<and> mem_kept (pages_of mmap') s s'
           \<and> shrinks mmap mmap' \<and> total_size mmap' = total_size mmap - init_bytes N"
proof -
  obtain es t where 1: "init_bits mmap (U64 (4096 * N)) (U64 N) s = Inr (es, t)" "shrinks mmap es"
      "total_size es = total_size mmap - init_bytes N" "heap_inv N t (\<lambda>_. [])" "usable_set t = {}" "mem t = mem s" "free_memory t = 0"
    using init_bits_spec [OF assms(1-3) boot_map_wf [OF assms(4,2)] assms(5,6)] by (auto simp: usable_set_def)
  have bm: "boot_map N es" by (rule boot_map_shrinks [OF assms(4) 1(2)])
  have "free_set t = {}" using heap_invD(6) [OF 1(4)] by (simp add: free_set_def blocks_def)
  moreover have "\<forall>e\<in>set es. ent_wf e \<and> 4096 dvd uint (ent_ptr e) + uint (ent_size e) \<and> uint (ent_ptr e) + uint (ent_size e) \<le> 4096 * N"
    using bm shrinks_wf [OF 1(2)] by (simp add: boot_map_def list_all_iff)
  ultimately obtain s' fl' where 2: "release_entries es 0 t = Inr (free_memory s', s')" "heap_inv N s' fl'"
      "usable_set s' = pages_of es" "free_set s' = pages_of es" "mem_kept (free_set s') t s'"
    using release_entries_spec [OF 1(4) assms(2) _ boot_map_pages [OF bm]] 1(5,7) by auto
  have ok: "heap_ok N s'" using 2(2) by (auto simp: heap_ok_def)
  have "heap_init mmap (U64 (4096 * N)) (U64 N) s = Some (Inr (es, s'))"
    unfolding heap_init_def 1(1) bindR_Inr prod.case 2(1) by (simp add: validate_heap_ok [OF ok])
  then show ?thesis using 1(2,3,6) 2(3-5) ok by (auto simp: mem_kept_def)
qed

text \<open>C11. The allocator starts in a state that satisfies its invariant: on disjoint free entries below a top of memory
  that is a multiple of 16 MB, one of them with room for the bit sets, \<^verbatim>\<open>memory__init\<close> passes all its assertions
  and its consistency check. The free and the usable pages are then exactly the whole pages that the entries still
  contain after exactly the bytes of the bit sets were taken from their fronts, and no other page was written.\<close>

theorem heap_init_correct:
  assumes "0 < N" "N < 2 ^ 35" "4096 dvd N" "boot_map N mmap" "has_room (init_bytes N) mmap" "bss_state s"
  shows "\<exists>mmap' s'. heap_init mmap (U64 (4096 * N)) (U64 N) s = Some (Inr (mmap', s')) \<and> heap_ok N s'
           \<and> free_set s' = pages_of mmap' \<and> usable_set s' = pages_of mmap' \<and> mem_kept (pages_of mmap') s s'
           \<and> shrinks mmap mmap' \<and> total_size mmap' = total_size mmap - init_bytes N"
  by (rule heap_init_spec [OF assms])

definition sample_map :: "MMapEnt list" where
  "sample_map = [\<lparr>ent_ptr = 0x1000, ent_size = 0x9E000\<rparr>, \<lparr>ent_ptr = 0x100000, ent_size = 0xF00000\<rparr>]"

definition bss_sample :: memory where
  "bss_sample = \<lparr>mem = (\<lambda>a. a), free_memory = 0, usable_pages = \<lparr>bs_data = [], bs_count = 0\<rparr>,
     free_pages = \<lparr>bs_data = [], bs_count = 0\<rparr>,
     classes = replicate CLASS_COUNT \<lparr>freelist = 0, buddies = \<lparr>bs_data = [], bs_count = 0\<rparr>\<rparr>\<rparr>"

theorem heap_init_correct_witness:
  "\<exists>mmap' s'. heap_init sample_map 0x1000000 0x1000 bss_sample = Some (Inr (mmap', s')) \<and> heap_ok 4096 s'
     \<and> free_set s' = pages_of mmap' \<and> total_size mmap' = total_size sample_map - 1568"
proof -
  have "boot_map 4096 sample_map" by (auto simp: boot_map_def sample_map_def region_def)
  moreover have i: "init_bytes 4096 = 1568"
    by (simp add: init_bytes_def CLASS_COUNT_def buddy_bytes_def buddy_bits_def pad8_def lessThan_nat_numeral lessThan_Suc)
  then have "has_room (init_bytes 4096) sample_map" by (simp add: has_room_def sample_map_def)
  moreover have "bss_state bss_sample" by (simp add: bss_state_def bss_sample_def)
  ultimately show ?thesis using heap_init_correct [of 4096 sample_map bss_sample] i by auto
qed

text \<open>When the memory does not end in the last 64 pages of a 16 MB block, the bit sets of usable and free pages have
  more bits than their buffers: clearing the first one already writes past its end.\<close>

theorem heap_init_overruns:
  assumes "0 < P" "P < 2 ^ 35" "(P + 63) div 64 * 64 < (P + 4095) div 4096 * 4096"
    and "list_all ent_wf mmap" "has_room (pad8 ((P - 1) div 8 + 1)) mmap"
  shows "heap_init mmap (U64 (4096 * P)) (U64 P) s = Some (Inl OutOfBounds)"
proof -
  let ?n = "(P - 1) div 8 + 1" and ?N = "(P + 4095) div 4096 * 4096"
  have n: "0 < ?n" "?n < 2 ^ 47" using assms(1,2) by simp_all
  obtain data es' where a: "alloc_from_entries mmap ?n 8 = Inr (data, es')"
    using alloc_entries_shrinks [OF assms(4) n, of 0] assms(5) by auto
  have "(?n + 7) div 8 = (P - 1) div 8 div 8 + 1" by simp
  also have "(P - 1) div 8 div 8 = (P - 1) div 64" by (simp add: zdiv_zmult2_eq [symmetric])
  also have "(P - 1) div 64 + 1 = (P + 63) div 64" using div_add_self2 [of 64 "P - 1"] by (simp add: algebra_simps)
  finally have "64 * ((?n + 7) div 8) = (P + 63) div 64 * 64" by simp
  then have "BitSet__set_all (BitSet__from_raw (buffer_words (mem s) data ?n) ?N) False = Inl OutOfBounds"
    using set_all_overrun [of "BitSet__from_raw (buffer_words (mem s) data ?n) ?N" 0 False] assms(1,3) n(1)
    by (simp add: BitSet__set_all_def BitSet__from_raw_def buffer_words_def)
  then have ab: "alloc_bits mmap s ?n ?N = Inl OutOfBounds" using a by (simp add: alloc_bits_def)
  show ?thesis unfolding heap_init_def init_bits_def end_words [OF assms(1,2) refl] bindR_Inr Let_def ab by simp
qed

theorem heap_init_overruns_witness:
  "heap_init sample_map (U64 (4096 * 4000)) (U64 4000) bss_sample = Some (Inl OutOfBounds)"
proof -
  have "list_all ent_wf sample_map" by (simp add: sample_map_def ent_wf_def)
  moreover have "has_room (pad8 ((4000 - 1) div 8 + 1)) sample_map" by (simp add: has_room_def sample_map_def pad8_def)
  ultimately show ?thesis using heap_init_overruns [of 4000 sample_map bss_sample] by simp
qed

end
