(* ===== verification/Memory_Init.thy ===== *)
theory Memory_Init
  imports Address_Space Heap_Init "HOL-Library.Signed_Division"
begin

text \<open>
  The whole of \<^verbatim>\<open>memory__init\<close> (\<^verbatim>\<open>src/kern/memory.c\<close>): it logs and sorts the boot loader's memory map, moves the
  identity mapping to the higher half, builds the page allocator from the free entries, builds a new tree of page
  tables for the kernel, switches to it, gives the boot loader's tables to the allocator and makes the initial
  bump allocator. The boot loader's structure and the addresses that the linker script fixes are arguments.
\<close>

section \<open>Model\<close>

text \<open>The boot structure; \<open>bb_arch\<close> are the eight words of its platform-specific part, \<open>bb_mmap\<close> the map entries from byte 128 on.\<close>

record BOOTBOOT =
  bb_magic :: "u8 list"
  bb_size :: u32
  bb_protocol :: u8
  bb_fb_type :: u8
  bb_numcores :: u16
  bb_bspid :: u16
  bb_timezone :: "16 word"
  bb_datetime :: "u8 list"
  bb_initrd_ptr :: u64
  bb_initrd_size :: u64
  bb_fb_ptr :: u64
  bb_fb_size :: u32
  bb_fb_width :: u32
  bb_fb_height :: u32
  bb_fb_scanline :: u32
  bb_arch :: "u64 list"
  bb_mmap :: "MMapEnt list"

text \<open>The symbols of the linker script: where the code, its data, the boot structure and the frame buffer lie.\<close>

record symbols =
  code_begin :: u64
  code_end :: u64
  bss_end :: u64
  bb_address :: u64
  environment_address :: u64
  fb_address :: u64

definition memory_log :: "u32 \<Rightarrow> string \<Rightarrow> any list \<Rightarrow> machine \<Rightarrow> machine result" where
  "memory_log line fmt args M = kernel_log_fmt ''./kern/memory.c'' line fmt args M"

definition memory_log_empty :: "u32 \<Rightarrow> machine \<Rightarrow> machine result" where
  "memory_log_empty line M =
     bindR (ext__log [] \<lparr>loc_file = Some ''./kern/memory.c'', loc_line = line\<rparr> [] (log_state M)) (\<lambda>l. Inr (M\<lparr>log_state := l\<rparr>))"

fun log_entries :: "MMapEnt list \<Rightarrow> machine \<Rightarrow> machine result" where
  "log_entries [] M = Inr M"
| "log_entries (it # rest) M =
     bindR (idxR [''Used'', ''Free'', ''ACPI'', ''MMIO''] (uint (MMapEnt_Type it))) (\<lambda>mtype.
     let (sz, suffix) = mem_fmt (S64 (MMapEnt_Size it)) in
     bindR (memory_log 114 ''ENT: type=%f size=%f%f'' [any__char_ptr (Some mtype), any__i64 sz, any__char_ptr (Some suffix)] M)
       (log_entries rest))"

text \<open>The calls of \<^verbatim>\<open>copy_mapping\<close>, each followed by \<^verbatim>\<open>assert(res)\<close>.\<close>

fun copy_regions :: "u64 \<Rightarrow> u64 \<Rightarrow> (u64 \<times> s64 \<times> u64) list \<Rightarrow> memory \<Rightarrow> memory result option" where
  "copy_regions new old [] h = Some (Inr h)"
| "copy_regions new old ((virt, n, flags) # rest) h =
     bindP (copy_mapping h new old virt n flags) (\<lambda>(res, h).
     bindP (Some (assertR res ''res'')) (\<lambda>_. copy_regions new old rest h))"

definition kernel_regions :: "symbols \<Rightarrow> (u64 \<times> s64 \<times> u64) list" where
  "kernel_regions ld =
     (let code_size = S64 (code_end ld - code_begin ld); bss_size = S64 (bss_end ld - code_end ld) in
      [(code_begin ld, code_size sdiv 4096, PTE_KERNEL_EXE),
       (code_end ld, bss_size sdiv 4096, PTE_KERNEL),
       (bb_address ld, 1, PTE_KERNEL),
       (environment_address ld, 1, PTE_KERNEL),
       (0xFFFFFFFFFFFFF000, 1, PTE_KERNEL)])"

definition build_page_table :: "symbols \<Rightarrow> BOOTBOOT \<Rightarrow> u64 \<Rightarrow> machine \<Rightarrow> machine result option" where
  "build_page_table ld bb end_page M =
     bindP (Some (get_page_table (cpu_state M))) (\<lambda>old.
     bindP (Some (zeroed_pages (heap M) 1)) (\<lambda>(new, h).
     bindP (Some (assertR (new \<noteq> 0) ''new'')) (\<lambda>_.
     bindP (Some (kernel_ptr 0)) (\<lambda>target.
     bindP (Some (map_region h new target target (S64 end_page) PTE_KERNEL)) (\<lambda>(res, h).
     bindP (Some (assertR res ''res'')) (\<lambda>_.
     bindP (copy_regions new old (kernel_regions ld) h) (\<lambda>h.
     bindP (Some (align_up (ucast (bb_fb_size bb)) 4096)) (\<lambda>fb_end.
     bindP (copy_regions new old [(fb_address ld, S64 (fb_end div 4096), PTE_KERNEL)] h) (\<lambda>h.
     bindP (Some (set_page_table new (cpu_state M))) (\<lambda>c.
     bindP (validate_heap h) (\<lambda>_.
     bindP (Some (destroy_bootboot_table h old)) (\<lambda>h.
     bindP (validate_heap h) (\<lambda>_.
     Some (Inr (M\<lparr>heap := h, cpu_state := c\<rparr>)))))))))))))))"

definition memory__init :: "symbols \<Rightarrow> BOOTBOOT \<Rightarrow> machine \<Rightarrow> (BOOTBOOT \<times> machine) result option" where
  "memory__init ld bb M =
     (let n = uint ((bb_size bb - 128) div 16) in
      bindP (Some (if n \<le> int (length (bb_mmap bb)) then Inr (take (nat n) (bb_mmap bb)) else Inl OutOfBounds)) (\<lambda>mmap.
      bindP (Some (idxR mmap (n - 1))) (\<lambda>last_ent.
      let end_address = MMapEnt_Ptr last_ent + MMapEnt_Size last_ent in
      bindP (Some (align_up end_address 4096)) (\<lambda>end_aligned.
      let end_page = end_aligned div 4096 in
      bindP (Some (log_entries mmap M)) (\<lambda>M.
      bindP (Some (memory_log_empty 116 M)) (\<lambda>M.
      let all = sort_mmap mmap; mmap = cut_mmap all in
      bindP (Some (UNSAFE_HACKY_higher_half_init (cpu_state M) (heap M))) (\<lambda>(c, h).
      bindP (Some (memory_log 137 ''higher-half addressing INIT COMPLETE'' [] (M\<lparr>heap := h, cpu_state := c\<rparr>))) (\<lambda>M.
      bindP (heap_init mmap end_address end_page (heap M)) (\<lambda>(mmap, h).
      bindP (Some (memory_log 175 ''global allocator INIT_COMPLETE'' [] (M\<lparr>heap := h\<rparr>))) (\<lambda>M.
      bindP (build_page_table ld bb end_page M) (\<lambda>M.
      bindP (Some (Bump__new (heap M) 2)) (\<lambda>(b, h).
      bindP (Some (memory_log 224 ''memory INIT_COMPLETE'' [] (M\<lparr>heap := h, InitAlloc := b\<rparr>))) (\<lambda>M.
      Some (Inr (bb\<lparr>bb_mmap := mmap @ drop (length mmap) all @ drop (nat n) (bb_mmap bb)\<rparr>, M)))))))))))))))"

section \<open>The log\<close>

definition memory_line :: "u32 \<Rightarrow> string \<Rightarrow> string" where
  "memory_line line t = log_line (prefix_text \<lparr>loc_file = Some ''./kern/memory.c'', loc_line = line\<rparr> @ t)"

lemma memory_log_ok:
  assumes "log_ready (log_state M)" "\<forall>a\<in>set args. any_ok a" "fmt_text fmt args = (t, k, True)"
  shows "\<exists>M'. memory_log line fmt args M = Inr M' \<and> logged M M' (memory_line line t)"
proof -
  have "short_loc ''./kern/memory.c'' line" by (rule short_loc) simp
  then obtain buf where "length buf = 200" "memory_log line fmt args M = Inr (M\<lparr>log_state := (log_state M)\<lparr>log_buffer := buf,
      serial := serial (log_state M) @ memory_line line t\<rparr>\<rparr>)"
    using ext__log_fmt_eq(1) [OF _ _ assms(2,3), of "log_state M" "\<lparr>loc_file = Some ''./kern/memory.c'', loc_line = line\<rparr>" "[]"] assms(1)
    by (auto simp: memory_log_def kernel_log_fmt_def short_loc_def memory_line_def)
  then show ?thesis using assms(1) by (auto simp: logged_def log_ok_def)
qed

lemma memory_log_plain:
  assumes "log_ready (log_state M)" "list_all (\<lambda>c. c \<noteq> NUL \<and> c \<noteq> CHR ''%'') t"
  shows "\<exists>M'. memory_log line t [] M = Inr M' \<and> logged M M' (memory_line line t)"
  using memory_log_ok [OF assms(1) _ fmt_text_plain [OF assms(2)]] by simp

lemma memory_log_empty_ok:
  assumes "log_ready (log_state M)"
  shows "\<exists>M'. memory_log_empty line M = Inr M' \<and> logged M M' (memory_line line [])"
proof -
  obtain buf where "length buf = 200" "memory_log_empty line M = Inr (M\<lparr>log_state := (log_state M)\<lparr>log_buffer := buf,
      serial := serial (log_state M) @ memory_line line []\<rparr>\<rparr>)"
    using ext__log_eq [of "log_state M" "[]" "[]" "\<lparr>loc_file = Some ''./kern/memory.c'', loc_line = line\<rparr>"] assms
    by (auto simp: memory_log_empty_def memory_line_def args_text_def)
  then show ?thesis using assms by (auto simp: logged_def log_ok_def)
qed

definition ent_text :: "MMapEnt \<Rightarrow> string" where
  "ent_text e = ''ENT: type='' @ [''Used'', ''Free'', ''ACPI'', ''MMIO''] ! unat (MMapEnt_Type e)
     @ '' size='' @ int_text (fst (mem_fmt (S64 (MMapEnt_Size e)))) @ snd (mem_fmt (S64 (MMapEnt_Size e)))"

definition ent_shown :: "MMapEnt \<Rightarrow> bool" where
  "ent_shown e \<longleftrightarrow> MMapEnt_Type e < 4 \<and> uint (MMapEnt_Size e) < 2 ^ 63"

lemma mem_fmt_loop_props:
  "0 \<le> sz \<Longrightarrow> sz < 2 ^ 63 \<Longrightarrow> mem_fmt_loop n c sz = (c', sz') \<Longrightarrow> 0 \<le> sz' \<and> sz' < 2 ^ 63 \<and> c' \<le> c + n"
proof (induction n arbitrary: c sz)
  case (Suc n)
  have "0 \<le> sz div 1024" "sz div 1024 < 2 ^ 63" using Suc.prems by auto
  from Suc.IH [OF this, of "c + 1"] show ?case using Suc.prems by (auto split: if_splits)
qed simp

lemma mem_fmt_props:
  assumes "0 \<le> sz" "sz < 2 ^ 63"
  shows "0 \<le> fst (mem_fmt sz)" "fst (mem_fmt sz) < 2 ^ 63" "ctext (snd (mem_fmt sz)) = snd (mem_fmt sz)"
proof -
  obtain c sz' where l: "mem_fmt_loop 3 0 sz = (c, sz')" by fastforce
  have b: "0 \<le> sz'" "sz' < 2 ^ 63" "c \<le> 3" using mem_fmt_loop_props [OF assms l] by simp_all
  then have "c = 0 \<or> c = 1 \<or> c = 2 \<or> c = 3" by auto
  then have "ctext ([[], '' Kb'', '' Mb'', '' Gb''] ! c) = [[], '' Kb'', '' Mb'', '' Gb''] ! c"
    by (auto simp: ctext_def NUL_def)
  then show "0 \<le> fst (mem_fmt sz)" "fst (mem_fmt sz) < 2 ^ 63" "ctext (snd (mem_fmt sz)) = snd (mem_fmt sz)"
    using l b by (simp_all add: mem_fmt_def)
qed

lemma log_entry_ok:
  assumes "log_ready (log_state M)" "ent_shown e"
  shows "\<exists>M'. log_entries (e # es) M = log_entries es M' \<and> logged M M' (memory_line 114 (ent_text e))"
proof -
  let ?types = "[''Used'', ''Free'', ''ACPI'', ''MMIO'']" and ?k = "unat (MMapEnt_Type e)"
  have k: "?k < 4" using assms(2) by (simp add: ent_shown_def word_less_nat_alt)
  then have "?k = 0 \<or> ?k = 1 \<or> ?k = 2 \<or> ?k = 3" by auto
  then have ct: "ctext (?types ! ?k) = ?types ! ?k" by (auto simp: ctext_def NUL_def)
  have ix: "idxR ?types (uint (MMapEnt_Type e)) = Inr (?types ! ?k)"
  proof -
    have "idxR ?types (int ?k) = Inr (?types ! ?k)" using k by (simp add: idxR_def del: of_nat_unat)
    then show ?thesis by simp
  qed
  obtain sz suf where m: "mem_fmt (S64 (MMapEnt_Size e)) = (sz, suf)" by fastforce
  have "S64 (MMapEnt_Size e) = uint (MMapEnt_Size e)" using assms(2) by (simp add: ent_shown_def sint_eq_uint_small)
  then have p: "0 \<le> sz" "sz < 2 ^ 63" "ctext suf = suf"
    using mem_fmt_props [of "S64 (MMapEnt_Size e)"] assms(2) m by (simp_all add: ent_shown_def)
  have "uint (U64 sz) = sz" using p(1,2) by (intro uint_word_of_int_small) auto
  then have si: "sint (U64 sz) = sz" using sint_eq_uint_small [of "U64 sz"] p(2) by simp
  let ?args = "[any__char_ptr (Some (?types ! ?k)), any__i64 sz, any__char_ptr (Some suf)]"
  have "\<forall>a\<in>set ?args. any_ok a" using si p(1) by (simp add: any_ok_def any__char_ptr_def any__i64_def signed_type_def)
  moreover have "fmt_text ''ENT: type=%f size=%f%f'' ?args = (ent_text e, 3, True)"
    using m ct p(3) si by (simp add: ent_text_def any_text_def any__char_ptr_def any__i64_def signed_type_def NUL_def)
  ultimately obtain M' where "memory_log 114 ''ENT: type=%f size=%f%f'' ?args M = Inr M'" "logged M M' (memory_line 114 (ent_text e))"
    using memory_log_ok [OF assms(1)] by blast
  then show ?thesis using ix m by auto
qed

lemma log_entries_ok:
  assumes "log_ready (log_state M)" "list_all ent_shown es"
  shows "\<exists>M'. log_entries es M = Inr M' \<and> logged M M' (concat (map (\<lambda>e. memory_line 114 (ent_text e)) es))"
  using assms
proof (induction es arbitrary: M)
  case Nil
  then show ?case by (simp add: logged_def)
next
  case (Cons e es)
  obtain M1 where 1: "log_entries (e # es) M = log_entries es M1" "logged M M1 (memory_line 114 (ent_text e))"
    using log_entry_ok [of M e es] Cons.prems by auto
  then obtain M' where "log_entries es M1 = Inr M'" "logged M1 M' (concat (map (\<lambda>e. memory_line 114 (ent_text e)) es))"
    using Cons.IH [of M1] Cons.prems logged_fields [OF 1(2)] by auto
  then show ?case using 1 logged_trans by fastforce
qed

section \<open>Copying the kernel's regions\<close>

text \<open>Page numbers of virtual addresses: kernel space starts at page \<open>2 ^ 52 - 2 ^ 35\<close>, and its page \<open>j\<close> is the physical page \<open>j\<close>.\<close>

lemma page_ptr_vaddr: "page_ptr j = vaddr (2 ^ 52 - 2 ^ 35 + j)"
  by (simp add: page_ptr_def vaddr_def KERNEL_SPACE_BEGIN_def algebra_simps)

text \<open>A region to copy: its first virtual page, its size, its first physical page and its flags.\<close>

type_synonym copied = "int \<times> int \<times> int \<times> u64"

definition apart :: "copied \<Rightarrow> copied \<Rightarrow> bool" where
  "apart = (\<lambda>(V, n, k, f) (W, m, k', f'). V + n \<le> W \<or> W + m \<le> V)"

definition copied_ok :: "copied \<Rightarrow> bool" where
  "copied_ok = (\<lambda>(V, n, k, f). 2 ^ 52 - 2 ^ 35 + 2 ^ 27 \<le> V \<and> 0 < n \<and> V + n \<le> 2 ^ 52 \<and> 0 \<le> k \<and> k + n \<le> 2 ^ 35 \<and> flags_ok f)"

definition maps_region :: "int \<Rightarrow> memory \<Rightarrow> copied \<Rightarrow> bool" where
  "maps_region p s = (\<lambda>(V, n, k, f). translates p s V n k)"

definition in_copied :: "copied \<Rightarrow> u64 \<Rightarrow> bool" where
  "in_copied = (\<lambda>(V, n, k, f). in_region V n)"

definition call_of :: "copied \<Rightarrow> u64 \<times> s64 \<times> u64" where
  "call_of = (\<lambda>(V, n, k, f). (vaddr V, n, f))"

lemma outside_region:
  assumes "2 ^ 52 - 2 ^ 35 \<le> V" "V + n \<le> 2 ^ 52" "2 ^ 52 - 2 ^ 35 \<le> W" "W + m \<le> 2 ^ 52" "V + n \<le> W \<or> W + m \<le> V" "j \<in> {0..<m}"
  shows "\<not> in_region V n (vaddr (W + j))"
proof
  assume "in_region V n (vaddr (W + j))"
  then obtain i where i: "i \<in> {0..<n}" "vslot 1 (vaddr (W + j)) = vslot 1 (vaddr (V + i))" by (auto simp: in_region_def)
  have "V + i < W + j \<or> W + j < V + i" using assms i(1) by auto
  then show False using vslot_inject [of "V + i" "W + j"] vslot_inject [of "W + j" "V + i"] assms i by auto
qed

lemma outside_copied:
  assumes "copied_ok a" "copied_ok (V, n, k, f)" "apart a (V, n, k, f) \<or> apart (V, n, k, f) a" "j \<in> {0..<n}"
  shows "\<not> in_copied a (vaddr (V + j))"
proof -
  obtain W m k' f' where a: "a = (W, m, k', f')" by (cases a)
  show ?thesis unfolding a in_copied_def prod.case
    by (rule outside_region) (use assms a in \<open>auto simp: copied_ok_def apart_def\<close>)
qed

lemma maps_region_keep:
  assumes "maps_region p s c" "\<And>j. j \<in> {0..<fst (snd c)} \<Longrightarrow> view s' 4 p (vaddr (fst c + j)) = view s 4 p (vaddr (fst c + j))"
  shows "maps_region p s' c"
  using assms by (cases c) (simp add: maps_region_def translates_def)

text \<open>\<open>copies N p s lv rs s' lv'\<close>: the regions of the list are mapped, and no other address translates differently.\<close>

definition copies :: "int \<Rightarrow> int \<Rightarrow> memory \<Rightarrow> (int \<rightharpoonup> nat) \<Rightarrow> copied list \<Rightarrow> memory \<Rightarrow> (int \<rightharpoonup> nat) \<Rightarrow> bool" where
  "copies N p s lv rs s' lv' \<longleftrightarrow> grows N p s lv s' lv' \<and> list_all (maps_region p s') rs
     \<and> (\<forall>va. (\<forall>c\<in>set rs. \<not> in_copied c va) \<longrightarrow> view s' 4 p va = view s 4 p va)"

definition unmapped_in :: "int \<Rightarrow> memory \<Rightarrow> copied \<Rightarrow> bool" where
  "unmapped_in p s = (\<lambda>(V, n, k, f). \<forall>j\<in>{0..<n}. view s 4 p (vaddr (V + j)) = None)"

text \<open>The tables that the regions may need.\<close>

definition copied_cost :: "copied \<Rightarrow> nat" where
  "copied_cost = (\<lambda>(V, n, k, f). region_cost V n k)"

definition regions_cost :: "copied list \<Rightarrow> nat" where
  "regions_cost rs = sum_list (map copied_cost rs)"

lemma copies_Cons:
  assumes ok: "copied_ok c" "list_all copied_ok rs" "list_all (apart c) rs"
    and g: "grows N p s lv s1 lv1" and o: "\<And>va. \<not> in_copied c va \<Longrightarrow> view s1 4 p va = view s 4 p va" and m: "maps_region p s1 c"
    and rest: "copies N p s1 lv1 rs s' lv'"
  shows "copies N p s lv (c # rs) s' lv'"
proof -
  obtain V n k f where c: "c = (V, n, k, f)" by (cases c)
  have "view s' 4 p (vaddr (V + j)) = view s1 4 p (vaddr (V + j))" if "j \<in> {0..<n}" for j
    using rest outside_copied [OF _ ok(1) [unfolded c] _ that] ok(2,3) c unfolding copies_def list_all_iff by blast
  then have "maps_region p s' c" by (intro maps_region_keep [OF m]) (simp add: c)
  then show ?thesis using rest grows_trans [OF g] o unfolding copies_def by simp
qed

lemma copy_one:
  assumes ok: "heap_ok N s" and src: "pt_ok N s lv2 q" and dest: "pt_ok N s lv p" and d: "dom lv2 \<inter> dom lv = {}"
    and c: "copied_ok c" "maps_region q s c" "unmapped_in p s c" and lf: "leafy s lv"
  shows "\<exists>res s' lv'. copy_mapping s (page_ptr p) (page_ptr q) (fst (call_of c)) (fst (snd (call_of c))) (snd (snd (call_of c)))
             = Some (Inr (res, s')) \<and> grows N p s lv s' lv'
           \<and> (\<forall>va. \<not> in_copied c va \<longrightarrow> view s' 4 p va = view s 4 p va) \<and> (res \<longrightarrow> maps_region p s' c)
           \<and> spends (copied_cost c) s s' \<and> (res \<or> free_set s' = {}) \<and> (res \<longrightarrow> leafy s' lv')"
proof -
  obtain V n k f where e: "c = (V, n, k, f)" by (cases c)
  have f: "flags_ok f" and b: "0 < V" "0 < n" "V + n \<le> 2 ^ 52" "0 \<le> k" "k + n \<le> 2 ^ 35" using c(1) by (auto simp: e copied_ok_def)
  have r: "translates q s V n k" using c(2) by (simp add: e maps_region_def)
  have u: "\<forall>j\<in>{0..<n}. view s 4 p (vaddr (V + j)) = None" using c(3) by (simp add: e unmapped_in_def)
  then have "\<forall>j\<in>{0..<n}. \<forall>x. view s 4 p (vaddr (V + j)) \<noteq> Some (x, 2)" by simp
  from copy_mapping_spec [OF ok src dest d f b r this] obtain res s' where
    g: "copy_mapping s (page_ptr p) (page_ptr q) (vaddr V) n f = Some (Inr (res, s'))"
      "keeps_outside p s s' V n" "res \<longrightarrow> translates p s' V n k" by blast
  obtain lv' where "grows N p s lv s' lv'" "spends (region_cost V n k) s s'" "res \<or> free_set s' = {}" "res \<longrightarrow> leafy s' lv'"
    using copy_mapping_cost [OF ok src dest f b r u _ g(1)] lf by (auto simp: region_fits_def)
  then show ?thesis using g unfolding e call_of_def maps_region_def in_copied_def keeps_outside_def copied_cost_def
    by (intro exI [of _ res] exI [of _ s'] exI [of _ lv']) simp
qed

text \<open>After one region the source tree is as before, and the other regions are still to be copied.\<close>

lemma copied_next:
  assumes ok: "heap_ok N s" "pt_ok N s lv2 q" "pt_ok N s lv p" "dom lv2 \<inter> dom lv = {}"
    and rs: "list_all copied_ok (c # rs)" "list_all (maps_region q s) (c # rs)" "list_all (unmapped_in p s) (c # rs)" "sorted_wrt apart (c # rs)"
    and g: "grows N p s lv s1 lv1" "\<forall>va. \<not> in_copied c va \<longrightarrow> view s1 4 p va = view s 4 p va"
  shows "pt_ok N s1 lv2 q" "dom lv2 \<inter> dom lv1 = {}" "list_all (maps_region q s1) rs" "list_all (unmapped_in p s1) rs"
proof -
  note same = grows_tree_same [OF g(1) ok(2) heap_ok_bound [OF ok(1)] ok(4)]
  show "pt_ok N s1 lv2 q" by (rule tree_same_ok(1) [OF same(1) ok(2) same(2)])
  show "dom lv2 \<inter> dom lv1 = {}" by (rule same(3))
  have v: "view s1 4 q va = view s 4 q va" for va by (rule tree_same_view [OF same(1) ok(2) pt_okD(1) [OF ok(2)]])
  have "maps_region q s a" if "a \<in> set rs" for a using rs(2) that by (simp add: list_all_iff)
  then have "maps_region q s1 a" if "a \<in> set rs" for a using that v by (blast intro: maps_region_keep)
  then show "list_all (maps_region q s1) rs" by (simp add: list_all_iff)
  have "unmapped_in p s1 a" if a: "a \<in> set rs" for a
  proof -
    obtain W m k f where e: "a = (W, m, k, f)" by (cases a)
    have "view s1 4 p (vaddr (W + j)) = None" if "j \<in> {0..<m}" for j
    proof -
      have "\<not> in_copied c (vaddr (W + j))"
        by (rule outside_copied [of _ W m k f]) (use rs(1,4) a that in \<open>auto simp: e list_all_iff\<close>)
      moreover have "unmapped_in p s (W, m, k, f)" using rs(3) a by (simp add: list_all_iff e)
      ultimately show ?thesis using g(2) that by (simp add: unmapped_in_def)
    qed
    then show ?thesis by (simp add: e unmapped_in_def)
  qed
  then show "list_all (unmapped_in p s1) rs" by (simp add: list_all_iff)
qed

lemma copy_regions_spec:
  assumes "heap_ok N s" "pt_ok N s lv2 q" "pt_ok N s lv p" "dom lv2 \<inter> dom lv = {}"
    and "list_all copied_ok rs" "list_all (maps_region q s) rs" "list_all (unmapped_in p s) rs" "sorted_wrt apart rs" "leafy s lv"
  shows "copy_regions (page_ptr p) (page_ptr q) (map call_of rs) s = Some (Inl (Panic ''res''))
      \<and> card (free_quads s) \<le> regions_cost rs
    \<or> (\<exists>s' lv'. copy_regions (page_ptr p) (page_ptr q) (map call_of rs) s = Some (Inr s') \<and> copies N p s lv rs s' lv'
        \<and> spends (regions_cost rs) s s')"
  using assms
proof (induction rs arbitrary: s lv)
  case Nil
  then show ?case by (auto simp: copies_def grows_def)
next
  case (Cons c rs)
  have c: "copied_ok c" "maps_region q s c" "unmapped_in p s c" and ap: "list_all (apart c) rs" and rs: "list_all copied_ok rs"
    using Cons.prems(5-8) by (auto simp: list_all_iff)
  obtain res s1 lv1 where 1: "copy_mapping s (page_ptr p) (page_ptr q) (fst (call_of c)) (fst (snd (call_of c))) (snd (snd (call_of c)))
      = Some (Inr (res, s1))" "grows N p s lv s1 lv1" "\<forall>va. \<not> in_copied c va \<longrightarrow> view s1 4 p va = view s 4 p va"
      "res \<longrightarrow> maps_region p s1 c" "spends (copied_cost c) s s1" "res \<or> free_set s1 = {}" "res \<longrightarrow> leafy s1 lv1"
    using copy_one [OF Cons.prems(1-4) c Cons.prems(9)] by blast
  have cost: "regions_cost (c # rs) = copied_cost c + regions_cost rs" by (simp add: regions_cost_def)
  have run: "copy_regions (page_ptr p) (page_ptr q) (map call_of (c # rs)) s
      = (if res then copy_regions (page_ptr p) (page_ptr q) (map call_of rs) s1 else Some (Inl (Panic ''res'')))"
    using 1(1) by (cases "call_of c") (simp add: assertR_def)
  show ?case
  proof (cases res)
    case True
    note more = copied_next [OF Cons.prems(1-8) 1(2,3)]
    have "copy_regions (page_ptr p) (page_ptr q) (map call_of rs) s1 = Some (Inl (Panic ''res''))
          \<and> card (free_quads s1) \<le> regions_cost rs
        \<or> (\<exists>s' lv'. copy_regions (page_ptr p) (page_ptr q) (map call_of rs) s1 = Some (Inr s') \<and> copies N p s1 lv1 rs s' lv'
          \<and> spends (regions_cost rs) s1 s')"
      using Cons.IH [OF _ more(1) _ more(2) rs more(3,4)] 1(2,7) Cons.prems(8) True by (auto simp: grows_def)
    moreover have "copies N p s lv (c # rs) s' lv'" if "copies N p s1 lv1 rs s' lv'" for s' lv'
      using copies_Cons [OF c(1) rs ap 1(2) _ _ that] 1(3,4) True by blast
    moreover have "spends (copied_cost c + regions_cost rs) s s'" if "spends (regions_cost rs) s1 s'" for s'
      using spends_trans [OF 1(5) that] by blast
    moreover have "card (free_quads s) \<le> copied_cost c + regions_cost rs" if "card (free_quads s1) \<le> regions_cost rs"
      using 1(5) that by (simp add: spends_def)
    ultimately show ?thesis unfolding run cost using True by (simp only: if_True) blast
  next
    case False
    then show ?thesis unfolding run cost using 1(6) spends_all [OF 1(5)] by auto
  qed
qed

lemma copy_regions_append:
  "copy_regions new old (xs @ ys) h = bindP (copy_regions new old xs h) (copy_regions new old ys)"
  by (induction xs arbitrary: h) (auto simp: bindP_def assertR_def split: option.splits sum.splits)

lemma tree_sameI:
  assumes "\<And>t a. t \<in> dom lv \<Longrightarrow> a \<in> page_addrs t \<Longrightarrow> mem s' a = mem s a"
  shows "tree_same s s' lv"
  using assms entry_addr by (simp add: tree_same_def entry_def)

section \<open>The new page tables\<close>

text \<open>\<open>new_tables N s lv rs x s' lv'\<close>: the tree at \<open>x\<close> maps physical memory into kernel space and the regions
  of the list, and its tables and the free pages together are the pages that were free or tables of the old tree before.\<close>

definition new_tables :: "int \<Rightarrow> memory \<Rightarrow> (int \<rightharpoonup> nat) \<Rightarrow> copied list \<Rightarrow> int \<Rightarrow> memory \<Rightarrow> (int \<rightharpoonup> nat) \<Rightarrow> bool" where
  "new_tables N s lv rs x s' lv' \<longleftrightarrow> heap_ok N s' \<and> pt_ok N s' lv' x \<and> rooted s' lv' x
     \<and> free_set s' \<union> dom lv' = free_set s \<union> dom lv \<and> usable_set s' = usable_set s \<union> dom lv
     \<and> translates x s' (2 ^ 52 - 2 ^ 35) N 0 \<and> list_all (maps_region x s') rs"

definition boot_regions :: "int \<Rightarrow> memory \<Rightarrow> copied list \<Rightarrow> bool" where
  "boot_regions q s rs \<longleftrightarrow> list_all copied_ok rs \<and> list_all (maps_region q s) rs \<and> sorted_wrt apart rs"

lemma boot_regions_same:
  assumes "boot_regions q s rs" "tree_same s s' lv" "pt_ok N s lv q"
  shows "boot_regions q s' rs"
proof -
  have v: "view s' 4 q va = view s 4 q va" for va by (rule tree_same_view [OF assms(2,3) pt_okD(1) [OF assms(3)]])
  have "maps_region q s' c" if "maps_region q s c" for c using that v by (blast intro: maps_region_keep)
  then show ?thesis using assms(1) unfolding boot_regions_def list_all_iff by blast
qed

text \<open>The first mapping of the new tree: all of physical memory.\<close>

definition physical_cost :: "int \<Rightarrow> nat" where
  "physical_cost N = region_cost (2 ^ 52 - 2 ^ 35) N 0"

lemma map_physical:
  assumes N: "0 < N" "N \<le> 2 ^ 27" "512 dvd N" and ok: "heap_ok N s" and x: "allocated N s0 1 x s" "\<And>i. 0 \<le> i \<Longrightarrow> i < 512 \<Longrightarrow> entry s x i = 0"
  shows "\<exists>res s' lv'. map_region s (page_ptr x) (page_ptr 0) (page_ptr 0) N PTE_KERNEL = Inr (res, s') \<and> grows N x s [x \<mapsto> 4] s' lv'
           \<and> rooted s' lv' x \<and> (res \<longrightarrow> translates x s' (2 ^ 52 - 2 ^ 35) N 0)
           \<and> (\<forall>c. copied_ok c \<longrightarrow> unmapped_in x s' c) \<and> spends (physical_cost N) s s' \<and> (res \<or> free_set s' = {})
           \<and> (res \<longrightarrow> leafy s' lv')"
proof -
  note single = pt_ok_single [OF ok x]
  have root: "rooted s [x \<mapsto> 4] x" using x(2) by (auto simp: rooted_def)
  obtain res s' where r: "map_region s (page_ptr x) (vaddr (2 ^ 52 - 2 ^ 35)) (page_ptr 0) N PTE_KERNEL = Inr (res, s')"
      "keeps_outside x s s' (2 ^ 52 - 2 ^ 35) N" "res \<longrightarrow> translates x s' (2 ^ 52 - 2 ^ 35) N 0"
    using map_region_spec [OF ok single(1) kernel_flags_ok(1), of "2 ^ 52 - 2 ^ 35" N 0] single(2) N by auto
  have "unmapped_in x s' c" if "copied_ok c" for c
  proof -
    obtain V n k f where c: "c = (V, n, k, f)" by (cases c)
    have "view s' 4 x (vaddr (V + j)) = None" if "j \<in> {0..<n}" for j
    proof -
      have "\<not> in_region (2 ^ 52 - 2 ^ 35) N (vaddr (V + j))"
        by (rule outside_region [where m = n]) (use \<open>copied_ok c\<close> c that N in \<open>auto simp: copied_ok_def\<close>)
      then show ?thesis using r(2) single(2) by (simp add: keeps_outside_def)
    qed
    then show ?thesis by (simp add: c unmapped_in_def)
  qed
  moreover have lf: "leafy s [x \<mapsto> 4]" by (simp add: leafy_def)
  then have "region_fits s [x \<mapsto> 4] N" by (simp add: region_fits_def)
  then obtain lv' where g: "grows N x s [x \<mapsto> 4] s' lv'" "spends (physical_cost N) s s'" "res \<or> free_set s' = {}" "res \<longrightarrow> leafy s' lv'"
    using map_region_cost [OF ok single(1) kernel_flags_ok(1) _ _ _ _ _ _ _ r(1)] single(2) N lf by (auto simp: physical_cost_def)
  moreover have "page_ptr 0 = vaddr (2 ^ 52 - 2 ^ 35)" using page_ptr_vaddr [of 0] by simp
  moreover have "rooted s' lv' x" using g(1) root by (simp add: grows_def)
  ultimately show ?thesis using r by (intro exI [of _ res] exI [of _ s'] exI [of _ lv']) simp
qed

lemma physical_kept:
  assumes "copies N x s lv rs s' lv'" "list_all copied_ok rs" "translates x s (2 ^ 52 - 2 ^ 35) M 0" "M \<le> 2 ^ 27"
  shows "translates x s' (2 ^ 52 - 2 ^ 35) M 0"
proof -
  have "view s' 4 x (vaddr (2 ^ 52 - 2 ^ 35 + j)) = view s 4 x (vaddr (2 ^ 52 - 2 ^ 35 + j))" if "j \<in> {0..<M}" for j
  proof -
    have "\<not> in_copied c (vaddr (2 ^ 52 - 2 ^ 35 + j))" if "c \<in> set rs" for c
    proof -
      obtain V n k f where c: "c = (V, n, k, f)" by (cases c)
      then have "copied_ok (V, n, k, f)" using assms(2) that by (simp add: list_all_iff)
      then show ?thesis unfolding c in_copied_def prod.case
        by (intro outside_region [where m = M]) (use \<open>j \<in> {0..<M}\<close> assms(4) in \<open>auto simp: copied_ok_def\<close>)
    qed
    then show ?thesis using assms(1) by (simp add: copies_def)
  qed
  then show ?thesis using assms(3) unfolding translates_def by simp
qed

text \<open>From the empty tree at \<open>x\<close> to the end: all regions copied, the old tables destroyed.\<close>

lemma copy_and_destroy:
  assumes N: "N \<le> 2 ^ 27" and ok: "heap_ok N s" and old: "pt_ok N s lv q" "rooted s lv q" and br: "boot_regions q s rs"
    and new: "pt_ok N s lv1 x" "rooted s lv1 x" "translates x s (2 ^ 52 - 2 ^ 35) N 0" "\<forall>c. copied_ok c \<longrightarrow> unmapped_in x s c" "leafy s lv1"
    and d: "dom lv \<inter> dom lv1 = {}" and t: "free_set s \<union> dom lv1 = free_set t" "usable_set s = usable_set t"
  shows "copy_regions (page_ptr x) (page_ptr q) (map call_of rs) s = Some (Inl (Panic ''res''))
      \<and> card (free_quads s) \<le> regions_cost rs
    \<or> (\<exists>s2 s' lv'. copy_regions (page_ptr x) (page_ptr q) (map call_of rs) s = Some (Inr s2) \<and> validate_heap s2 = Some (Inr ())
         \<and> destroy_bootboot_table s2 (page_ptr q) = Inr s' \<and> validate_heap s' = Some (Inr ()) \<and> new_tables N t lv rs x s' lv'
         \<and> spends (regions_cost rs) s s')"
proof -
  note N35 = heap_ok_bound [OF ok]
  have rs: "list_all copied_ok rs" "list_all (maps_region q s) rs" "sorted_wrt apart rs" "list_all (unmapped_in x s) rs"
    using br new(4) by (auto simp: boot_regions_def list_all_iff)
  consider "copy_regions (page_ptr x) (page_ptr q) (map call_of rs) s = Some (Inl (Panic ''res''))"
      "card (free_quads s) \<le> regions_cost rs"
    | s2 lv' where "copy_regions (page_ptr x) (page_ptr q) (map call_of rs) s = Some (Inr s2)" "copies N x s lv1 rs s2 lv'"
      "spends (regions_cost rs) s s2"
    using copy_regions_spec [OF ok old(1) new(1) d rs(1,2,4,3) new(5)] by blast
  then show ?thesis
  proof cases
    case (2 s2 lv')
    have g: "grows N x s lv1 s2 lv'" using 2(2) by (simp add: copies_def)
    then have g': "heap_ok N s2" "pt_ok N s2 lv' x" "rooted s2 lv' x" "usable_set s2 = usable_set s"
        "free_set s2 \<union> dom lv' = free_set s \<union> dom lv1"
      using new(2) by (auto simp: grows_def)
    note same = grows_tree_same [OF g old(1) N35 d]
    note o2 = tree_same_ok [OF same(1) old(1) same(2)]
    obtain s' where s': "destroy_bootboot_table s2 (page_ptr q) = Inr s'" "heap_ok N s'" "free_set s' = free_set s2 \<union> dom lv"
        "usable_set s' = usable_set s2 \<union> dom lv" "kept s2 s'"
      using destroy_bootboot_tree [OF g'(1) o2(1) o2(2) [OF old(2)]] by blast
    have fr: "dom lv' \<inter> free_set s' = {}" using s'(3) pt_okD(2) [OF g'(2)] same(3) by blast
    have m: "tree_same s2 s' lv'"
    proof (rule tree_sameI)
      fix t a assume t: "t \<in> dom lv'" "a \<in> page_addrs t"
      then have "page_ok t" "t \<notin> free_set s'" using table_page_ok [OF g'(2) N35] fr by blast+
      then show "mem s' a = mem s2 a" using s'(5) t(2) by (simp add: kept_def)
    qed
    have v: "view s' 4 x va = view s2 4 x va" for va by (rule tree_same_view [OF m g'(2) pt_okD(1) [OF g'(2)]])
    have "maps_region x s' c" if "c \<in> set rs" for c
      using 2(2) that v unfolding copies_def list_all_iff by (blast intro: maps_region_keep)
    moreover have "translates x s' (2 ^ 52 - 2 ^ 35) N 0" using physical_kept [OF 2(2) rs(1) new(3) N] by (simp add: translates_def v)
    moreover note tree_same_ok [OF m g'(2) fr]
    moreover have "free_set s' \<union> dom lv' = free_set t \<union> dom lv" using s'(3) g'(5) t(1) by blast
    ultimately have "new_tables N t lv rs x s' lv'"
      using s'(2,4) g'(3,4) t(2) unfolding new_tables_def list_all_iff by blast
    moreover have "spends 0 s2 s'" using s'(3) by (intro spends_grow [OF s'(2)]) blast
    then have "spends (regions_cost rs) s s'" using 2(3) spends_trans [of "regions_cost rs" s s2 0 s'] by simp
    ultimately show ?thesis using 2(1) s'(1) validate_heap_ok [OF g'(1)] validate_heap_ok [OF s'(2)] by blast
  qed blast
qed

lemma kernel_ptr_0: "kernel_ptr 0 = Inr (page_ptr 0)"
  using kernel_ptr_page [of 0] by (simp add: page_ok_def)

lemma set_page_table_page: "page_ok x \<Longrightarrow> set_page_table (page_ptr x) c = Inr (c\<lparr>cr3 := U64 x * 4096\<rparr>)"
  by (simp add: set_page_table_def physical_address_page)

text \<open>The tables of the new tree: the root, those of the mapping of physical memory and those of the regions.\<close>

definition boot_cost :: "int \<Rightarrow> copied list \<Rightarrow> nat" where
  "boot_cost N rs = Suc (physical_cost N + regions_cost rs)"

text \<open>The boot loader's tree survives the making of the new root and the mapping of physical memory.\<close>

lemma boot_tree_kept:
  assumes ok: "heap_ok N s" "pt_ok N s lv q" "rooted s lv q" "boot_regions q s rs"
    and a: "allocated N s 1 x s1" and g: "grows N x s1 [x \<mapsto> 4] s2 lv1"
  shows "pt_ok N s2 lv q" "rooted s2 lv q" "boot_regions q s2 rs" "dom lv \<inter> dom lv1 = {}"
    "heap_ok N s2" "pt_ok N s2 lv1 x" "free_set s2 \<union> dom lv1 = free_set s" "usable_set s2 = usable_set s"
proof -
  note N35 = heap_ok_bound [OF ok(1)]
  have x: "usable_set s1 = usable_set s" "free_set s = insert x (free_set s1)"
    using a by (auto simp: allocated_def keeps_def)
  have "tree_same s s1 lv"
  proof (rule tree_sameI)
    fix t d assume t: "t \<in> dom lv" "d \<in> page_addrs t"
    then have "page_ok t" "t \<notin> free_set s" using table_page_ok [OF ok(2) N35] pt_okD(2) [OF ok(2)] by blast+
    then show "mem s1 d = mem s d" using a t(2) unfolding allocated_def keeps_def by blast
  qed
  note o1 = this tree_same_ok [OF this ok(2)] boot_regions_same [OF ok(4) this ok(2)]
  have f1: "dom lv \<inter> free_set s1 = {}" "dom lv \<inter> dom [x \<mapsto> (4 :: nat)] = {}" using pt_okD(2) [OF ok(2)] x(2) by auto
  note same = grows_tree_same [OF g o1(2) [OF f1(1)] N35 f1(2)]
  show "pt_ok N s2 lv q" "rooted s2 lv q"
    using tree_same_ok [OF same(1) o1(2) [OF f1(1)] same(2)] o1(3) [OF f1(1) ok(3)] by blast+
  show "boot_regions q s2 rs" by (rule boot_regions_same [OF o1(4) same(1) o1(2) [OF f1(1)]])
  show "dom lv \<inter> dom lv1 = {}" by (rule same(3))
  show "heap_ok N s2" "pt_ok N s2 lv1 x" "free_set s2 \<union> dom lv1 = free_set s" "usable_set s2 = usable_set s"
    using g x by (auto simp: grows_def)
qed

lemma build_page_table_spec:
  fixes M :: machine
  defines "s \<equiv> heap M"
  assumes N: "0 < N" "N \<le> 2 ^ 27" "512 dvd N" and ok: "heap_ok N s" and old: "pt_ok N s lv q" "rooted s lv q" and br: "boot_regions q s rs"
    and c: "cr3 (cpu_state M) = U64 q * 4096" and fb: "align_up (ucast (bb_fb_size bb)) 4096 = Inr fb_end"
    and rs: "map call_of rs = kernel_regions ld @ [(fb_address ld, S64 (fb_end div 4096), PTE_KERNEL)]"
  shows "(\<exists>e\<in>{''new'', ''res''}. build_page_table ld bb (U64 N) M = Some (Inl (Panic e)))
      \<and> card (free_quads s) \<le> boot_cost N rs
    \<or> (\<exists>x s' lv'. build_page_table ld bb (U64 N) M = Some (Inr (M\<lparr>heap := s', cpu_state := (cpu_state M)\<lparr>cr3 := U64 x * 4096\<rparr>\<rparr>))
          \<and> new_tables N s lv rs x s' lv' \<and> spends (boot_cost N rs) s s')"
proof -
  note N35 = heap_ok_bound [OF ok]
  have pq: "page_ok q" by (rule table_page_ok [OF old(1) N35 pt_okD(1) [OF old(1)]])
  have get: "get_page_table (cpu_state M) = Inr (page_ptr q)" using kernel_ptr_page [OF pq] by (simp add: get_page_table_def c)
  have "uint (U64 N) = N" using N by (intro uint_word_of_int_small) auto
  then have sn: "S64 (U64 N) = N" using sint_eq_uint_small [of "U64 N"] N by simp
  note start = build_page_table_def get bindP_simps prod.case sn kernel_ptr_0 s_def [symmetric]
  consider x s1 where "zeroed_pages s 1 = Inr (page_ptr x, s1)" "page_ok x" "allocated N s 1 x s1"
      "\<forall>k\<in>{0..<512}. mem s1 (page_ptr x + U64 (8 * k)) = 0" | "zeroed_pages s 1 = Inr (0, s)" "free_set s = {}"
    using zeroed_pages_one [OF ok] by blast
  then show ?thesis
  proof cases
    case (1 x s1)
    have zero: "entry s1 x i = 0" if "0 \<le> i" "i < 512" for i using 1(4) that by (simp add: entry_def)
    have a: "heap_ok N s1" using 1(3) by (simp add: allocated_def)
    obtain res s2 lv1 where 2: "map_region s1 (page_ptr x) (page_ptr 0) (page_ptr 0) N PTE_KERNEL = Inr (res, s2)"
        "grows N x s1 [x \<mapsto> 4] s2 lv1" "rooted s2 lv1 x" "res \<longrightarrow> translates x s2 (2 ^ 52 - 2 ^ 35) N 0" "\<forall>c. copied_ok c \<longrightarrow> unmapped_in x s2 c"
        "spends (physical_cost N) s1 s2" "res \<or> free_set s2 = {}" "res \<longrightarrow> leafy s2 lv1"
      using map_physical [OF N a 1(3) zero] by blast
    note kept = boot_tree_kept [OF ok old br 1(3) 2(2)]
    have run: "build_page_table ld bb (U64 N) M = (if res then bindP (copy_regions (page_ptr x) (page_ptr q) (map call_of rs) s2) (\<lambda>h.
        bindP (validate_heap h) (\<lambda>_. bindP (Some (destroy_bootboot_table h (page_ptr q))) (\<lambda>h. bindP (validate_heap h) (\<lambda>_.
        Some (Inr (M\<lparr>heap := h, cpu_state := (cpu_state M)\<lparr>cr3 := U64 x * 4096\<rparr>\<rparr>)))))) else Some (Inl (Panic ''res'')))"
      unfolding rs copy_regions_append using page_ptr_nonzero [OF 1(2)] fb set_page_table_page [OF 1(2)]
      by (simp add: start 1(1) 2(1) assertR_def bindP_assoc)
    have p2: "spends (Suc (physical_cost N)) s s2" by (rule spends_trans [OF allocated_quads [OF ok 1(3)] 2(6)]) simp_all
    show ?thesis
    proof (cases res)
      case True
      then have "translates x s2 (2 ^ 52 - 2 ^ 35) N 0" "leafy s2 lv1" using 2(4,8) by simp_all
      from copy_and_destroy [OF N(2) kept(5,1-3,6) 2(3) this(1) 2(5) this(2) kept(4,7,8)]
      show ?thesis
      proof (elim disjE exE conjE)
        assume "copy_regions (page_ptr x) (page_ptr q) (map call_of rs) s2 = Some (Inl (Panic ''res''))"
          "card (free_quads s2) \<le> regions_cost rs"
        then show ?thesis unfolding run using True p2 by (auto simp: spends_def boot_cost_def)
      next
        fix s3 s' lv' assume a: "copy_regions (page_ptr x) (page_ptr q) (map call_of rs) s2 = Some (Inr s3)" "validate_heap s3 = Some (Inr ())"
          "destroy_bootboot_table s3 (page_ptr q) = Inr s'" "validate_heap s' = Some (Inr ())" "new_tables N s lv rs x s' lv'"
          "spends (regions_cost rs) s2 s'"
        have "spends (boot_cost N rs) s s'" using a(6) spends_trans [OF p2, of "regions_cost rs" s'] by (auto simp: boot_cost_def)
        then show ?thesis unfolding run using True a(1-5) by (simp only: if_True bindP_simps) blast
      qed
    next
      case False
      then have "card (free_quads s) \<le> boot_cost N rs" using spends_all [OF p2] 2(7) by (simp add: boot_cost_def)
      then show ?thesis using False by (simp add: run)
    qed
  next
    case 2
    then have "card (free_quads s) = 0" using free_quads_free [of s] by simp
    then show ?thesis using 2(1) by (simp add: start assertR_def)
  qed
qed

section \<open>What the boot loader leaves\<close>

definition usable_entries :: "MMapEnt list \<Rightarrow> MMapEnt list" where
  "usable_entries es = map (\<lambda>e. e\<lparr>ent_size := MMapEnt_Size e\<rparr>) (filter MMapEnt_IsFree es)"

lemma cut_sort: "cut_mmap (sort_mmap es) = usable_entries es"
proof -
  have "takeWhile free_ent (filter free_ent es @ filter (\<lambda>e. \<not> free_ent e) es) = filter free_ent es"
    by (subst takeWhile_append2) (auto simp: takeWhile_eq_Nil_iff hd_in_set dest: hd_in_set)
  then show ?thesis by (simp add: cut_mmap_eq sort_mmap_eq usable_entries_def)
qed

text \<open>
  The machine in which the kernel starts: a memory map that ends at page \<open>N\<close>, a multiple of 16 MB of at most 512 GB,
  with disjoint free entries; no allocator yet; tables at page \<open>q\<close>, in pages that the map does not call free, which
  map the kernel's regions \<open>rs\<close> to consecutive pages above the first 512 GB of kernel space.
\<close>

definition boot_ok :: "int \<Rightarrow> symbols \<Rightarrow> BOOTBOOT \<Rightarrow> machine \<Rightarrow> (int \<rightharpoonup> nat) \<Rightarrow> int \<Rightarrow> copied list \<Rightarrow> bool" where
  "boot_ok N ld bb M lv q rs \<longleftrightarrow> 0 < N \<and> N \<le> 2 ^ 27 \<and> 4096 dvd N
     \<and> bb_mmap bb \<noteq> [] \<and> uint (bb_size bb) = 128 + 16 * int (length (bb_mmap bb))
     \<and> MMapEnt_Ptr (last (bb_mmap bb)) + MMapEnt_Size (last (bb_mmap bb)) = U64 (4096 * N) \<and> list_all ent_shown (bb_mmap bb)
     \<and> boot_map N (usable_entries (bb_mmap bb)) \<and> has_room (init_bytes N) (usable_entries (bb_mmap bb))
     \<and> bss_state (heap M) \<and> log_ready (log_state M) \<and> cr3 (cpu_state M) = U64 q * 4096
     \<and> pt_ok N (heap M) lv q \<and> rooted (heap M) lv q \<and> entry (heap M) q 256 = 0
     \<and> dom lv \<inter> pages_of (usable_entries (bb_mmap bb)) = {} \<and> boot_regions q (heap M) rs
     \<and> map call_of rs = kernel_regions ld @ [(fb_address ld, (uint (bb_fb_size bb) + 4095) div 4096, PTE_KERNEL)]"

lemma pages_of_shrinks: "shrinks es es' \<Longrightarrow> pages_of es' \<subseteq> pages_of es"
proof -
  assume a: "shrinks es es'"
  have "whole_pages e' \<subseteq> pages_of es" if e': "e' \<in> set es'" for e'
  proof -
    obtain i where i: "i < length es'" "e' = es' ! i" using e' by (auto simp: in_set_conv_nth)
    then have e: "es ! i \<in> set es" "uint (ent_ptr (es ! i)) \<le> uint (ent_ptr e')"
        "uint (ent_ptr e') + uint (ent_size e') = uint (ent_ptr (es ! i)) + uint (ent_size (es ! i))"
      using a by (auto simp: shrinks_def list_all2_conv_all_nth)
    then have "whole_pages e' \<subseteq> whole_pages (es ! i)" by (auto simp: whole_pages_def)
    then show ?thesis using e(1) by (auto simp: pages_of_def)
  qed
  then show ?thesis by (auto simp: pages_of_def)
qed

lemma idx4_copied:
  assumes "copied_ok (V, n, k, f)" "j \<in> {0..<n}"
  shows "idx 4 (vaddr (V + j)) \<notin> {0, 256}"
proof -
  have b: "2 ^ 52 - 2 ^ 35 + 2 ^ 27 \<le> V + j" "V + j < 2 ^ 52" using assms by (auto simp: copied_ok_def)
  then have "uint (vaddr (V + j)) = 4096 * (V + j)" by (intro uint_vaddr) auto
  moreover have "4096 * (V + j) div (4096 * 2 ^ 27) = (V + j) div 2 ^ 27" by (rule div_mult_mult1) simp
  ultimately have i: "idx 4 (vaddr (V + j)) = (V + j) div 2 ^ 27 mod 512" by (simp add: idx_def)
  define d where "d = (V + j) div 2 ^ 27 - (2 ^ 25 - 512)"
  have "2 ^ 25 - 2 ^ 8 + 1 \<le> (V + j) div 2 ^ 27" "(V + j) div 2 ^ 27 < 2 ^ 25" using b by auto
  then have d: "257 \<le> d" "d < 512" by (simp_all add: d_def)
  have "(V + j) div 2 ^ 27 = d + 512 * 65535" by (simp add: d_def)
  then show ?thesis using d by (simp only: i mod_mult_self2) simp
qed

lemma align_up_pages:
  assumes "0 \<le> a" "a < 2 ^ 50"
  obtains r where "align_up (U64 a) 4096 = Inr r" "r div 4096 = U64 ((a + 4095) div 4096)" "S64 (r div 4096) = (a + 4095) div 4096"
proof -
  have u: "uint (U64 a) = a" using assms by (intro uint_word_of_int_small) auto
  obtain r where r: "align_up (U64 a) (2 ^ 12) = Inr r" "2 ^ 12 dvd uint r" "a \<le> uint r" "uint r < a + 2 ^ 12"
    using align_up_least [of 12 "U64 a"] assms unfolding u by auto
  then obtain m where m: "uint r = 4096 * m" by auto
  have e: "m = (a + 4095) div 4096" using r(3,4) m by auto
  have d: "uint (r div 4096) = m" by (simp add: uint_div m)
  then have "r div 4096 = U64 m" by (metis word_of_int_uint)
  moreover have "S64 (r div 4096) = m" using sint_eq_uint_small [of "r div 4096"] d e assms by simp
  ultimately show thesis using that [of r] r(1) e by simp
qed

lemma mmap_count:
  assumes "uint (bb_size bb) = 128 + 16 * int (length (bb_mmap bb))"
  shows "uint ((bb_size bb - 128) div 16) = int (length (bb_mmap bb))"
proof -
  have "uint (bb_size bb - 128) = uint (bb_size bb) - 128" using assms by (subst uint_sub_lem [THEN iffD1]) auto
  then show ?thesis using assms by (simp add: uint_div)
qed

text \<open>After the move, the old tables still map the kernel's regions.\<close>

lemma higher_half_boot:
  assumes pt: "pt_ok N s lv q" "rooted s lv q" "entry s q 256 = 0" and N: "N \<le> 2 ^ 35" and br: "boot_regions q s rs"
    and c: "cr3 c = U64 q * 4096" and b: "bss_state s"
  shows "\<exists>s'. UNSAFE_HACKY_higher_half_init c s = Inr (c, s') \<and> pt_ok N s' lv q \<and> rooted s' lv q \<and> boot_regions q s' rs \<and> bss_state s'"
proof -
  have cp: "cr3 c + KERNEL_SPACE_BEGIN = page_ptr q" by (simp add: c page_ptr_def)
  obtain s' where s': "UNSAFE_HACKY_higher_half_init c s = Inr (c, s')" "moved s s' lv q" "pt_ok N s' lv q" "s' = s\<lparr>mem := mem s'\<rparr>"
    using higher_half_view [OF pt(1) N cp] by metis
  have "maps_region q s' a" if "a \<in> set rs" for a
  proof -
    obtain V n k f where a: "a = (V, n, k, f)" by (cases a)
    then have ok: "copied_ok (V, n, k, f)" "maps_region q s a" using br that by (auto simp: boot_regions_def list_all_iff)
    show ?thesis
      by (rule maps_region_keep [OF ok(2)]) (use idx4_copied [OF ok(1)] moved_view(2) [OF s'(2) pt(1)] a in auto)
  qed
  then have "boot_regions q s' rs" using br by (auto simp: boot_regions_def list_all_iff)
  moreover have "bss_state s'" using b by (subst s'(4)) (simp add: bss_state_def)
  ultimately show ?thesis using s'(1,3) moved_rooted [OF s'(2) pt] by blast
qed

text \<open>Building the allocator leaves the tables alone.\<close>

lemma heap_init_boot:
  assumes N: "0 < N" "N \<le> 2 ^ 27" "4096 dvd N" and es: "boot_map N es" "has_room (init_bytes N) es" and b: "bss_state s"
    and pt: "pt_ok N s lv q" "rooted s lv q" "dom lv \<inter> pages_of es = {}" and br: "boot_regions q s rs"
  shows "\<exists>es' s'. heap_init es (U64 (4096 * N)) (U64 N) s = Some (Inr (es', s')) \<and> heap_ok N s' \<and> free_set s' = pages_of es'
           \<and> usable_set s' = pages_of es' \<and> shrinks es es' \<and> pt_ok N s' lv q \<and> rooted s' lv q \<and> boot_regions q s' rs
           \<and> total_size es' = total_size es - init_bytes N"
proof -
  have N35: "N < 2 ^ 35" "N \<le> 2 ^ 35" using N(2) by simp_all
  obtain es' s' where h: "heap_init es (U64 (4096 * N)) (U64 N) s = Some (Inr (es', s'))" "heap_ok N s'" "free_set s' = pages_of es'"
      "usable_set s' = pages_of es'" "mem_kept (pages_of es') s s'" "shrinks es es'" "total_size es' = total_size es - init_bytes N"
    using heap_init_spec [OF N(1) N35(1) N(3) es b] by blast
  have fr: "dom lv \<inter> free_set s' = {}" using pt(3) pages_of_shrinks [OF h(6)] h(3) by blast
  have m: "tree_same s s' lv"
  proof (rule tree_sameI)
    fix t a assume t: "t \<in> dom lv" "a \<in> page_addrs t"
    then have "page_ok t" "t \<notin> pages_of es'" using table_page_ok [OF pt(1) N35(2)] fr h(3) by blast+
    then show "mem s' a = mem s a" using h(5) t(2) by (simp add: mem_kept_def)
  qed
  note tree_same_ok [OF m pt(1) fr] boot_regions_same [OF br m pt(1)]
  then show ?thesis using h pt(2) by blast
qed

section \<open>What the kernel starts from\<close>

text \<open>
  \<open>booted N M lv q rs es M'\<close>: from the machine \<open>M\<close> with the old tables \<open>lv\<close> at page \<open>q\<close>, the initialisation came to
  \<open>M'\<close>, where every usable page is either free, a table of the new tree, or one of the two pages of the initial
  allocator, and where the new tree maps physical memory and the kernel's regions.
\<close>

definition booted :: "int \<Rightarrow> machine \<Rightarrow> (int \<rightharpoonup> nat) \<Rightarrow> int \<Rightarrow> copied list \<Rightarrow> MMapEnt list \<Rightarrow> machine \<Rightarrow> bool" where
  "booted N M lv q rs es M' \<longleftrightarrow> (\<exists>x lv' y. let s' = heap M' in
     cr3 (cpu_state M') = U64 x * 4096 \<and> heap_ok N s' \<and> pt_ok N s' lv' x \<and> rooted s' lv' x
     \<and> InitAlloc M' = \<lparr>bump_begin = page_ptr y, bump_count = 2 * 4096, bump_idx = 0\<rparr>
     \<and> usable_set s' = pages_of es \<union> dom lv \<and> free_set s' \<union> dom lv' \<union> {y..<y + 2} = pages_of es \<union> dom lv
     \<and> free_set s' \<inter> dom lv' = {} \<and> free_set s' \<inter> {y..<y + 2} = {} \<and> dom lv' \<inter> {y..<y + 2} = {}
     \<and> (\<forall>j\<in>{0..<N}. translate s' (page_ptr x) (page_ptr j) = Inr (page_ptr j))
     \<and> (\<forall>(V, n, k, f)\<in>set rs. \<forall>j\<in>{0..<n}.
          translate s' (page_ptr x) (vaddr (V + j)) = translate (heap M) (page_ptr q) (vaddr (V + j))))"

lemma translates_translate:
  assumes "translates p s V n k" "pt_ok N s lv p" "N \<le> 2 ^ 35" "j \<in> {0..<n}"
  shows "translate s (page_ptr p) (vaddr (V + j)) = Inr (page_ptr (k + j))"
  using assms(1,4) translate_vaddr [OF assms(2,3), of "V + j"] by (simp add: translates_def)

lemma booted_after_bump:
  assumes n: "new_tables N s lv rs x s1 lv'" and s: "free_set s = pages_of es" "usable_set s = pages_of es"
    and a: "allocated N s1 2 y s'" and M': "heap M' = s'" "cr3 (cpu_state M') = U64 x * 4096"
      "InitAlloc M' = \<lparr>bump_begin = page_ptr y, bump_count = 2 * 4096, bump_idx = 0\<rparr>"
    and old: "pt_ok N (heap M) lv q" and br: "boot_regions q (heap M) rs"
  shows "booted N M lv q rs es M'"
proof -
  have n': "heap_ok N s1" "pt_ok N s1 lv' x" "rooted s1 lv' x" "free_set s1 \<union> dom lv' = pages_of es \<union> dom lv"
      "usable_set s1 = pages_of es \<union> dom lv" "translates x s1 (2 ^ 52 - 2 ^ 35) N 0" "list_all (maps_region x s1) rs"
    using n unfolding new_tables_def s by auto
  note N35 = heap_ok_bound [OF n'(1)]
  have a': "heap_ok N s'" "{y..<y + 2} \<subseteq> free_set s1" "free_set s' = free_set s1 - {y..<y + 2}" "usable_set s' = usable_set s1"
      "keeps (free_set s1) s1 s'" using a by (auto simp: allocated_def keeps_def)
  have d: "dom lv' \<inter> free_set s1 = {}" using pt_okD(2) [OF n'(2)] by blast
  have m: "tree_same s1 s' lv'"
  proof (rule tree_sameI)
    fix t a assume t: "t \<in> dom lv'" "a \<in> page_addrs t"
    then have "page_ok t" "t \<notin> free_set s1" using table_page_ok [OF n'(2) N35] d by blast+
    then show "mem s' a = mem s1 a" using a'(5) t(2) by (simp add: keeps_def)
  qed
  have fr: "dom lv' \<inter> free_set s' = {}" using d a'(3) by blast
  note ok' = tree_same_ok [OF m n'(2) fr]
  have v: "view s' 4 x va = view s1 4 x va" for va by (rule tree_same_view [OF m n'(2) pt_okD(1) [OF n'(2)]])
  have ph: "translate s' (page_ptr x) (page_ptr j) = Inr (page_ptr j)" if "j \<in> {0..<N}" for j
    using translates_translate [OF _ ok'(1) N35 that, of "2 ^ 52 - 2 ^ 35" 0] n'(6) page_ptr_vaddr [of j]
    by (simp add: translates_def v)
  have "translate s' (page_ptr x) (vaddr (V + j)) = translate (heap M) (page_ptr q) (vaddr (V + j))"
    if r: "(V, n, k, f) \<in> set rs" and j: "j \<in> {0..<n}" for V n k f j
  proof -
    have t: "translates x s1 V n k" "translates q (heap M) V n k"
      using r n'(7) br by (auto simp: list_all_iff maps_region_def boot_regions_def)
    then have "translates x s' V n k" by (simp add: translates_def v)
    then show ?thesis using translates_translate [OF _ ok'(1) N35 j] translates_translate [OF t(2) old N35 j] by simp
  qed
  then show ?thesis
    unfolding booted_def Let_def M'(1) using M'(2,3) a'(1,3,4) ok'(1) ok'(2) [OF n'(3)] fr d n'(4,5) a'(2) ph
    by (intro exI [of _ x] exI [of _ lv'] exI [of _ y]) (auto simp: Un_assoc)
qed

text \<open>The lines of the log up to the end.\<close>

definition boot_lines :: "MMapEnt list \<Rightarrow> string" where
  "boot_lines es = concat (map (\<lambda>e. memory_line 114 (ent_text e)) es) @ memory_line 116 []
     @ memory_line 137 ''higher-half addressing INIT COMPLETE'' @ memory_line 175 ''global allocator INIT_COMPLETE''"

definition memory_rest :: "symbols \<Rightarrow> BOOTBOOT \<Rightarrow> u64 \<Rightarrow> BOOTBOOT \<Rightarrow> machine \<Rightarrow> (BOOTBOOT \<times> machine) result option" where
  "memory_rest ld bb end_page bb' M =
     bindP (build_page_table ld bb end_page M) (\<lambda>M.
     bindP (Some (Bump__new (heap M) 2)) (\<lambda>(b, h).
     bindP (Some (memory_log 224 ''memory INIT_COMPLETE'' [] (M\<lparr>heap := h, InitAlloc := b\<rparr>))) (\<lambda>M. Some (Inr (bb', M)))))"

lemma memory_front:
  assumes b: "boot_ok N ld bb M lv q rs"
  shows "\<exists>bb' M' es. memory__init ld bb M = memory_rest ld bb (U64 N) bb' M' \<and> shrinks (usable_entries (bb_mmap bb)) es
           \<and> heap_ok N (heap M') \<and> free_set (heap M') = pages_of es \<and> usable_set (heap M') = pages_of es
           \<and> pt_ok N (heap M') lv q \<and> rooted (heap M') lv q \<and> boot_regions q (heap M') rs \<and> cpu_state M' = cpu_state M
           \<and> log_ready (log_state M') \<and> serial (log_state M') = serial (log_state M) @ boot_lines (bb_mmap bb)
           \<and> total_size es = total_size (usable_entries (bb_mmap bb)) - init_bytes N"
proof -
  define mm where "mm = bb_mmap bb"
  have B: "0 < N" "N \<le> 2 ^ 27" "4096 dvd N" "mm \<noteq> []" "uint (bb_size bb) = 128 + 16 * int (length mm)"
      "MMapEnt_Ptr (last mm) + MMapEnt_Size (last mm) = U64 (4096 * N)" "list_all ent_shown mm" "boot_map N (usable_entries mm)"
      "has_room (init_bytes N) (usable_entries mm)" "bss_state (heap M)" "log_ready (log_state M)" "cr3 (cpu_state M) = U64 q * 4096"
      "pt_ok N (heap M) lv q" "rooted (heap M) lv q" "entry (heap M) q 256 = 0" "dom lv \<inter> pages_of (usable_entries mm) = {}"
      "boot_regions q (heap M) rs"
    using b unfolding boot_ok_def mm_def by simp_all
  have N35: "N \<le> 2 ^ 35" using B(2) by simp
  have n: "uint ((bb_size bb - 128) div 16) = int (length mm)" unfolding mm_def by (rule mmap_count) (use B(5) in \<open>simp add: mm_def\<close>)
  have la: "idxR mm (int (length mm) - 1) = Inr (last mm)" using B(4) by (simp add: idxR_def last_conv_nth nat_diff_distrib Suc_le_eq)
  have "(4096 * N + 4095) div 4096 = N" by simp
  then obtain r where r: "align_up (U64 (4096 * N)) 4096 = Inr r" "r div 4096 = U64 N"
    using align_up_pages [of "4096 * N"] B(1,2) by auto
  obtain M1 where 1: "log_entries mm M = Inr M1" "logged M M1 (concat (map (\<lambda>e. memory_line 114 (ent_text e)) mm))"
    using log_entries_ok [OF B(11,7)] by blast
  obtain M2 where 2: "memory_log_empty 116 M1 = Inr M2" "logged M1 M2 (memory_line 116 [])"
    using memory_log_empty_ok logged_fields [OF 1(2)] by blast
  note f2 = logged_fields [OF logged_trans [OF 1(2) 2(2)]]
  obtain h where h: "UNSAFE_HACKY_higher_half_init (cpu_state M) (heap M) = Inr (cpu_state M, h)" "pt_ok N h lv q" "rooted h lv q"
      "boot_regions q h rs" "bss_state h"
    using higher_half_boot [OF B(13-15) N35 B(17,12,10)] by blast
  define M3 where "M3 = M2\<lparr>heap := h, cpu_state := cpu_state M\<rparr>"
  obtain M4 where 4: "memory_log 137 ''higher-half addressing INIT COMPLETE'' [] M3 = Inr M4"
      "logged M3 M4 (memory_line 137 ''higher-half addressing INIT COMPLETE'')"
    using memory_log_plain [of M3 "''higher-half addressing INIT COMPLETE''" 137] f2 by (auto simp: M3_def NUL_def)
  note f4 = logged_fields [OF 4(2)]
  obtain es h' where h': "heap_init (usable_entries mm) (U64 (4096 * N)) (U64 N) h = Some (Inr (es, h'))" "heap_ok N h'"
      "free_set h' = pages_of es" "usable_set h' = pages_of es" "shrinks (usable_entries mm) es" "pt_ok N h' lv q" "rooted h' lv q" "boot_regions q h' rs"
      "total_size es = total_size (usable_entries mm) - init_bytes N"
    using heap_init_boot [OF B(1-3,8,9) h(5,2,3) B(16) h(4)] by blast
  obtain M6 where 6: "memory_log 175 ''global allocator INIT_COMPLETE'' [] (M4\<lparr>heap := h'\<rparr>) = Inr M6"
      "logged (M4\<lparr>heap := h'\<rparr>) M6 (memory_line 175 ''global allocator INIT_COMPLETE'')"
    using memory_log_plain [of "M4\<lparr>heap := h'\<rparr>" "''global allocator INIT_COMPLETE''" 175] f4 by (auto simp: NUL_def)
  note f6 = logged_fields [OF 6(2)]
  have f2': "heap M2 = heap M" "cpu_state M2 = cpu_state M" and f4': "heap M4 = h" using f2 f4 by (simp_all add: M3_def)
  have tk: "(if int (length mm) \<le> int (length mm) then Inr (take (nat (int (length mm))) mm) else Inl OutOfBounds) = (Inr mm :: MMapEnt list result)"
    by simp
  have "memory__init ld bb M = memory_rest ld bb (U64 N) (bb\<lparr>bb_mmap := es @ drop (length es) (sort_mmap mm)\<rparr>) M6"
    unfolding memory__init_def Let_def n mm_def [symmetric] bindP_simps tk la B(6) r 1(1) 2(1) cut_sort f2' h(1) prod.case M3_def [symmetric]
      4(1) f4' h'(1) 6(1) memory_rest_def by simp
  moreover have "serial (log_state M6) = serial (log_state M) @ boot_lines mm"
    using 1(2) 2(2) 4(2) 6(2) by (simp add: logged_def M3_def boot_lines_def)
  ultimately show ?thesis using h' f6 f4 by (intro exI [of _ "bb\<lparr>bb_mmap := es @ drop (length es) (sort_mmap mm)\<rparr>"] exI [of _ M6] exI [of _ es])
      (simp add: mm_def M3_def)
qed

section \<open>Enough memory\<close>

text \<open>
  Whether the memory suffices can be read off the map: after the bit sets are cut out, every entry loses at most two runs of four
  pages at its ends, and the rest must be more than the tables and \<open>k\<close> requests to come may take.
\<close>

definition enough_memory :: "int \<Rightarrow> MMapEnt list \<Rightarrow> copied list \<Rightarrow> nat \<Rightarrow> bool" where
  "enough_memory N es rs k \<longleftrightarrow>
     init_bytes N + 16384 * (int (boot_cost N rs + k) + 2 * int (length es)) < total_size es"

lemma total_size_quads:
  assumes "finite P"
  shows "sorted_wrt (\<lambda>e e'. whole_pages e \<inter> whole_pages e' = {}) es \<Longrightarrow> \<forall>e\<in>set es. 4096 dvd uint (ent_ptr e) + uint (ent_size e) \<Longrightarrow>
    pages_of es \<subseteq> P \<Longrightarrow> total_size es \<le> 16384 * (int (card (quads P \<inter> pages_of es)) + 2 * int (length es))"
proof (induction es)
  case (Cons e es)
  let ?a = "(uint (ent_ptr e) + 4095) div 4096"
  obtain b where b: "uint (ent_ptr e) + uint (ent_size e) = 4096 * b" using Cons.prems(2) by (auto elim: dvdE)
  have w: "whole_pages e = {?a..<b}" unfolding whole_pages_def b by auto
  have "4096 * ?a \<le> uint (ent_ptr e) + 4095" by simp
  then have sz: "uint (ent_size e) \<le> 4096 * (b - ?a) + 4095" using b by (simp only: right_diff_distrib)
  have P: "whole_pages e \<subseteq> P" "pages_of es \<subseteq> P" using Cons.prems(3) by (auto simp: pages_of_def)
  have d: "whole_pages e \<inter> pages_of es = {}" using Cons.prems(1) by (auto simp: pages_of_def)
  have fin: "finite (quads P)" using finite_subset [OF quads_subset assms] .
  have "quads P \<inter> pages_of (e # es) = (quads P \<inter> whole_pages e) \<union> (quads P \<inter> pages_of es)" by (auto simp: pages_of_def)
  then have "card (quads P \<inter> pages_of (e # es)) = card (quads P \<inter> whole_pages e) + card (quads P \<inter> pages_of es)"
    using fin d by (simp only: ) (subst card_Un_disjoint; auto)
  moreover have "b - ?a \<le> 4 * int (card (quads P \<inter> whole_pages e)) + 6" using quads_interval [OF P(1) [unfolded w] assms] by (simp add: w)
  moreover have "total_size es \<le> 16384 * (int (card (quads P \<inter> pages_of es)) + 2 * int (length es))" using Cons P(2) by simp
  moreover have "total_size (e # es) = uint (ent_size e) + total_size es" by (simp add: total_size_def)
  ultimately show ?case using sz by simp
qed (simp add: total_size_def)

lemma enough_quads:
  assumes e: "enough_memory N es rs k" and bm: "boot_map N es" and sh: "shrinks es es'" and t: "total_size es' = total_size es - init_bytes N"
    and s: "heap_ok N s" "free_set s = pages_of es'"
  shows "boot_cost N rs + k < card (free_quads s)"
proof -
  have bm': "boot_map N es'" by (rule boot_map_shrinks [OF bm sh])
  obtain fl where "heap_inv N s fl" using s(1) by (auto simp: heap_ok_def)
  then have "free_set s \<subseteq> {0..<N}" using heap_invD(5) bits_of_bounds [of "free_pages s"] by (fastforce simp: free_set_def)
  then have fin: "finite (pages_of es')" unfolding s(2) using finite_subset finite_atLeastLessThan_int by blast
  have "length es' = length es" using sh by (simp add: shrinks_def list_all2_lengthD)
  moreover have "quads (pages_of es') \<inter> pages_of es' = quads (pages_of es')" using quads_subset by blast
  then have "total_size es' \<le> 16384 * (int (card (quads (pages_of es'))) + 2 * int (length es'))"
    using total_size_quads [OF fin boot_map_pages [OF bm']] bm' by (simp add: boot_map_def)
  moreover have "init_bytes N + 16384 * (int (boot_cost N rs + k) + 2 * int (length es)) < total_size es"
    using e by (simp add: enough_memory_def)
  ultimately have "int (boot_cost N rs + k) < int (card (quads (pages_of es')))" unfolding t by simp
  then show "boot_cost N rs + k < card (free_quads s)" unfolding free_quads_eq s(2) by simp
qed

lemma Bump__new_quads:
  assumes "heap_ok N s" "0 < card (free_quads s)"
  obtains y s' where "Bump__new s 2 = Inr (\<lparr>bump_begin = page_ptr y, bump_count = 2 * 4096, bump_idx = 0\<rparr>, s')" "allocated N s 2 y s'" "spends 1 s s'"
proof -
  obtain y s' where "zeroed_pages s 2 = Inr (page_ptr y, s')" "page_ptr y \<noteq> 0" "allocated N s 2 y s'" "spends 1 s s'"
    using quad_zeroed [OF assms, of 2] by auto
  then show thesis using that by (simp add: Bump__new_def ext__alloc_pages_def s64_chk_def s64_ok_def)
qed

text \<open>The end of \<^verbatim>\<open>memory__init\<close>: the initial allocator and the last line of the log.\<close>

lemma memory_rest_end:
  assumes t: "build_page_table ld bb p M1 = Some (Inr M2)" and ok: "heap_ok N (heap M2)" "log_ready (log_state M2)"
  shows "memory_rest ld bb p bb' M1 = Some (Inl (Panic ''base'')) \<and> card (free_quads (heap M2)) = 0
    \<or> (\<exists>y s M'. memory_rest ld bb p bb' M1 = Some (Inr (bb', M')) \<and> allocated N (heap M2) 2 y s \<and> spends 1 (heap M2) s
        \<and> logged (M2\<lparr>heap := s, InitAlloc := \<lparr>bump_begin = page_ptr y, bump_count = 2 * 4096, bump_idx = 0\<rparr>\<rparr>) M'
            (memory_line 224 ''memory INIT_COMPLETE''))"
proof -
  consider y s where "Bump__new (heap M2) 2 = Inr (\<lparr>bump_begin = page_ptr y, bump_count = 2 * 4096, bump_idx = 0\<rparr>, s)" "allocated N (heap M2) 2 y s"
    | "Bump__new (heap M2) 2 = Inl (Panic ''base'')"
    using Bump__new_spec [OF ok(1), of 2] by auto
  then show ?thesis
  proof cases
    case (1 y s)
    define M3 where "M3 = M2\<lparr>heap := s, InitAlloc := \<lparr>bump_begin = page_ptr y, bump_count = 2 * 4096, bump_idx = 0\<rparr>\<rparr>"
    obtain M' where M': "memory_log 224 ''memory INIT_COMPLETE'' [] M3 = Inr M'" "logged M3 M' (memory_line 224 ''memory INIT_COMPLETE'')"
      using memory_log_plain [of M3 "''memory INIT_COMPLETE''" 224] ok(2) by (auto simp: M3_def NUL_def)
    have "memory_rest ld bb p bb' M1 = Some (Inr (bb', M'))"
      unfolding memory_rest_def t bindP_simps 1(1) prod.case M3_def [symmetric] M'(1) ..
    then show ?thesis using 1(2) M'(2) allocated_quads [OF ok(1) 1(2)] unfolding M3_def by blast
  next
    case 2
    then have "card (free_quads (heap M2)) = 0" using Bump__new_quads [OF ok(1)] by (metis Inl_Inr_False gr0I)
    then show ?thesis using 2 by (simp add: memory_rest_def t)
  qed
qed

lemma memory__init_spec:
  assumes b: "boot_ok N ld bb M lv q rs"
  shows "(\<exists>e\<in>{''new'', ''res'', ''base''}. memory__init ld bb M = Some (Inl (Panic e))) \<and> \<not> enough_memory N (usable_entries (bb_mmap bb)) rs 0
    \<or> (\<exists>bb' M' es. memory__init ld bb M = Some (Inr (bb', M')) \<and> shrinks (usable_entries (bb_mmap bb)) es \<and> booted N M lv q rs es M'
         \<and> log_ready (log_state M')
         \<and> serial (log_state M') = serial (log_state M) @ boot_lines (bb_mmap bb) @ memory_line 224 ''memory INIT_COMPLETE''
         \<and> (\<forall>k. enough_memory N (usable_entries (bb_mmap bb)) rs k \<longrightarrow> k \<le> card (free_quads (heap M'))))"
proof -
  obtain bb' M1 es where front: "memory__init ld bb M = memory_rest ld bb (U64 N) bb' M1" "shrinks (usable_entries (bb_mmap bb)) es"
      "heap_ok N (heap M1)" "free_set (heap M1) = pages_of es" "usable_set (heap M1) = pages_of es" "pt_ok N (heap M1) lv q" "rooted (heap M1) lv q"
      "boot_regions q (heap M1) rs" "cpu_state M1 = cpu_state M" "log_ready (log_state M1)"
      "serial (log_state M1) = serial (log_state M) @ boot_lines (bb_mmap bb)" "total_size es = total_size (usable_entries (bb_mmap bb)) - init_bytes N"
    using memory_front [OF b] by blast
  have B: "0 < N" "N \<le> 2 ^ 27" "cr3 (cpu_state M1) = U64 q * 4096" "pt_ok N (heap M) lv q" "boot_regions q (heap M) rs"
      "map call_of rs = kernel_regions ld @ [(fb_address ld, (uint (bb_fb_size bb) + 4095) div 4096, PTE_KERNEL)]" "4096 dvd N"
      "boot_map N (usable_entries (bb_mmap bb))"
    using b unfolding boot_ok_def front(9) by simp_all
  have N512: "512 dvd N" using B(7) dvd_trans [of 512 4096 N] by simp
  note quads = enough_quads [OF _ B(8) front(2,12,3,4)]
  have "uint (bb_fb_size bb) < 2 ^ 32" using uint_bounded [of "bb_fb_size bb"] by simp
  then have "0 \<le> uint (bb_fb_size bb)" "uint (bb_fb_size bb) < 2 ^ 50" by simp_all
  then obtain fb where fb: "align_up (U64 (uint (bb_fb_size bb))) 4096 = Inr fb" "S64 (fb div 4096) = (uint (bb_fb_size bb) + 4095) div 4096"
    by (rule align_up_pages)
  have uc: "(ucast (bb_fb_size bb) :: u64) = U64 (uint (bb_fb_size bb))" by simp
  consider e where "e \<in> {''new'', ''res''}" "build_page_table ld bb (U64 N) M1 = Some (Inl (Panic e))"
        "card (free_quads (heap M1)) \<le> boot_cost N rs"
    | x s' lv' where "build_page_table ld bb (U64 N) M1 = Some (Inr (M1\<lparr>heap := s', cpu_state := (cpu_state M1)\<lparr>cr3 := U64 x * 4096\<rparr>\<rparr>))"
        "new_tables N (heap M1) lv rs x s' lv'" "spends (boot_cost N rs) (heap M1) s'"
    using build_page_table_spec [OF B(1,2) N512 front(3,6-8) B(3) fb(1) [folded uc] B(6) [folded fb(2)]] by blast
  then show ?thesis
  proof cases
    case (1 e)
    have "\<not> enough_memory N (usable_entries (bb_mmap bb)) rs 0" using quads [of rs 0] 1(3) by auto
    then show ?thesis using front(1) 1(1,2) by (auto simp: memory_rest_def)
  next
    case (2 x s' lv')
    define M2 where "M2 = M1\<lparr>heap := s', cpu_state := (cpu_state M1)\<lparr>cr3 := U64 x * 4096\<rparr>\<rparr>"
    have t: "build_page_table ld bb (U64 N) M1 = Some (Inr M2)" using 2(1) by (simp add: M2_def)
    have s': "heap_ok N (heap M2)" "heap M2 = s'" "log_ready (log_state M2)" using 2(2) front(10) by (simp_all add: new_tables_def M2_def)
    have left: "k < card (free_quads s')" if "enough_memory N (usable_entries (bb_mmap bb)) rs k" for k
      using quads [OF that] 2(3) by (simp add: spends_def)
    from memory_rest_end [OF t s'(1,3), of bb'] show ?thesis
    proof (elim disjE exE conjE)
      assume a: "memory_rest ld bb (U64 N) bb' M1 = Some (Inl (Panic ''base''))" "card (free_quads (heap M2)) = 0"
      then have "\<not> enough_memory N (usable_entries (bb_mmap bb)) rs 0" using left [of 0] s'(2) by auto
      then show ?thesis using a(1) front(1) by simp
    next
      fix y s M' assume a: "memory_rest ld bb (U64 N) bb' M1 = Some (Inr (bb', M'))" "allocated N (heap M2) 2 y s" "spends 1 (heap M2) s"
        "logged (M2\<lparr>heap := s, InitAlloc := \<lparr>bump_begin = page_ptr y, bump_count = 2 * 4096, bump_idx = 0\<rparr>\<rparr>) M' (memory_line 224 ''memory INIT_COMPLETE'')"
      note M' = logged_fields [OF a(4)]
      have "booted N M lv q rs es M'"
        by (rule booted_after_bump [OF 2(2) front(4,5) a(2) [unfolded s'(2)] _ _ _ B(4,5)]) (use M' in \<open>simp_all add: M2_def\<close>)
      moreover have "serial (log_state M') = serial (log_state M) @ boot_lines (bb_mmap bb) @ memory_line 224 ''memory INIT_COMPLETE''"
        using a(4) front(11) by (simp add: logged_def M2_def)
      moreover have "k \<le> card (free_quads (heap M'))" if "enough_memory N (usable_entries (bb_mmap bb)) rs k" for k
        using a(3) left [OF that] M' s'(2) by (simp add: spends_def)
      ultimately show ?thesis using a(1,4) front(1,2) by (auto simp: logged_def)
    qed
  qed
qed

section \<open>Properties\<close>

text \<open>C2. Initialising the memory subsystem: on a machine as the boot loader leaves it, with memory that ends at a multiple of
  16 MB and of at most 512 GB, \<^verbatim>\<open>memory__init\<close> returns. Either an
  assertion fails, and then the map shows that memory is short: the free entries do not hold the bit sets, the groups of four
  pages that may be broken up for page tables (one for the root, \<open>region_cost\<close> for physical memory and for each region, of any
  size) and the rounding at their ends. Or the kernel ends with a consistent allocator, with \<^verbatim>\<open>cr3\<close> at a new well-formed tree
  of tables that maps all physical memory into kernel space and the kernel's regions to the pages they had before, and
  with the boot loader's tables given to the allocator; every usable page is then free, a table, or one of the two pages
  of the initial bump allocator. Every entry of the map and every step are on the serial log.\<close>

theorem memory__init_correct:
  assumes "boot_ok N ld bb M lv q rs"
  shows "(\<exists>e\<in>{''new'', ''res'', ''base''}. memory__init ld bb M = Some (Inl (Panic e))) \<and> \<not> enough_memory N (usable_entries (bb_mmap bb)) rs 0
    \<or> (\<exists>bb' M' es. memory__init ld bb M = Some (Inr (bb', M')) \<and> shrinks (usable_entries (bb_mmap bb)) es \<and> booted N M lv q rs es M'
         \<and> log_ready (log_state M')
         \<and> serial (log_state M') = serial (log_state M) @ boot_lines (bb_mmap bb) @ memory_line 224 ''memory INIT_COMPLETE'')"
  using memory__init_spec [OF assms] by blast

definition sample_bb :: BOOTBOOT where
  "sample_bb = \<lparr>bb_magic = [66, 79, 79, 84], bb_size = 176, bb_protocol = 1, bb_fb_type = 0, bb_numcores = 1, bb_bspid = 0,
     bb_timezone = 0, bb_datetime = replicate 8 0, bb_initrd_ptr = 0, bb_initrd_size = 0, bb_fb_ptr = 0, bb_fb_size = 4000,
     bb_fb_width = 10, bb_fb_height = 100, bb_fb_scanline = 40, bb_arch = replicate 8 0, bb_mmap =
     [\<lparr>ent_ptr = 0x1000, ent_size = 0x9E001\<rparr>, \<lparr>ent_ptr = 0x9F000, ent_size = 0x61000\<rparr>, \<lparr>ent_ptr = 0x100000, ent_size = 0xF00001\<rparr>]\<rparr>"

definition sample_symbols :: symbols where
  "sample_symbols = \<lparr>code_begin = 0xffffffffffe02000, code_end = 0xffffffffffe03000, bss_end = 0xffffffffffe04000,
     bb_address = 0xffffffffffe00000, environment_address = 0xffffffffffe01000, fb_address = 0xffffffffffe04000\<rparr>"

definition boot_machine :: machine where
  "boot_machine = (sample_machine (with_boot_tables 160 bss_sample))\<lparr>cpu_state := sample_cpu\<lparr>cr3 := 160 * 4096\<rparr>\<rparr>"

definition sample_regions :: "copied list" where
  "sample_regions = map (\<lambda>(i, f). (2 ^ 52 - 512 + i, 1, 160 + 4 + i, f))
     [(2, PTE_KERNEL_EXE), (3, PTE_KERNEL), (0, PTE_KERNEL), (1, PTE_KERNEL), (511, PTE_KERNEL), (4, PTE_KERNEL)]"

lemma sample_usable: "usable_entries (bb_mmap sample_bb) = sample_map"
  by (simp add: usable_entries_def sample_bb_def sample_map_def MMapEnt_IsFree_def MMapEnt_Size_def)

lemma sample_calls: "map call_of sample_regions = kernel_regions sample_symbols
    @ [(fb_address sample_symbols, (uint (bb_fb_size sample_bb) + 4095) div 4096, PTE_KERNEL)]"
  by (simp add: sample_regions_def call_of_def kernel_regions_def sample_symbols_def sample_bb_def vaddr_def signed_divide_int_def)

lemma sample_boot_regions: "boot_regions 160 (heap boot_machine) sample_regions"
proof -
  have t: "boot_tree 160 (heap boot_machine)" unfolding boot_machine_def sample_machine_def
    by (simp, rule boot_tree_with) (simp_all add: page_ok_def)
  have one: "{0..<1} = {0 :: int}" by auto
  have tr: "translates 160 (heap boot_machine) (2 ^ 52 - 512 + i) 1 (160 + 4 + i)" if "0 \<le> i" "i < 5 \<or> i = 511" for i
    using boot_view [OF t, of i] that unfolding translates_def one by simp
  have "list_all (maps_region 160 (heap boot_machine)) sample_regions"
    unfolding sample_regions_def using tr [of 0] tr [of 1] tr [of 2] tr [of 3] tr [of 4] tr [of 511] by (simp add: maps_region_def)
  then show ?thesis using kernel_flags_ok by (simp add: boot_regions_def sample_regions_def copied_ok_def apart_def)
qed

lemma sample_bytes: "init_bytes 4096 = 1568"
  by (simp add: init_bytes_def CLASS_COUNT_def buddy_bytes_def buddy_bits_def pad8_def lessThan_nat_numeral lessThan_Suc)

lemma sample_boot_ok: "boot_ok 4096 sample_symbols sample_bb boot_machine (boot_levels 160) 160 sample_regions"
proof -
  let ?s = "with_boot_tables 160 bss_sample"
  have h: "heap boot_machine = ?s" "log_state boot_machine = sample_log" "cr3 (cpu_state boot_machine) = U64 160 * 4096"
    by (simp_all add: boot_machine_def sample_machine_def)
  have "free_set bss_sample = {}" by (simp add: free_set_def bits_of_def bss_sample_def)
  then have fs: "free_set ?s = {}" by simp
  have t: "boot_tree 160 ?s" by (rule boot_tree_with) (simp_all add: page_ok_def)
  have "{160..160 + 3} \<inter> free_set ?s = {}" unfolding fs by simp
  then have pt: "pt_ok 4096 ?s (boot_levels 160) 160" "rooted ?s (boot_levels 160) 160" using boot_pt_ok [OF t, of 4096] by simp_all
  have z: "entry ?s 160 256 = 0" using t by (simp add: boot_tree_def boot_entry_def)
  have "uint (ent_ptr e) + uint (ent_size e) \<le> 4096 * 159 \<or> 4096 * 256 \<le> uint (ent_ptr e)" if "e \<in> set sample_map" for e
    using that by (auto simp: sample_map_def)
  then have pg: "dom (boot_levels 160) \<inter> pages_of sample_map = {}" unfolding boot_levels_dom pages_of_def whole_pages_def by fastforce
  have bm: "boot_map 4096 sample_map" by (auto simp: boot_map_def sample_map_def region_def)
  have room: "has_room (init_bytes 4096) sample_map" unfolding sample_bytes by (simp add: has_room_def sample_map_def)
  have bss: "bss_state ?s" by (simp add: bss_state_def bss_sample_def)
  have mm: "bb_mmap sample_bb \<noteq> []" "uint (bb_size sample_bb) = 128 + 16 * int (length (bb_mmap sample_bb))"
      "MMapEnt_Ptr (last (bb_mmap sample_bb)) + MMapEnt_Size (last (bb_mmap sample_bb)) = U64 (4096 * 4096)" "list_all ent_shown (bb_mmap sample_bb)"
    by (simp_all add: sample_bb_def MMapEnt_Ptr_def MMapEnt_Size_def MMapEnt_Type_def ent_shown_def)
  show ?thesis
    unfolding boot_ok_def sample_usable h using mm pt z pg bm room bss sample_log_ready sample_calls sample_boot_regions h(1) by simp
qed

lemma sample_enough: "k \<le> 100 \<Longrightarrow> enough_memory 4096 (usable_entries (bb_mmap sample_bb)) sample_regions k"
  unfolding enough_memory_def sample_usable sample_bytes
  by (simp add: sample_regions_def boot_cost_def physical_cost_def regions_cost_def copied_cost_def region_cost_def region_left_def
      total_size_def sample_map_def)

theorem memory__init_correct_witness:
  "\<exists>bb' M' es. memory__init sample_symbols sample_bb boot_machine = Some (Inr (bb', M')) \<and> shrinks sample_map es
     \<and> booted 4096 boot_machine (boot_levels 160) 160 sample_regions es M'"
  using memory__init_correct [OF sample_boot_ok] sample_enough [of 0] unfolding sample_usable by blast

end
