(* ===== verification/Task_Queue.thy ===== *)
theory Task_Queue
  imports Prelude Sync "HOL-Library.Multiset"
begin

text \<open>
  The task queue of one worker, from \<^verbatim>\<open>src/kern/multitasking.c\<close>: a ring of task slots, each with
  its own state, and two indices that only grow. Here one core uses the queue at a time;
  \<open>tries\<close> lists the spurious failures of the weak exchanges of both indices. The inner \<^verbatim>\<open>while\<close>
  loops are \<open>deq_advance\<close> and \<open>enq_advance\<close>. After a successful exchange C leaves the expected value
  as it is, so the loops look at the same slot again before they go on; the model does the same.
\<close>

definition Task__Empty :: u8 where "Task__Empty = 0"
definition Task__Writing :: u8 where "Task__Writing = 1"
definition Task__Queued :: u8 where "Task__Queued = 2"
definition Task__Reading :: u8 where "Task__Reading = 3"

record TaskData =
  td_code :: u64
  td_data :: u64
  td_size :: s64

record Task =
  sync_info :: u8
  task_id :: s64
  task_data :: TaskData

record WorkerState =
  w_tasks :: "Task list"
  task_count :: s64
  w_core_id :: u16
  running_task :: Task
  read_from :: s64
  write_to :: s64

definition no_data :: TaskData where
  "no_data = \<lparr>td_code = 0, td_data = 0, td_size = 0\<rparr>"

definition empty_task :: Task where
  "empty_task = \<lparr>sync_info = Task__Empty, task_id = 0, task_data = no_data\<rparr>"

definition a_cxstrong :: "'a \<Rightarrow> 'a \<Rightarrow> 'a \<Rightarrow> bool \<times> 'a" where
  "a_cxstrong obj expected desired = (if obj = expected then (True, desired) else (False, obj))"

definition next_try :: "bool list \<Rightarrow> bool" where
  "next_try tries = (case tries of [] \<Rightarrow> False | spurious # _ \<Rightarrow> spurious)"

function deq_loop :: "bool list \<Rightarrow> WorkerState \<Rightarrow> s64 \<Rightarrow> s64 \<Rightarrow> (Task \<times> WorkerState) result"
  and deq_advance :: "bool list \<Rightarrow> WorkerState \<Rightarrow> s64 \<Rightarrow> s64 \<Rightarrow> (Task \<times> WorkerState) result" where
  "deq_loop tries w rd wr =
     (let i = rd mod task_count w in
      bindR (idxR (w_tasks w) i) (\<lambda>target.
      let (ok, sync) = a_cxstrong (sync_info target) Task__Queued Task__Reading in
      if ok then
        let task = target\<lparr>sync_info := sync\<rparr>;
            w = w\<lparr>w_tasks := (w_tasks w)[nat i := target\<lparr>sync_info := Task__Empty\<rparr>]\<rparr> in
        Inr (task, w)
      else deq_advance tries w rd wr))"
| "deq_advance tries w rd wr =
     (if rd < wr then
        let (ok, shared, rd') = a_cxweak (next_try tries) (read_from w) rd (rd + 1);
            w = w\<lparr>read_from := shared\<rparr> in
        if ok then deq_loop (tl tries) w rd' wr else deq_advance (tl tries) w rd' wr
      else Inr (empty_task, w))"
  by pat_completeness auto
termination
proof (relation "measures [case_sum (\<lambda>(tries, w, rd, wr). length tries) (\<lambda>(tries, w, rd, wr). length tries),
    case_sum (\<lambda>(tries, w, rd, wr). nat (wr - read_from w)) (\<lambda>(tries, w, rd, wr). nat (wr - read_from w)),
    case_sum (\<lambda>(tries, w, rd, wr). if rd = read_from w then 0 else 1) (\<lambda>(tries, w, rd, wr). if rd = read_from w then 0 else 1),
    case_sum (\<lambda>_. 1) (\<lambda>_. 0)]", goal_cases)
  case (3 tries w rd wr x xa y xb ya xc)
  then show ?case by (cases tries) (auto simp: a_cxweak_def next_try_def split: if_splits)
next
  case (4 tries w rd wr x xa y xb ya xc)
  then show ?case by (cases tries) (auto simp: a_cxweak_def next_try_def split: if_splits)
qed auto

declare deq_loop.simps [simp del] deq_advance.simps [simp del]

definition dequeue_task :: "bool list \<Rightarrow> WorkerState \<Rightarrow> (Task \<times> WorkerState) result" where
  "dequeue_task tries worker = deq_loop tries worker (read_from worker) (write_to worker)"

text \<open>\<open>nid\<close> is \<^verbatim>\<open>TaskGlobals.next_id\<close>, returned updated.\<close>

function enq_loop :: "bool list \<Rightarrow> WorkerState \<Rightarrow> s64 \<Rightarrow> TaskData \<Rightarrow> s64 \<Rightarrow> s64 \<Rightarrow> (bool \<times> WorkerState \<times> s64) result"
  and enq_advance :: "bool list \<Rightarrow> WorkerState \<Rightarrow> s64 \<Rightarrow> TaskData \<Rightarrow> s64 \<Rightarrow> s64 \<Rightarrow> (bool \<times> WorkerState \<times> s64) result" where
  "enq_loop tries w nid data wr ub =
     (let i = wr mod task_count w in
      bindR (idxR (w_tasks w) i) (\<lambda>target.
      let (ok, sync) = a_cxstrong (sync_info target) Task__Empty Task__Writing in
      if ok then
        let target = target\<lparr>sync_info := sync\<rparr>;
            target = target\<lparr>task_id := nid, task_data := data\<rparr>;
            target = target\<lparr>sync_info := Task__Queued\<rparr> in
        Inr (True, w\<lparr>w_tasks := (w_tasks w)[nat i := target]\<rparr>, nid + 1)
      else enq_advance tries w nid data wr ub))"
| "enq_advance tries w nid data wr ub =
     (if wr < ub then
        let (ok, shared, wr') = a_cxweak (next_try tries) (write_to w) wr (wr + 1);
            w = w\<lparr>write_to := shared\<rparr> in
        if ok then enq_loop (tl tries) w nid data wr' ub else enq_advance (tl tries) w nid data wr' ub
      else Inr (False, w, nid))"
  by pat_completeness auto
termination
proof (relation "measures [case_sum (\<lambda>(tries, w, nid, data, wr, ub). length tries) (\<lambda>(tries, w, nid, data, wr, ub). length tries),
    case_sum (\<lambda>(tries, w, nid, data, wr, ub). nat (ub - write_to w)) (\<lambda>(tries, w, nid, data, wr, ub). nat (ub - write_to w)),
    case_sum (\<lambda>(tries, w, nid, data, wr, ub). if wr = write_to w then 0 else 1) (\<lambda>(tries, w, nid, data, wr, ub). if wr = write_to w then 0 else 1),
    case_sum (\<lambda>_. 1) (\<lambda>_. 0)]", goal_cases)
  case (3 tries w nid data wr ub x xa y xb ya xc)
  then show ?case by (cases tries) (auto simp: a_cxweak_def next_try_def split: if_splits)
next
  case (4 tries w nid data wr ub x xa y xb ya xc)
  then show ?case by (cases tries) (auto simp: a_cxweak_def next_try_def split: if_splits)
qed auto

declare enq_loop.simps [simp del] enq_advance.simps [simp del]

definition enqueue_task :: "bool list \<Rightarrow> WorkerState \<Rightarrow> s64 \<Rightarrow> TaskData \<Rightarrow> (bool \<times> WorkerState \<times> s64) result" where
  "enqueue_task tries worker nid data =
     enq_loop tries worker nid data (write_to worker) (read_from worker + task_count worker)"

section \<open>The loops, one slot at a time\<close>

definition slot :: "WorkerState \<Rightarrow> int \<Rightarrow> Task" where
  "slot w i = w_tasks w ! nat (i mod task_count w)"

definition ring :: "WorkerState \<Rightarrow> bool" where
  "ring w \<longleftrightarrow> 0 < task_count w \<and> task_count w = int (length (w_tasks w))"

lemma ring_index: "ring w \<Longrightarrow> nat (i mod task_count w) < length (w_tasks w)"
  by (auto simp: ring_def nat_less_iff)

lemma ring_idxR [simp]: "ring w \<Longrightarrow> idxR (w_tasks w) (i mod task_count w) = Inr (slot w i)"
  by (auto simp: ring_def slot_def)

definition put_slot :: "WorkerState \<Rightarrow> int \<Rightarrow> Task \<Rightarrow> WorkerState" where
  "put_slot w i t = w\<lparr>w_tasks := (w_tasks w)[nat (i mod task_count w) := t]\<rparr>"

lemma deq_found:
  "ring w \<Longrightarrow> sync_info (slot w rd) = Task__Queued \<Longrightarrow>
   deq_loop tries w rd wr = Inr ((slot w rd)\<lparr>sync_info := Task__Reading\<rparr>, put_slot w rd ((slot w rd)\<lparr>sync_info := Task__Empty\<rparr>))"
  by (subst deq_loop.simps) (simp add: a_cxstrong_def put_slot_def)

lemma deq_missed:
  "ring w \<Longrightarrow> sync_info (slot w rd) \<noteq> Task__Queued \<Longrightarrow> deq_loop tries w rd wr = deq_advance tries w rd wr"
  by (subst deq_loop.simps) (simp add: a_cxstrong_def)

lemma deq_advance_fresh:
  "read_from w = rd \<Longrightarrow> rd < wr \<Longrightarrow> \<exists>tries'. deq_advance tries w rd wr = deq_loop tries' (w\<lparr>read_from := rd + 1\<rparr>) rd wr"
proof (induction tries)
  case Nil
  then show ?case by (subst deq_advance.simps) (auto simp: a_cxweak_def next_try_def)
next
  case (Cons spurious tries)
  then show ?case
    by (cases spurious; subst deq_advance.simps) (auto simp: a_cxweak_def next_try_def)
qed

lemma deq_advance_stale:
  assumes "read_from w = rd + 1" "rd + 1 < wr"
  shows "\<exists>tries'. deq_advance tries w rd wr = deq_loop tries' (w\<lparr>read_from := rd + 2\<rparr>) (rd + 1) wr"
proof -
  have "deq_advance tries w rd wr = deq_advance (tl tries) w (rd + 1) wr"
    using assms by (cases w, subst deq_advance.simps) (simp add: a_cxweak_def)
  then show ?thesis using deq_advance_fresh [OF assms, of "tl tries"] by (simp add: add.assoc)
qed

lemma enq_found:
  "ring w \<Longrightarrow> sync_info (slot w wr) = Task__Empty \<Longrightarrow>
   enq_loop tries w nid data wr ub = Inr (True, put_slot w wr \<lparr>sync_info = Task__Queued, task_id = nid, task_data = data\<rparr>, nid + 1)"
  by (subst enq_loop.simps) (cases "slot w wr", simp add: a_cxstrong_def put_slot_def)

lemma enq_missed:
  "ring w \<Longrightarrow> sync_info (slot w wr) \<noteq> Task__Empty \<Longrightarrow> enq_loop tries w nid data wr ub = enq_advance tries w nid data wr ub"
  by (subst enq_loop.simps) (simp add: a_cxstrong_def)

lemma enq_advance_fresh:
  "write_to w = wr \<Longrightarrow> wr < ub \<Longrightarrow>
   \<exists>tries'. enq_advance tries w nid data wr ub = enq_loop tries' (w\<lparr>write_to := wr + 1\<rparr>) nid data wr ub"
proof (induction tries)
  case Nil
  then show ?case by (subst enq_advance.simps) (auto simp: a_cxweak_def next_try_def)
next
  case (Cons spurious tries)
  then show ?case
    by (cases spurious; subst enq_advance.simps) (auto simp: a_cxweak_def next_try_def)
qed

lemma enq_advance_stale:
  assumes "write_to w = wr + 1" "wr + 1 < ub"
  shows "\<exists>tries'. enq_advance tries w nid data wr ub = enq_loop tries' (w\<lparr>write_to := wr + 2\<rparr>) nid data (wr + 1) ub"
proof -
  have "enq_advance tries w nid data wr ub = enq_advance (tl tries) w nid data (wr + 1) ub"
    using assms by (cases w, subst enq_advance.simps) (simp add: a_cxweak_def)
  then show ?thesis using enq_advance_fresh [OF assms, of "tl tries"] by (simp add: add.assoc)
qed

lemma sum_mset_update:
  "i < length ws \<Longrightarrow> sum_list (map f (ws[i := w])) + f (ws ! i) = sum_list (map f ws) + f w"
  for f :: "'a \<Rightarrow> 'b multiset"
proof (induction ws arbitrary: i)
  case (Cons x ws)
  show ?case
  proof (cases i)
    case (Suc j)
    then have "sum_list (map f (ws[j := w])) + f (ws ! j) = sum_list (map f ws) + f w" using Cons by simp
    then show ?thesis using Suc by (simp add: add.assoc)
  qed (simp add: ac_simps)
qed simp

section \<open>The queue as a list\<close>

text \<open>
  Between calls both indices are even, every slot strictly between them is queued and every slot
  after \<^verbatim>\<open>write_to\<close> is empty; the slots at the indices themselves may be either. The list of queued
  tasks starts at \<^verbatim>\<open>read_from\<close>. When the indices are a full ring apart they point to the same slot.
\<close>

definition queued :: "WorkerState \<Rightarrow> int \<Rightarrow> bool" where
  "queued w i \<longleftrightarrow> sync_info (slot w i) = Task__Queued"

definition vacant :: "WorkerState \<Rightarrow> int \<Rightarrow> bool" where
  "vacant w i \<longleftrightarrow> sync_info (slot w i) = Task__Empty"

definition queue_inv :: "WorkerState \<Rightarrow> bool" where
  "queue_inv w \<longleftrightarrow> ring w \<and> even (task_count w) \<and> even (read_from w) \<and> even (write_to w) \<and> 0 \<le> read_from w
     \<and> read_from w \<le> write_to w \<and> write_to w \<le> read_from w + task_count w
     \<and> (\<forall>i. read_from w < i \<longrightarrow> i < write_to w \<longrightarrow> queued w i)
     \<and> (\<forall>i. write_to w < i \<longrightarrow> i < read_from w + task_count w \<longrightarrow> vacant w i)
     \<and> (\<forall>i. queued w i \<or> vacant w i)"

definition entry_of :: "Task \<Rightarrow> s64 \<times> TaskData" where
  "entry_of t = (task_id t, task_data t)"

definition wrapped :: "WorkerState \<Rightarrow> bool" where
  "wrapped w \<longleftrightarrow> write_to w = read_from w + task_count w"

definition entries_at :: "WorkerState \<Rightarrow> int \<Rightarrow> (s64 \<times> TaskData) list" where
  "entries_at w i = (if queued w i then [entry_of (slot w i)] else [])"

definition queue_list :: "WorkerState \<Rightarrow> (s64 \<times> TaskData) list" where
  "queue_list w = entries_at w (read_from w) @ map (\<lambda>i. entry_of (slot w i)) [read_from w + 1..write_to w - 1]
     @ (if read_from w < write_to w \<and> \<not> wrapped w then entries_at w (write_to w) else [])"

lemma queued_not_vacant: "queued w i \<Longrightarrow> \<not> vacant w i"
  by (simp add: queued_def vacant_def Task__Queued_def Task__Empty_def)

lemma slot_put:
  assumes "ring w"
  shows "slot (put_slot w i t) j = (if i mod task_count w = j mod task_count w then t else slot w j)"
proof -
  have "0 \<le> i mod task_count w" "0 \<le> j mod task_count w" using assms by (auto simp: ring_def)
  then show ?thesis using ring_index [OF assms] by (auto simp: slot_def put_slot_def nth_list_update nat_eq_iff)
qed

lemma mod_eq_near: "0 \<le> j - i \<Longrightarrow> j - i < n \<Longrightarrow> i mod n = j mod n \<longleftrightarrow> i = j" for i j n :: int
  by (metis add.commute diff_add_cancel mod_add_cong mod_diff_left_eq mod_pos_pos_trivial diff_self mod_self mod_0 mod_eq_dvd_iff dvd_imp_le_int zdvd_not_zless linorder_neqE_linordered_idom not_less)

lemma slot_period: "slot w (i + task_count w) = slot w i"
  by (simp add: slot_def)

lemma ring_put [simp]: "ring (put_slot w i t) = ring w" "task_count (put_slot w i t) = task_count w"
  "read_from (put_slot w i t) = read_from w" "write_to (put_slot w i t) = write_to w"
  by (simp_all add: ring_def put_slot_def)

lemma slot_index [simp]: "slot (w\<lparr>read_from := r\<rparr>) i = slot w i" "slot (w\<lparr>write_to := r\<rparr>) i = slot w i"
  "ring (w\<lparr>read_from := r\<rparr>) = ring w" "ring (w\<lparr>write_to := r\<rparr>) = ring w"
  by (simp_all add: slot_def ring_def)

lemma slot_put_near:
  assumes "ring w" "k \<le> i" "i < k + task_count w"
  shows "slot (put_slot w k t) i = (if i = k then t else slot w i)"
  using assms slot_put [OF assms(1), of k t i] mod_eq_near [of i k "task_count w"] by auto

lemma slot_put_before:
  assumes "ring w" "i < k" "k < i + task_count w"
  shows "slot (put_slot w k t) i = slot w i"
  using assms slot_put [OF assms(1), of k t i] mod_eq_near [of k i "task_count w"] by auto

lemma state_put:
  assumes "ring w" "queued w j \<or> vacant w j" "sync_info t = Task__Queued \<or> sync_info t = Task__Empty"
  shows "queued (put_slot w k t) j \<or> vacant (put_slot w k t) j"
  using assms slot_put [OF assms(1), of k t j] by (auto simp: queued_def vacant_def)

lemma queue_invD:
  assumes "queue_inv w"
  shows "ring w" "even (task_count w)" "even (read_from w)" "even (write_to w)" "0 \<le> read_from w"
    "read_from w \<le> write_to w" "write_to w \<le> read_from w + task_count w" "2 \<le> task_count w"
    "\<And>i. read_from w < i \<Longrightarrow> i < write_to w \<Longrightarrow> queued w i"
    "\<And>i. write_to w < i \<Longrightarrow> i < read_from w + task_count w \<Longrightarrow> vacant w i"
    "\<And>i. queued w i \<or> vacant w i"
proof -
  have "0 < task_count w" "even (task_count w)" using assms by (auto simp: queue_inv_def ring_def)
  then show "2 \<le> task_count w" by presburger
qed (use assms in \<open>auto simp: queue_inv_def\<close>)

abbreviation vacated :: "Task \<Rightarrow> Task" where
  "vacated t \<equiv> t\<lparr>sync_info := Task__Empty\<rparr>"

lemma take_first:
  assumes inv: "queue_inv w" and q: "queued w (read_from w)"
  defines "w' \<equiv> put_slot w (read_from w) (vacated (slot w (read_from w)))"
  shows "queue_inv w'" "queue_list w = entry_of (slot w (read_from w)) # queue_list w'"
proof -
  note I = queue_invD [OF inv]
  let ?R = "read_from w" and ?W = "write_to w" and ?n = "task_count w"
  have s: "slot w' i = (if i = ?R then vacated (slot w ?R) else slot w i)" if "?R \<le> i" "i < ?R + ?n" for i
    unfolding w'_def using slot_put_near [OF I(1) that] .
  have f: "ring w'" "task_count w' = ?n" "read_from w' = ?R" "write_to w' = ?W" using I(1) by (simp_all add: w'_def)
  have any: "queued w' i \<or> vacant w' i" for i unfolding w'_def using I(11) by (intro state_put [OF I(1)]) auto
  show "queue_inv w'"
    unfolding queue_inv_def f using I any f(1)
    by (auto simp: queued_def vacant_def s)
  have "entries_at w' ?R = []" using s [of ?R] I(8)
    by (simp add: entries_at_def queued_def Task__Empty_def Task__Queued_def)
  moreover have "map (\<lambda>i. entry_of (slot w' i)) [?R + 1..?W - 1] = map (\<lambda>i. entry_of (slot w i)) [?R + 1..?W - 1]"
    using I(7) by (auto simp: s)
  moreover have "entries_at w' ?W = entries_at w ?W" if "?R < ?W" "\<not> wrapped w"
    using s [of ?W] that I(7) by (simp add: entries_at_def queued_def wrapped_def)
  ultimately show "queue_list w = entry_of (slot w ?R) # queue_list w'"
    using q by (auto simp: queue_list_def f entries_at_def wrapped_def)
qed

lemma take_second:
  assumes inv: "queue_inv w" and v: "vacant w (read_from w)" and ne: "read_from w < write_to w"
  defines "w' \<equiv> put_slot (w\<lparr>read_from := read_from w + 2\<rparr>) (read_from w + 1) (vacated (slot w (read_from w + 1)))"
  shows "queued w (read_from w + 1)" "queue_inv w'" "queue_list w = entry_of (slot w (read_from w + 1)) # queue_list w'"
proof -
  note I = queue_invD [OF inv]
  let ?R = "read_from w" and ?W = "write_to w" and ?n = "task_count w"
  have lt: "?R + 2 \<le> ?W" using ne I(3,4) by presburger
  then show q: "queued w (?R + 1)" using I(9) by simp
  have r: "ring (w\<lparr>read_from := ?R + 2\<rparr>)" using I(1) by simp
  have s: "slot w' i = (if i = ?R + 1 then vacated (slot w (?R + 1)) else slot w i)" if "?R + 1 \<le> i" "i < ?R + 1 + ?n" for i
    unfolding w'_def using slot_put_near [OF r] that by simp
  have top: "slot w' (?R + 1 + ?n) = vacated (slot w (?R + 1))"
    using slot_period [of w' "?R + 1"] s [of "?R + 1"] I(8) by (simp add: w'_def)
  have "slot w' (?R + ?n) = slot w ?R" using s [of "?R + ?n"] slot_period [of w ?R] I(8) by simp
  then have vR: "vacant w' (?R + ?n)" using v by (simp add: vacant_def)
  have f: "ring w'" "task_count w' = ?n" "read_from w' = ?R + 2" "write_to w' = ?W" using I(1) by (simp_all add: w'_def)
  have any: "queued w' i \<or> vacant w' i" for i
    unfolding w'_def using I(11) [of i] by (intro state_put [OF r]) (auto simp: queued_def vacant_def)
  have vac: "vacant w' i" if i: "?W < i" "i < ?R + 2 + ?n" for i
  proof -
    consider "i < ?R + ?n" | "i = ?R + ?n" | "i = ?R + 1 + ?n" using i by linarith
    then show ?thesis using i lt vR top s [of i] I(10) [of i] by cases (auto simp: vacant_def)
  qed
  have que: "queued w' i" if "?R + 1 < i" "i < ?W" for i
    using that I(7,9) s [of i] by (auto simp: queued_def)
  show "queue_inv w'"
    unfolding queue_inv_def f using I lt any vac que f(1) by auto
  have m: "map (\<lambda>i. entry_of (slot w' i)) [?R + 3..?W - 1] = map (\<lambda>i. entry_of (slot w i)) [?R + 3..?W - 1]"
    using I(7) by (auto simp: s)
  have eW: "entries_at w' ?W = (if wrapped w then [] else entries_at w ?W)"
    using vR queued_not_vacant [of w' ?W] s [of ?W] lt I(7) by (auto simp: entries_at_def queued_def wrapped_def)
  have l1: "[?R + 1..?W - 1] = (?R + 1) # [?R + 2..?W - 1]" using lt by (subst upto_rec1) (simp_all add: add.assoc)
  show "queue_list w = entry_of (slot w (?R + 1)) # queue_list w'"
  proof (cases "?R + 2 = ?W")
    case True
    then show ?thesis using eW v queued_not_vacant [of w ?R] ne
      by (auto simp: queue_list_def f l1 entries_at_def wrapped_def)
  next
    case False
    then have "queued w' (?R + 2)" "?R + 2 < ?W" using que lt by simp_all
    moreover have "[?R + 2..?W - 1] = (?R + 2) # [?R + 3..?W - 1]"
      using \<open>?R + 2 < ?W\<close> by (subst upto_rec1) (simp_all add: add.assoc)
    moreover have "slot w' (?R + 2) = slot w (?R + 2)" using s [of "?R + 2"] \<open>?R + 2 < ?W\<close> I(7) by simp
    ultimately show ?thesis using eW v queued_not_vacant [of w ?R] ne m I(7)
      by (auto simp: queue_list_def f l1 entries_at_def wrapped_def add.assoc)
  qed
qed

lemma put_here:
  assumes inv: "queue_inv w" and v: "vacant w (write_to w)" and t: "sync_info t = Task__Queued"
  defines "w' \<equiv> put_slot w (write_to w) t"
  shows "queue_inv w'" "queue_list w' = (if wrapped w then entry_of t # queue_list w else queue_list w @ [entry_of t])"
proof -
  note I = queue_invD [OF inv]
  let ?R = "read_from w" and ?W = "write_to w" and ?n = "task_count w"
  have f: "ring w'" "task_count w' = ?n" "read_from w' = ?R" "write_to w' = ?W" using I(1) by (simp_all add: w'_def)
  have s: "slot w' i = (if i = ?W then t else slot w i)" if "?R < i" "i < ?R + ?n" for i
    using that I(6,7) slot_put_near [OF I(1), of ?W i t] slot_put_before [OF I(1), of i ?W t]
    by (cases "i < ?W") (auto simp: w'_def)
  have any: "queued w' i \<or> vacant w' i" for i unfolding w'_def using I(11) t by (intro state_put [OF I(1)]) auto
  have sR: "slot w' ?R = (if ?R = ?W \<or> wrapped w then t else slot w ?R)"
    using slot_put [OF I(1), of ?W t ?R] mod_eq_near [of ?W ?R ?n] I(6,7) by (auto simp: w'_def wrapped_def)
  have que: "queued w' i" if "?R < i" "i < ?W" for i using that I(7,9) s [of i] by (auto simp: queued_def)
  have vac: "vacant w' i" if "?W < i" "i < ?R + ?n" for i using that I(6,10) s [of i] by (auto simp: vacant_def)
  show "queue_inv w'" unfolding queue_inv_def f using I any que vac f(1) by auto
  have m: "map (\<lambda>i. entry_of (slot w' i)) [?R + 1..?W - 1] = map (\<lambda>i. entry_of (slot w i)) [?R + 1..?W - 1]"
    using I(7) by (auto simp: s)
  have vR: "\<not> queued w ?R" if "wrapped w \<or> ?R = ?W"
    using that v slot_period [of w ?R] queued_not_vacant [of w ?R] by (auto simp: wrapped_def vacant_def)
  have sW: "slot w' ?W = t" if "?R < ?W" "\<not> wrapped w" using s [of ?W] that I(7) by (simp add: wrapped_def)
  have nW: "\<not> queued w ?W" using v queued_not_vacant by blast
  show "queue_list w' = (if wrapped w then entry_of t # queue_list w else queue_list w @ [entry_of t])"
  proof (cases "wrapped w \<or> ?R = ?W")
    case True
    then have "?R < ?W \<longleftrightarrow> wrapped w" using I(8) by (auto simp: wrapped_def)
    then show ?thesis using True vR sR m t I(8)
      by (auto simp: queue_list_def f entries_at_def wrapped_def queued_def)
  next
    case False
    then show ?thesis using sR sW m t nW I(6)
      by (simp add: queue_list_def f entries_at_def wrapped_def queued_def)
  qed
qed

lemma put_next:
  assumes inv: "queue_inv w" and q: "queued w (write_to w)" and nw: "\<not> wrapped w" and t: "sync_info t = Task__Queued"
  defines "w' \<equiv> put_slot (w\<lparr>write_to := write_to w + 2\<rparr>) (write_to w + 1) t"
  shows "vacant w (write_to w + 1)" "queue_inv w'" "queue_list w' = queue_list w @ [entry_of t]"
proof -
  note I = queue_invD [OF inv]
  let ?R = "read_from w" and ?W = "write_to w" and ?n = "task_count w"
  have lt: "?W + 2 \<le> ?R + ?n" using nw I(2-4,7) by (simp add: wrapped_def) presburger
  then show "vacant w (?W + 1)" using I(10) by simp
  have r: "ring (w\<lparr>write_to := ?W + 2\<rparr>)" using I(1) by simp
  have f: "ring w'" "task_count w' = ?n" "read_from w' = ?R" "write_to w' = ?W + 2" using I(1) by (simp_all add: w'_def)
  have s: "slot w' i = (if i = ?W + 1 then t else slot w i)" if "?R \<le> i" "i < ?R + ?n" for i
    using that I(6) lt slot_put_near [OF r, of "?W + 1" i t] slot_put_before [OF r, of i "?W + 1" t]
    by (cases "i < ?W + 1") (auto simp: w'_def)
  have any: "queued w' i \<or> vacant w' i" for i
    unfolding w'_def using I(11) [of i] t by (intro state_put [OF r]) (auto simp: queued_def vacant_def)
  have que: "queued w' i" if "?R < i" "i < ?W + 2" for i
    using that lt q t I(9) [of i] s [of i] by (cases "i < ?W"; cases "i = ?W") (auto simp: queued_def)
  have vac: "vacant w' i" if "?W + 2 < i" "i < ?R + ?n" for i using that I(6,10) s [of i] by (auto simp: vacant_def)
  show "queue_inv w'" unfolding queue_inv_def f using I any que vac lt f(1) by auto
  have m: "map (\<lambda>i. entry_of (slot w' i)) [?R + 1..?W - 1] = map (\<lambda>i. entry_of (slot w i)) [?R + 1..?W - 1]"
    using lt by (auto simp: s)
  have sR: "slot w' ?R = slot w ?R" using s [of ?R] I(6,8) by simp
  have sW: "slot w' ?W = slot w ?W" "slot w' (?W + 1) = t" using s [of ?W] s [of "?W + 1"] lt I(6) by simp_all
  have eW2: "wrapped w' \<or> sync_info (slot w' (?W + 2)) \<noteq> Task__Queued"
  proof (cases "wrapped w'")
    case False
    then have "?W + 2 < ?R + ?n" using lt by (simp add: wrapped_def f)
    then have "vacant w' (?W + 2)" using I(6,10) s [of "?W + 2"] by (auto simp: vacant_def)
    then show ?thesis using queued_not_vacant by (auto simp: queued_def)
  qed simp
  show "queue_list w' = queue_list w @ [entry_of t]"
  proof (cases "?R = ?W")
    case True
    then show ?thesis using eW2 sR sW t q
      by (auto simp: queue_list_def f entries_at_def queued_def upto.simps)
  next
    case False
    then have "?R < ?W" using I(6) by simp
    then have "[?R + 1..1 + ?W] = [?R + 1..?W - 1] @ [?W, ?W + 1]"
      using upto_split2 [of "?R + 1" "?W - 1" "?W + 1"] by (simp add: upto.simps add.commute)
    then show ?thesis using eW2 sR sW m t q \<open>?R < ?W\<close> nw
      by (auto simp: queue_list_def f entries_at_def queued_def)
  qed
qed

section \<open>The operations on the list\<close>

lemma length_queue_list:
  assumes "queue_inv w"
  shows "int (length (queue_list w)) = task_count w \<longleftrightarrow> wrapped w \<and> queued w (write_to w)"
    and "wrapped w \<Longrightarrow> task_count w - 1 \<le> int (length (queue_list w))"
    and "int (length (queue_list w)) \<le> task_count w"
proof -
  note I = queue_invD [OF assms]
  have "write_to w + 2 \<le> read_from w + task_count w" if "\<not> wrapped w"
    using that I(2-4,7) by (simp add: wrapped_def) presburger
  moreover have "queued w (write_to w) = queued w (read_from w)" if "wrapped w"
    using that slot_period [of w "read_from w"] by (simp add: queued_def wrapped_def)
  ultimately show "int (length (queue_list w)) = task_count w \<longleftrightarrow> wrapped w \<and> queued w (write_to w)"
    "wrapped w \<Longrightarrow> task_count w - 1 \<le> int (length (queue_list w))" "int (length (queue_list w)) \<le> task_count w"
    using I(6-8) by (auto simp: queue_list_def entries_at_def wrapped_def)
qed

lemma dequeue_first:
  assumes "ring w" "queued w (read_from w)"
  shows "dequeue_task tries w = Inr ((slot w (read_from w))\<lparr>sync_info := Task__Reading\<rparr>,
           put_slot w (read_from w) (vacated (slot w (read_from w))))"
  using assms deq_found by (simp add: dequeue_task_def queued_def)

lemma dequeue_task_spec:
  assumes "queue_inv w"
  shows "queue_list w = [] \<Longrightarrow> dequeue_task tries w = Inr (empty_task, w)"
    and "queue_list w = x # xs \<Longrightarrow> \<exists>t w'. dequeue_task tries w = Inr (t, w') \<and> sync_info t = Task__Reading
           \<and> entry_of t = x \<and> queue_inv w' \<and> queue_list w' = xs"
proof -
  note I = queue_invD [OF assms]
  let ?R = "read_from w" and ?W = "write_to w"
  have none: "dequeue_task tries w = Inr (empty_task, w)" "queue_list w = []" if "vacant w ?R" "?R = ?W"
    using that I(1,8) deq_missed [OF I(1), of ?R tries ?W]
    by (auto simp: dequeue_task_def queue_list_def entries_at_def queued_def vacant_def Task__Empty_def Task__Queued_def
        deq_advance.simps)
  have first: "dequeue_task tries w = Inr ((slot w ?R)\<lparr>sync_info := Task__Reading\<rparr>, put_slot w ?R (vacated (slot w ?R)))"
    if "queued w ?R" using that by (rule dequeue_first [OF I(1)])
  have second: "dequeue_task tries w = Inr ((slot w (?R + 1))\<lparr>sync_info := Task__Reading\<rparr>,
      put_slot (w\<lparr>read_from := ?R + 2\<rparr>) (?R + 1) (vacated (slot w (?R + 1))))" if v: "vacant w ?R" "?R < ?W"
  proof -
    have nq: "sync_info (slot w ?R) \<noteq> Task__Queued"
      using v(1) by (simp add: vacant_def Task__Empty_def Task__Queued_def)
    have lt: "?R + 1 < ?W" using v(2) I(3,4) by presburger
    obtain tries1 where "deq_advance tries w ?R ?W = deq_loop tries1 (w\<lparr>read_from := ?R + 1\<rparr>) ?R ?W"
      using deq_advance_fresh [OF refl v(2)] by blast
    moreover obtain tries2 where "deq_advance tries1 (w\<lparr>read_from := ?R + 1\<rparr>) ?R ?W = deq_loop tries2 (w\<lparr>read_from := ?R + 2\<rparr>) (?R + 1) ?W"
      using deq_advance_stale [of "w\<lparr>read_from := ?R + 1\<rparr>" ?R ?W tries1] lt by auto
    ultimately show ?thesis
      using deq_missed [of w ?R] deq_missed [of "w\<lparr>read_from := ?R + 1\<rparr>" ?R] nq I(1)
        deq_found [of "w\<lparr>read_from := ?R + 2\<rparr>" "?R + 1"] take_second(1) [OF assms v]
      by (simp add: dequeue_task_def queued_def)
  qed
  consider "queued w ?R" | "vacant w ?R" "?R < ?W" | "vacant w ?R" "?R = ?W" using I(6,11) by force
  note cases = this
  show "dequeue_task tries w = Inr (empty_task, w)" if "queue_list w = []"
    using cases that take_first(2) [OF assms] take_second(3) [OF assms] none by (metis list.distinct(1))
  show "\<exists>t w'. dequeue_task tries w = Inr (t, w') \<and> sync_info t = Task__Reading \<and> entry_of t = x \<and> queue_inv w' \<and> queue_list w' = xs"
    if "queue_list w = x # xs"
    using cases
  proof cases
    case 1
    then show ?thesis using first take_first [OF assms] that by (auto simp: entry_of_def)
  next
    case 2
    then show ?thesis using second take_second [OF assms] that by (auto simp: entry_of_def)
  qed (use none that in simp)
qed

lemma enqueue_task_spec:
  assumes "queue_inv w"
  shows "int (length (queue_list w)) = task_count w \<Longrightarrow> enqueue_task tries w nid data = Inr (False, w, nid)"
    and "int (length (queue_list w)) \<noteq> task_count w \<Longrightarrow> \<exists>w'. enqueue_task tries w nid data = Inr (True, w', nid + 1)
           \<and> queue_inv w' \<and> task_count w' = task_count w
           \<and> queue_list w' = (if wrapped w then (nid, data) # queue_list w else queue_list w @ [(nid, data)])"
proof -
  note I = queue_invD [OF assms]
  let ?R = "read_from w" and ?W = "write_to w" and ?n = "task_count w"
  let ?t = "\<lparr>sync_info = Task__Queued, task_id = nid, task_data = data\<rparr>"
  have t: "sync_info ?t = Task__Queued" "entry_of ?t = (nid, data)" by (simp_all add: entry_of_def)
  have nv: "sync_info (slot w ?W) \<noteq> Task__Empty" if "queued w ?W"
    using that by (simp add: queued_def Task__Empty_def Task__Queued_def)
  show "enqueue_task tries w nid data = Inr (False, w, nid)" if "int (length (queue_list w)) = ?n"
    using that length_queue_list(1) [OF assms] nv enq_missed [OF I(1), of ?W]
    by (auto simp: enqueue_task_def wrapped_def enq_advance.simps)
  have here: "enqueue_task tries w nid data = Inr (True, put_slot w ?W ?t, nid + 1)" if "vacant w ?W"
    using that enq_found [OF I(1)] by (simp add: enqueue_task_def vacant_def)
  have "next": "enqueue_task tries w nid data = Inr (True, put_slot (w\<lparr>write_to := ?W + 2\<rparr>) (?W + 1) ?t, nid + 1)"
    if q: "queued w ?W" "\<not> wrapped w"
  proof -
    have lt: "?W + 1 < ?R + ?n" using q(2) I(2-4,7) by (simp add: wrapped_def) presburger
    then have "?W < ?R + ?n" by simp
    then obtain tries1 where "enq_advance tries w nid data ?W (?R + ?n) = enq_loop tries1 (w\<lparr>write_to := ?W + 1\<rparr>) nid data ?W (?R + ?n)"
      using enq_advance_fresh [OF refl] by blast
    moreover obtain tries2 where "enq_advance tries1 (w\<lparr>write_to := ?W + 1\<rparr>) nid data ?W (?R + ?n)
        = enq_loop tries2 (w\<lparr>write_to := ?W + 2\<rparr>) nid data (?W + 1) (?R + ?n)"
      using enq_advance_stale [of "w\<lparr>write_to := ?W + 1\<rparr>" ?W "?R + ?n" tries1 nid data] lt by auto
    ultimately show ?thesis
      using enq_missed [of w ?W] enq_missed [of "w\<lparr>write_to := ?W + 1\<rparr>" ?W] nv [OF q(1)] I(1)
        enq_found [of "w\<lparr>write_to := ?W + 2\<rparr>" "?W + 1"] put_next(1) [OF assms q t(1)]
      by (simp add: enqueue_task_def vacant_def)
  qed
  show "\<exists>w'. enqueue_task tries w nid data = Inr (True, w', nid + 1) \<and> queue_inv w' \<and> task_count w' = ?n
      \<and> queue_list w' = (if wrapped w then (nid, data) # queue_list w else queue_list w @ [(nid, data)])"
    if "int (length (queue_list w)) \<noteq> ?n"
  proof (cases "vacant w ?W")
    case True
    then show ?thesis using here put_here [OF assms True t(1)] t(2) by auto
  next
    case False
    then have "queued w ?W" "\<not> wrapped w" using I(11) that length_queue_list(1) [OF assms] by blast+
    then show ?thesis using "next" put_next [OF assms _ _ t(1)] t(2) by auto
  qed
qed

section \<open>Properties\<close>

text \<open>C16. One worker's queue is first-in first-out as long as fewer than all but one of its slots are
  used: dequeuing takes the oldest task, enqueuing appends, whatever spurious failures the weak exchanges
  have. With every slot in use enqueuing fails and changes nothing; an empty queue returns the empty task.\<close>

theorem task_queue_fifo:
  assumes "queue_inv w"
  shows "(case queue_list w of [] \<Rightarrow> dequeue_task tries w = Inr (empty_task, w)
          | x # xs \<Rightarrow> \<exists>t w'. dequeue_task tries w = Inr (t, w') \<and> sync_info t = Task__Reading \<and> entry_of t = x
                        \<and> queue_inv w' \<and> queue_list w' = xs)
       \<and> (int (length (queue_list w)) < task_count w - 1 \<longrightarrow>
            (\<exists>w'. enqueue_task tries w nid data = Inr (True, w', nid + 1) \<and> queue_inv w' \<and> queue_list w' = queue_list w @ [(nid, data)]))
       \<and> (int (length (queue_list w)) = task_count w \<longrightarrow> enqueue_task tries w nid data = Inr (False, w, nid))"
proof -
  have "\<not> wrapped w" if "int (length (queue_list w)) < task_count w - 1" using that length_queue_list(2) [OF assms] by linarith
  then show ?thesis
    using dequeue_task_spec(1) [OF assms, of tries] dequeue_task_spec(2) [OF assms, where tries = tries] enqueue_task_spec [OF assms, of tries nid data]
    by (auto split: list.split)
qed

definition sample_queue :: WorkerState where
  "sample_queue = \<lparr>w_tasks = [empty_task, empty_task, empty_task, empty_task], task_count = 4, w_core_id = 0, running_task = empty_task,
     read_from = 0, write_to = 0\<rparr>"

lemma sample_queue_inv: "queue_inv sample_queue" "queue_list sample_queue = []"
proof -
  have "slot sample_queue i = empty_task" for i
  proof -
    have "nat (i mod 4) < 4" by (simp add: nat_less_iff)
    then have "nat (i mod 4) \<in> {0, 1, 2, 3}" by auto
    then show ?thesis by (auto simp: slot_def sample_queue_def)
  qed
  then show "queue_inv sample_queue" "queue_list sample_queue = []"
    by (simp_all add: queue_inv_def ring_def vacant_def queued_def queue_list_def entries_at_def)
      (simp_all add: sample_queue_def empty_task_def Task__Empty_def Task__Queued_def)
qed

theorem task_queue_fifo_witness:
  "\<exists>w'. enqueue_task [True] sample_queue 7 no_data = Inr (True, w', 8) \<and> queue_list w' = [(7, no_data)]"
proof -
  have "task_count sample_queue = 4" by (simp add: sample_queue_def)
  then show ?thesis using task_queue_fifo [OF sample_queue_inv(1), of "[True]" 7 no_data] sample_queue_inv(2) by auto
qed

text \<open>A full queue is not first-in first-out: after one task is taken out and a new one put in, the new
  task is taken next, before all the older ones.\<close>

theorem task_queue_full_reorders:
  assumes "queue_inv w" "int (length (queue_list w)) = task_count w"
  shows "\<exists>t1 w1 w2 t2 w3. dequeue_task [] w = Inr (t1, w1) \<and> enqueue_task [] w1 nid data = Inr (True, w2, nid + 1)
    \<and> dequeue_task [] w2 = Inr (t2, w3) \<and> entry_of t2 = (nid, data) \<and> queue_list w3 = tl (queue_list w) \<and> queue_list w3 \<noteq> []"
proof -
  note I = queue_invD [OF assms(1)]
  define w1 where "w1 = put_slot w (read_from w) (vacated (slot w (read_from w)))"
  have wr: "wrapped w" and "queued w (write_to w)" using length_queue_list(1) [OF assms(1)] assms(2) by auto
  then have q: "queued w (read_from w)" using slot_period [of w "read_from w"] by (simp add: queued_def wrapped_def)
  have d1: "dequeue_task [] w = Inr ((slot w (read_from w))\<lparr>sync_info := Task__Reading\<rparr>, w1)"
    unfolding w1_def by (rule dequeue_first [OF I(1) q])
  have w1: "queue_inv w1" "queue_list w1 = tl (queue_list w)" "wrapped w1" "task_count w1 = task_count w"
    using take_first [OF assms(1) q] wr by (simp_all add: w1_def wrapped_def)
  have l: "int (length (queue_list w1)) = task_count w - 1" using w1(2) assms(2) I(8) by simp
  then obtain w2 where w2: "enqueue_task [] w1 nid data = Inr (True, w2, nid + 1)" "queue_inv w2" "queue_list w2 = (nid, data) # queue_list w1"
    using enqueue_task_spec(2) [OF w1(1), of "[]" nid data] w1(3,4) by auto
  obtain t2 w3 where "dequeue_task [] w2 = Inr (t2, w3)" "entry_of t2 = (nid, data)" "queue_list w3 = queue_list w1"
    using dequeue_task_spec(2) [OF w2(2,3), of "[]"] by auto
  moreover have "queue_list w1 \<noteq> []" using l I(8) by auto
  ultimately show ?thesis using d1 w2(1) w1(2) by metis
qed

definition full_queue :: WorkerState where
  "full_queue = \<lparr>w_tasks = [\<lparr>sync_info = Task__Queued, task_id = 1, task_data = no_data\<rparr>, \<lparr>sync_info = Task__Queued, task_id = 2, task_data = no_data\<rparr>],
     task_count = 2, w_core_id = 0, running_task = empty_task, read_from = 0, write_to = 2\<rparr>"

theorem task_queue_full_reorders_witness:
  "\<exists>t1 w1 w2 t2 w3. dequeue_task [] full_queue = Inr (t1, w1) \<and> enqueue_task [] w1 3 no_data = Inr (True, w2, 4)
    \<and> dequeue_task [] w2 = Inr (t2, w3) \<and> entry_of t2 = (3, no_data) \<and> queue_list w3 = [(2, no_data)]"
proof -
  have "sync_info (slot full_queue i) = Task__Queued" for i
    by (cases "i mod 2 = 0") (auto simp: slot_def full_queue_def odd_iff_mod_2_eq_one)
  then have q: "queued full_queue i" for i by (simp add: queued_def)
  have inv: "queue_inv full_queue" unfolding queue_inv_def ring_def using q by (simp add: full_queue_def)
  have "queue_list full_queue = [(1, no_data), (2, no_data)]"
    unfolding queue_list_def entries_at_def using q
    by (simp add: full_queue_def slot_def entry_of_def wrapped_def upto.simps)
  moreover have "task_count full_queue = 2" by (simp add: full_queue_def)
  ultimately show ?thesis using task_queue_full_reorders [OF inv, of 3 no_data] by auto
qed

end
