(* ===== verification/Interrupts.thy ===== *)
theory Interrupts
  imports Descriptors
begin

text \<open>
  The interrupt descriptor table of \<^verbatim>\<open>src/kern/interrupts.c\<close>. The structure \<^verbatim>\<open>Idt\<close> is used as an
  array of 256 entries of 16 bytes, in which \<^verbatim>\<open>double_fault\<close> is number 8. The code segment register
  that an entry records is read from the machine state; the address of a handler is a parameter.
\<close>

record IdtEntry =
  pointer_low :: u16
  gdt_selector :: u16
  options :: u16
  pointer_middle :: u16
  pointer_high :: u32
  reserved :: u32

record ExceptionStackFrame =
  instruction_pointer :: u64
  code_segment :: u64
  cpu_flags :: u64
  stack_pointer :: u64
  stack_segment :: u64

definition IdtEntry__missing :: IdtEntry where
  "IdtEntry__missing = \<lparr>pointer_low = 0, gdt_selector = 0, options = 0xe00, pointer_middle = 0, pointer_high = 0, reserved = 0\<rparr>"

definition IdtEntry__set_present :: "u16 \<Rightarrow> u16" where
  "IdtEntry__set_present opts = opts OR push_bit 15 1"

definition IdtEntry__set_IST_index :: "u16 \<Rightarrow> u8 \<Rightarrow> u16 result" where
  "IdtEntry__set_IST_index opts idx =
     bindR (assertR (uint idx < 8) ''idx < 8'') (\<lambda>_. Inr ((opts AND NOT 7) OR ucast idx))"

definition IdtEntry__handler_addr :: "IdtEntry \<Rightarrow> u64" where
  "IdtEntry__handler_addr entry =
     ucast (pointer_low entry) OR push_bit 16 (ucast (pointer_middle entry)) OR push_bit 32 (ucast (pointer_high entry))"

definition IdtEntry__set_handler :: "u16 \<Rightarrow> IdtEntry \<Rightarrow> u64 \<Rightarrow> IdtEntry result" where
  "IdtEntry__set_handler cs_reg entry addr =
     (let entry = entry\<lparr>pointer_low := ucast addr, pointer_middle := ucast (drop_bit 16 addr),
                        pointer_high := ucast (drop_bit 32 addr), gdt_selector := cs_reg\<rparr>;
          entry = entry\<lparr>options := IdtEntry__set_present (options entry)\<rparr> in
      bindR (IdtEntry__set_IST_index (options entry) 1) (\<lambda>opts. Inr (entry\<lparr>options := opts\<rparr>)))"

fun missing_loop :: "nat \<Rightarrow> s64 \<Rightarrow> IdtEntry list \<Rightarrow> IdtEntry list result" where
  "missing_loop 0 i entries = Inr entries"
| "missing_loop (Suc n) i entries = bindR (updR entries i IdtEntry__missing) (\<lambda>entries. missing_loop n (i + 1) entries)"

definition double_fault :: s64 where
  "double_fault = 8"

definition load_idt :: "u64 \<Rightarrow> machine \<Rightarrow> ((u64 \<times> IdtEntry list) \<times> machine) result" where
  "load_idt Idt__double_fault M =
     bindR (Bump__bump_impl [] (InitAlloc M) 4096 4) (\<lambda>(idt, b).
     bindR (assertR (idt \<noteq> 0) ''idt'') (\<lambda>_.
     let entries = replicate 256 \<lparr>pointer_low = 0, gdt_selector = 0, options = 0, pointer_middle = 0, pointer_high = 0, reserved = 0\<rparr> in
     bindR (missing_loop 256 0 entries) (\<lambda>entries.
     bindR (idxR entries double_fault) (\<lambda>entry.
     bindR (IdtEntry__set_handler (cs (cpu_state M)) entry Idt__double_fault) (\<lambda>entry.
     bindR (updR entries double_fault entry) (\<lambda>entries.
     Inr ((idt, entries), M\<lparr>InitAlloc := b, cpu_state := (cpu_state M)\<lparr>idtr_size := 4096 - 1, idtr_base := idt\<rparr>\<rparr>)))))))"

definition IA32_APIC_BASE_MSR :: u32 where
  "IA32_APIC_BASE_MSR = 0x1B"

definition IA32_APIC_BASE_MSR_ENABLE :: u64 where
  "IA32_APIC_BASE_MSR_ENABLE = 0x800"

definition cpuSetMSR :: "u32 \<Rightarrow> u64 \<Rightarrow> cpu \<Rightarrow> cpu" where
  "cpuSetMSR r v c =
     (let lo = (ucast v :: u32); hi = (ucast (drop_bit 32 v) :: u32) in
      c\<lparr>msr := (msr c)(r := push_bit 32 (ucast hi) OR ucast lo)\<rparr>)"

definition cpuGetMSR :: "u32 \<Rightarrow> cpu \<Rightarrow> u64" where
  "cpuGetMSR r c =
     (let lo = (ucast (msr c r) :: u32); hi = (ucast (drop_bit 32 (msr c r)) :: u32); ret = push_bit 32 (ucast hi) in
      ret OR ucast lo)"

definition cpu_set_apic_base :: "u64 \<Rightarrow> cpu \<Rightarrow> cpu result" where
  "cpu_set_apic_base p c =
     bindR (physical_address p) (\<lambda>apic.
     Inr (cpuSetMSR IA32_APIC_BASE_MSR ((apic AND 0xffffff000) OR IA32_APIC_BASE_MSR_ENABLE) c))"

definition cpu_get_apic_base :: "cpu \<Rightarrow> u64 result" where
  "cpu_get_apic_base c = (let apic = cpuGetMSR IA32_APIC_BASE_MSR c AND 0xffffff000 in kernel_ptr apic)"

text \<open>
  The double fault handler ends in \<^verbatim>\<open>exit(1)\<close>; its result is the machine at that moment. The
  address of its argument \<^verbatim>\<open>&error_code\<close> is a parameter.
\<close>

definition Idt__log_fmt :: "ExceptionStackFrame \<Rightarrow> machine \<Rightarrow> machine result" where
  "Idt__log_fmt fr M =
     kernel_log_fmt ''./kern/interrupts.c'' 151 ''ExceptionStackFrame{ip=%f,cs=%f,flags=%f,sp=%f,ss=%f}''
       [any__u64 (instruction_pointer fr), any__u64 (code_segment fr), any__u64 (cpu_flags fr),
        any__u64 (stack_pointer fr), any__u64 (stack_segment fr)] M"

definition Idt__double_fault :: "ExceptionStackFrame \<Rightarrow> u64 \<Rightarrow> u64 \<Rightarrow> machine \<Rightarrow> machine result" where
  "Idt__double_fault fr error_code error_code_addr M =
     bindR (kernel_log_fmt ''./kern/interrupts.c'' 144 ''double fault error_code: %f'' [any__u64 error_code] M) (\<lambda>M.
     bindR (Idt__log_fmt fr M) (\<lambda>M.
     bindR (kernel_log_fmt ''./kern/interrupts.c'' 146 ''double fault stack location: %f'' [any__u64 error_code_addr] M) (\<lambda>M.
     kernel_log_fmt ''./kern/interrupts.c'' 147 ''panicked!'' [] M)))"

section \<open>Entries\<close>

lemma handler_addr_parts:
  "(ucast (ucast a :: u16) :: u64) OR push_bit 16 (ucast (ucast (drop_bit 16 a) :: u16)) OR push_bit 32 (ucast (ucast (drop_bit 32 a) :: u32)) = a"
  for a :: u64
proof (rule bit_word_eqI)
  fix n :: nat
  assume n: "n < LENGTH(64)"
  consider "n < 16" | "16 \<le> n" "n < 32" | "32 \<le> n" by linarith
  then show "bit ((ucast (ucast a :: u16) :: u64) OR push_bit 16 (ucast (ucast (drop_bit 16 a) :: u16))
      OR push_bit 32 (ucast (ucast (drop_bit 32 a) :: u32))) n = bit a n"
    using n by cases (simp_all add: bit_simps, auto)
qed

lemma set_handler_eq:
  "IdtEntry__set_handler c e a = Inr (e\<lparr>pointer_low := ucast a, pointer_middle := ucast (drop_bit 16 a),
     pointer_high := ucast (drop_bit 32 a), gdt_selector := c, options := ((options e OR 0x8000) AND NOT 7) OR 1\<rparr>)"
  by (simp add: IdtEntry__set_handler_def IdtEntry__set_IST_index_def IdtEntry__set_present_def push_bit_eq_mult)

lemma missing_loop_eq:
  "i + n \<le> length es \<Longrightarrow> missing_loop n (int i) es = Inr (take i es @ replicate n IdtEntry__missing @ drop (i + n) es)"
proof (induction n arbitrary: i es)
  case (Suc n)
  have "missing_loop n (int (Suc i)) (es[i := IdtEntry__missing]) =
      Inr (take (Suc i) (es[i := IdtEntry__missing]) @ replicate n IdtEntry__missing @ drop (Suc i + n) (es[i := IdtEntry__missing]))"
    using Suc.prems by (intro Suc.IH) simp
  moreover have "take (Suc i) (es[i := IdtEntry__missing]) = take i es @ [IdtEntry__missing]"
    using Suc.prems by (simp add: take_Suc_conv_app_nth)
  ultimately show ?case using Suc.prems by (simp add: add.commute)
qed simp

section \<open>Properties\<close>

text \<open>Setting a handler and reading it back gives the same 64-bit address; the entry is present, uses
  the first interrupt stack and the current code segment, and keeps its gate type and privilege bits.\<close>

theorem set_handler_roundtrip:
  "\<exists>e'. IdtEntry__set_handler c e a = Inr e' \<and> IdtEntry__handler_addr e' = a \<and> gdt_selector e' = c
     \<and> bit (options e') 15 \<and> options e' AND 7 = 1 \<and> (\<forall>n\<in>{3..<15}. bit (options e') n = bit (options e) n)"
proof -
  define o' where "o' = ((options e OR 0x8000) AND NOT 7) OR 1"
  have k: "bit (0x8000 :: u16) n \<longleftrightarrow> n = 15" "(7 :: u16) = mask 3" for n
    using bit_exp_iff [where ?'a = u16, of 15 n] by (auto simp: mask_eq_exp_minus_1)
  have o': "bit o' n \<longleftrightarrow> (bit (options e) n \<or> n = 15) \<and> bit (NOT (mask 3) :: u16) n \<or> bit (1 :: u16) n" for n
    unfolding o'_def k(2) by (simp only: bit_or_iff bit_and_iff k(1))
  have "bit o' 15" "\<forall>n\<in>{3..<15}. bit o' n = bit (options e) n"
    unfolding o' by (auto simp: bit_simps)
  moreover have "o' AND 7 = 1" unfolding k(2) by (rule bit_word_eqI) (auto simp: bit_simps o')
  ultimately show ?thesis
    by (simp add: set_handler_eq IdtEntry__handler_addr_def handler_addr_parts o'_def)
qed

theorem set_handler_roundtrip_witness:
  "\<exists>e'. IdtEntry__set_handler 8 IdtEntry__missing 0xffffffffffe02345 = Inr e' \<and> IdtEntry__handler_addr e' = 0xffffffffffe02345
     \<and> bit (options e') 9 = bit (0xe00 :: u16) 9"
  using set_handler_roundtrip [of 8 IdtEntry__missing "0xffffffffffe02345"] by (auto simp: IdtEntry__missing_def)

text \<open>The table that \<^verbatim>\<open>load_idt\<close> builds for a handler at \<open>h\<close>, with the code selector \<open>sel\<close>.\<close>

definition idt_entries :: "u16 \<Rightarrow> u64 \<Rightarrow> IdtEntry list" where
  "idt_entries sel h = (replicate 256 IdtEntry__missing)[8 := \<lparr>pointer_low = ucast h, gdt_selector = sel, options = 0x8e01,
     pointer_middle = ucast (drop_bit 16 h), pointer_high = ucast (drop_bit 32 h), reserved = 0\<rparr>]"

lemma idt_entries_props:
  "length (idt_entries sel h) = 256" "IdtEntry__handler_addr (idt_entries sel h ! 8) = h"
  "options (idt_entries sel h ! 8) = 0x8e01" "gdt_selector (idt_entries sel h ! 8) = sel"
  "list_all (\<lambda>i. i = 8 \<or> \<not> bit (options (idt_entries sel h ! i)) 15) [0..<256]"
proof -
  have "i = 8 \<or> \<not> bit (options (idt_entries sel h ! i)) 15" if "i < 256" for i
    using that by (cases "i = 8") (simp_all add: idt_entries_def IdtEntry__missing_def bit_iff_odd_drop_bit drop_bit_eq_div)
  then show "list_all (\<lambda>i. i = 8 \<or> \<not> bit (options (idt_entries sel h ! i)) 15) [0..<256]" by (auto simp: list_all_iff)
qed (simp_all add: idt_entries_def IdtEntry__handler_addr_def handler_addr_parts)

lemma load_idt_run:
  assumes "alloc_placed (InitAlloc M)" "bump_idx (InitAlloc M) + 4099 \<le> bump_count (InitAlloc M)"
  obtains g where "bump_idx (InitAlloc M) \<le> g" "g + 4096 \<le> bump_count (InitAlloc M)"
    "load_idt h M = Inr ((bump_begin (InitAlloc M) + U64 g, idt_entries (cs (cpu_state M)) h), M\<lparr>InitAlloc := (InitAlloc M)\<lparr>bump_idx := g + 4096\<rparr>,
      cpu_state := (cpu_state M)\<lparr>idtr_size := 4095, idtr_base := bump_begin (InitAlloc M) + U64 g\<rparr>\<rparr>)"
proof -
  define b where "b = InitAlloc M"
  define g where "g = round_up (bump_idx b) 2"
  have ok: "bump_ok b" and i0: "0 \<le> bump_idx b" using assms(1) by (auto simp: b_def alloc_placed_def bump_ok_def)
  have g: "bump_idx b \<le> g" "g < bump_idx b + 4"
    using round_up [where i = "bump_idx b" and k = 2] by (simp_all add: g_def)
  have fit: "g + 4096 \<le> bump_count b" using assms(2) g(2) by (simp add: b_def)
  have b1: "Bump__bump_impl [] b 4096 4 = Inr (bump_begin b + U64 g, b\<lparr>bump_idx := g + 4096\<rparr>)"
    using Bump__bump_impl_eq [OF ok, of 2 4096 "[]"] fit by (simp add: g_def)
  have nz: "bump_begin b + U64 g \<noteq> 0"
    using alloc_placed_nonzero [of b g] assms(1) g(1) i0 fit by (auto simp: b_def)
  have e: "IdtEntry__set_handler sel IdtEntry__missing h = Inr (idt_entries sel h ! 8)" for sel
    by (simp add: set_handler_eq idt_entries_def IdtEntry__missing_def)
  have loop: "missing_loop 256 0 (replicate 256 x) = Inr (replicate 256 IdtEntry__missing)" for x
    using missing_loop_eq [of 0 256 "replicate 256 x"] by simp
  have up: "(replicate 256 IdtEntry__missing)[8 := idt_entries sel h ! 8] = idt_entries sel h" for sel by (simp add: idt_entries_def)
  have "load_idt h M = Inr ((bump_begin b + U64 g, idt_entries (cs (cpu_state M)) h), M\<lparr>InitAlloc := b\<lparr>bump_idx := g + 4096\<rparr>,
      cpu_state := (cpu_state M)\<lparr>idtr_size := 4095, idtr_base := bump_begin b + U64 g\<rparr>\<rparr>)"
    unfolding load_idt_def b_def [symmetric] b1 bindR_Inr prod.case Let_def loop double_fault_def
    using nz by (simp add: e up b_def)
  then show thesis using that [of g] g(1) fit by (simp add: b_def)
qed

text \<open>C36. \<^verbatim>\<open>load_idt\<close> with room in the initial allocator returns a full table of 256 entries and loads it
  with its limit: entry 8 leads to the double fault handler on the first interrupt stack, and no other
  entry is present.\<close>

theorem load_idt_correct:
  assumes "alloc_placed (InitAlloc M)" "bump_idx (InitAlloc M) + 4099 \<le> bump_count (InitAlloc M)"
  shows "\<exists>idt es M'. load_idt h M = Inr ((idt, es), M') \<and> length es = 256
    \<and> IdtEntry__handler_addr (es ! 8) = h \<and> options (es ! 8) = 0x8e01 \<and> gdt_selector (es ! 8) = cs (cpu_state M)
    \<and> list_all (\<lambda>i. i = 8 \<or> \<not> bit (options (es ! i)) 15) [0..<256]
    \<and> idtr_base (cpu_state M') = idt \<and> uint (idtr_size (cpu_state M')) = 256 * 16 - 1
    \<and> bump_idx (InitAlloc M') \<le> bump_count (InitAlloc M)"
proof -
  obtain g where g: "g + 4096 \<le> bump_count (InitAlloc M)" "load_idt h M = Inr ((bump_begin (InitAlloc M) + U64 g,
      idt_entries (cs (cpu_state M)) h), M\<lparr>InitAlloc := (InitAlloc M)\<lparr>bump_idx := g + 4096\<rparr>,
      cpu_state := (cpu_state M)\<lparr>idtr_size := 4095, idtr_base := bump_begin (InitAlloc M) + U64 g\<rparr>\<rparr>)"
    using load_idt_run [OF assms] by metis
  show ?thesis using g idt_entries_props by simp
qed

theorem load_idt_correct_witness:
  "\<exists>idt es M'. load_idt 0xffffffffffe02345 (sample_machine sample_heap\<lparr>InitAlloc := \<lparr>bump_begin = page_ptr 3, bump_count = 8192, bump_idx = 176\<rparr>\<rparr>)
       = Inr ((idt, es), M') \<and> IdtEntry__handler_addr (es ! 8) = 0xffffffffffe02345 \<and> options (es ! 8) = 0x8e01"
proof -
  define M where "M = sample_machine sample_heap\<lparr>InitAlloc := \<lparr>bump_begin = page_ptr 3, bump_count = 8192, bump_idx = 176\<rparr>\<rparr>"
  have "alloc_placed (InitAlloc M)" by (auto simp: M_def alloc_placed_def bump_ok_def intro!: exI [of _ 3])
  then show ?thesis
    using load_idt_correct [of M "0xffffffffffe02345"] unfolding M_def [symmetric] by (auto simp: M_def)
qed

section \<open>The local interrupt controller\<close>

lemma cpuMSR_roundtrip: "cpuGetMSR r (cpuSetMSR r v c) = v"
proof -
  have h: "push_bit 32 (ucast (ucast (drop_bit 32 w) :: u32)) OR ucast (ucast w :: u32) = w" for w :: u64
  proof (rule bit_word_eqI)
    fix n :: nat
    assume "n < LENGTH(64)"
    then show "bit (push_bit 32 (ucast (ucast (drop_bit 32 w) :: u32)) OR ucast (ucast w :: u32) :: u64) n = bit w n"
      by (cases "n < 32") (simp_all add: bit_simps, auto)
  qed
  show ?thesis by (simp add: cpuGetMSR_def cpuSetMSR_def h)
qed

text \<open>The base of the local interrupt controller is stored and read back exactly for every page of the
  lowest 64 GB of physical memory.\<close>

theorem apic_base_roundtrip:
  assumes "0 \<le> x" "x < 2 ^ 24"
  shows "\<exists>c'. cpu_set_apic_base (page_ptr x) c = Inr c' \<and> cpu_get_apic_base c' = Inr (page_ptr x)"
proof -
  have px: "page_ok x" using assms by (simp add: page_ok_def)
  define w where "w = U64 x * 4096"
  have m: "(0xffffff000 :: u64) = push_bit 12 (mask 24)" by (simp add: mask_eq_exp_minus_1 push_bit_eq_mult)
  have x: "uint (U64 x) = x" using assms by (intro uint_word_of_int_small) auto
  have "uint (take_bit 24 (U64 x)) = uint (U64 x)"
    unfolding unsigned_take_bit_eq x using assms by (simp add: take_bit_int_eq_self)
  then have "take_bit 24 (U64 x) = U64 x" by (simp only: word_uint_eq_iff)
  then have "U64 x AND mask 24 = U64 x" by (simp only: take_bit_eq_mask)
  moreover have "w = push_bit 12 (U64 x)" by (simp add: w_def push_bit_eq_mult)
  ultimately have wm: "w AND 0xffffff000 = w" unfolding m by (simp only: flip: push_bit_and)
  have e: "(w OR 0x800) AND 0xffffff000 = w" by (simp add: bit.conj_disj_distrib2 wm)
  have "physical_address (page_ptr x) = Inr w" unfolding w_def physical_address_page [OF px] page_word [OF px] ..
  then have "cpu_set_apic_base (page_ptr x) c = Inr (cpuSetMSR IA32_APIC_BASE_MSR (w OR 0x800) c)"
    by (simp add: cpu_set_apic_base_def wm IA32_APIC_BASE_MSR_ENABLE_def)
  moreover have "kernel_ptr w = Inr (page_ptr x)" using kernel_ptr_page [OF px] by (simp add: w_def)
  ultimately show ?thesis by (simp add: cpu_get_apic_base_def cpuMSR_roundtrip e)
qed

theorem apic_base_roundtrip_witness:
  "\<exists>c'. cpu_set_apic_base (page_ptr 0xfee00) sample_cpu = Inr c' \<and> cpu_get_apic_base c' = Inr (page_ptr 0xfee00)"
  using apic_base_roundtrip [of "0xfee00" sample_cpu] by simp

section \<open>The double fault handler\<close>

lemma kernel_log_numbers:
  assumes "log_ok (log_state M)" "\<not> UseInterrupts (log_state M)" "length file \<le> 100"
    and "fmt_text fmt (map any__u64 vs) = (t, k, True)"
  shows "\<exists>M'. kernel_log_fmt file line fmt (map any__u64 vs) M = Inr M' \<and> log_ok (log_state M') \<and> \<not> UseInterrupts (log_state M')
    \<and> serial (log_state M') = serial (log_state M) @ log_line (prefix_text \<lparr>loc_file = Some file, loc_line = line\<rparr> @ t)"
proof -
  have "\<forall>a\<in>set (map any__u64 vs). any_ok a" by (simp add: any_ok_def any__u64_def signed_type_def)
  from ext__log_fmt_eq(1) [OF assms(1,2) this assms(4), of "\<lparr>loc_file = Some file, loc_line = line\<rparr>" "[]"]
  show ?thesis using short_loc [OF assms(3), of line] assms(1,2)
    by (auto simp: kernel_log_fmt_def short_loc_def log_ok_def)
qed

lemma any_text_u64 [simp]: "any_text (any__u64 v) = Some (decimal (unat v))"
  by (simp add: any_text_def any__u64_def signed_type_def)

definition int_line :: "u32 \<Rightarrow> string \<Rightarrow> string" where
  "int_line line t = log_line (prefix_text \<lparr>loc_file = Some ''./kern/interrupts.c'', loc_line = line\<rparr> @ t)"

definition frame_text :: "ExceptionStackFrame \<Rightarrow> string" where
  "frame_text fr = ''ExceptionStackFrame{ip='' @ decimal (unat (instruction_pointer fr)) @ '',cs='' @ decimal (unat (code_segment fr))
     @ '',flags='' @ decimal (unat (cpu_flags fr)) @ '',sp='' @ decimal (unat (stack_pointer fr))
     @ '',ss='' @ decimal (unat (stack_segment fr)) @ ''}''"

text \<open>The double fault handler always reaches its shutdown: it reports the error code, the five
  registers of the exception frame and its stack location in decimal, one line each, and the panic.\<close>

theorem double_fault_reports:
  assumes "log_ok (log_state M)" "\<not> UseInterrupts (log_state M)"
  shows "\<exists>M'. Idt__double_fault fr ec ea M = Inr M' \<and> serial (log_state M') = serial (log_state M)
    @ int_line 144 (''double fault error_code: '' @ decimal (unat ec)) @ int_line 151 (frame_text fr)
    @ int_line 146 (''double fault stack location: '' @ decimal (unat ea)) @ int_line 147 ''panicked!''"
proof -
  note log = kernel_log_numbers [of _ "''./kern/interrupts.c''"]
  have t1: "fmt_text ''double fault error_code: %f'' (map any__u64 [ec]) = (''double fault error_code: '' @ decimal (unat ec), 1, True)"
    and t2: "fmt_text ''ExceptionStackFrame{ip=%f,cs=%f,flags=%f,sp=%f,ss=%f}''
      (map any__u64 [instruction_pointer fr, code_segment fr, cpu_flags fr, stack_pointer fr, stack_segment fr]) = (frame_text fr, 5, True)"
    and t3: "fmt_text ''double fault stack location: %f'' (map any__u64 [ea]) = (''double fault stack location: '' @ decimal (unat ea), 1, True)"
    and t4: "fmt_text ''panicked!'' (map any__u64 []) = (''panicked!'', 0, True)"
    by (simp_all add: NUL_def frame_text_def)
  obtain M1 where 1: "kernel_log_fmt ''./kern/interrupts.c'' 144 ''double fault error_code: %f'' [any__u64 ec] M = Inr M1"
    "log_ok (log_state M1)" "\<not> UseInterrupts (log_state M1)"
    "serial (log_state M1) = serial (log_state M) @ int_line 144 (''double fault error_code: '' @ decimal (unat ec))"
    using log [OF assms _ t1, of 144] by (auto simp: int_line_def)
  obtain M2 where 2: "Idt__log_fmt fr M1 = Inr M2" "log_ok (log_state M2)" "\<not> UseInterrupts (log_state M2)"
    "serial (log_state M2) = serial (log_state M1) @ int_line 151 (frame_text fr)"
    using log [OF 1(2,3) _ t2, of 151] by (auto simp: int_line_def Idt__log_fmt_def)
  obtain M3 where 3: "kernel_log_fmt ''./kern/interrupts.c'' 146 ''double fault stack location: %f'' [any__u64 ea] M2 = Inr M3"
    "log_ok (log_state M3)" "\<not> UseInterrupts (log_state M3)"
    "serial (log_state M3) = serial (log_state M2) @ int_line 146 (''double fault stack location: '' @ decimal (unat ea))"
    using log [OF 2(2,3) _ t3, of 146] by (auto simp: int_line_def)
  obtain M4 where 4: "kernel_log_fmt ''./kern/interrupts.c'' 147 ''panicked!'' [] M3 = Inr M4"
    "serial (log_state M4) = serial (log_state M3) @ int_line 147 ''panicked!''"
    using log [OF 3(2,3) _ t4, of 147] by (auto simp: int_line_def)
  show ?thesis by (simp add: Idt__double_fault_def 1 2 3 4)
qed

theorem double_fault_reports_witness:
  "\<exists>M'. Idt__double_fault \<lparr>instruction_pointer = 1, code_segment = 8, cpu_flags = 2, stack_pointer = 3, stack_segment = 0\<rparr> 0 4096
       (sample_machine sample_heap) = Inr M' \<and> serial (log_state M') \<noteq> []"
  using double_fault_reports [of "sample_machine sample_heap"
      "\<lparr>instruction_pointer = 1, code_segment = 8, cpu_flags = 2, stack_pointer = 3, stack_segment = 0\<rparr>" 0 4096] sample_log_ready
  by (auto simp: sample_machine_def int_line_def log_line_def)

end
