(* ===== verification/Tasks.thy ===== *)
theory Tasks
  imports Task_Queue Interrupts
begin

text \<open>
  The workers of \<^verbatim>\<open>src/kern/multitasking.c\<close>: adding a task to the first worker with room, looking
  for a task over all workers, and the initialisation. Each worker has a queue of
  \<^verbatim>\<open>Task_Queue\<close>. Objects in memory from the bump allocator and from zeroed pages start as zero. The
  number of cores and the identifier of the running core come from the boot loader and the
  processor: they are parameters.
\<close>

record TaskGlobals =
  workers :: "WorkerState list"
  worker_count :: u16
  init_count :: u16
  init_finish_count :: u16
  next_id :: s64
  task_data_alloc :: Bump

section \<open>Adding and finding tasks\<close>

text \<open>\<open>tries i\<close> lists the spurious failures in the call for the \<open>i\<close>-th queue that is looked at.\<close>

fun add_task_loop :: "(nat \<Rightarrow> bool list) \<Rightarrow> WorkerState list \<Rightarrow> s64 \<Rightarrow> TaskData \<Rightarrow> (bool \<times> WorkerState list \<times> s64) result" where
  "add_task_loop tries [] nid data = Inr (False, [], nid)"
| "add_task_loop tries (it # rest) nid data =
     bindR (enqueue_task (tries 0) it nid data) (\<lambda>(ok, it, nid).
     if ok then Inr (True, it # rest, nid)
     else bindR (add_task_loop (\<lambda>i. tries (Suc i)) rest nid data) (\<lambda>(ok, rest, nid). Inr (ok, it # rest, nid)))"

definition add_task_inner :: "(nat \<Rightarrow> bool list) \<Rightarrow> TaskData \<Rightarrow> TaskGlobals \<Rightarrow> (bool \<times> TaskGlobals) result" where
  "add_task_inner tries data g =
     bindR (add_task_loop tries (take (unat (worker_count g)) (workers g)) (next_id g) data) (\<lambda>(ok, ws, nid).
     Inr (ok, g\<lparr>workers := ws @ drop (unat (worker_count g)) (workers g), next_id := nid\<rparr>))"

fun worker_index_loop :: "WorkerState list \<Rightarrow> u16 \<Rightarrow> s64 \<Rightarrow> s64 option" where
  "worker_index_loop [] cid index = None"
| "worker_index_loop (it # rest) cid index = (if w_core_id it = cid then Some index else worker_index_loop rest cid (index + 1))"

text \<open>\<^verbatim>\<open>get_worker_index\<close>: the log line and \<^verbatim>\<open>exit(1)\<close> for an unknown core are the failure \<open>Shutdown 1\<close>.\<close>

definition get_worker_index :: "u16 \<Rightarrow> TaskGlobals \<Rightarrow> s64 result" where
  "get_worker_index core_id g =
     (case worker_index_loop (take (unat (worker_count g)) (workers g)) core_id 0 of
        Some index \<Rightarrow> Inr index | None \<Rightarrow> Inl (Shutdown 1))"

definition set_worker :: "s64 \<Rightarrow> WorkerState \<Rightarrow> TaskGlobals \<Rightarrow> TaskGlobals" where
  "set_worker i w g = g\<lparr>workers := (workers g)[nat i := w]\<rparr>"

text \<open>The search of \<^verbatim>\<open>task_main\<close>, lines 113--117, with the assignment to \<^verbatim>\<open>self->running_task\<close>.\<close>

fun find_task :: "(nat \<Rightarrow> bool list) \<Rightarrow> nat \<Rightarrow> s64 \<Rightarrow> s64 \<Rightarrow> TaskGlobals \<Rightarrow> TaskGlobals result" where
  "find_task tries 0 it self_index g = Inr g"
| "find_task tries (Suc n) it self_index g =
     (let worker_index = (it + self_index) mod uint (worker_count g) in
      bindR (idxR (workers g) worker_index) (\<lambda>w.
      bindR (dequeue_task (tries (nat it)) w) (\<lambda>(task, w).
      let g = set_worker worker_index w g in
      bindR (idxR (workers g) self_index) (\<lambda>self.
      let g = set_worker self_index (self\<lparr>running_task := task\<rparr>) g in
      if sync_info task \<noteq> Task__Empty then Inr g else find_task tries n (it + 1) self_index g))))"

record kernel_state =
  mach :: machine
  tasks :: TaskGlobals
  idt_obj :: "u64 \<times> IdtEntry list"

definition kernel_log :: "u32 \<Rightarrow> string \<Rightarrow> kernel_state \<Rightarrow> kernel_state result" where
  "kernel_log line t K = bindR (kernel_log_fmt ''./kern/multitasking.c'' line t [] (mach K)) (\<lambda>M. Inr (K\<lparr>mach := M\<rparr>))"

text \<open>\<^verbatim>\<open>task_main\<close> ends in \<^verbatim>\<open>exit(0)\<close> in its first round; its result is the state at that moment.\<close>

definition task_main :: "(nat \<Rightarrow> bool list) \<Rightarrow> u16 \<Rightarrow> kernel_state \<Rightarrow> kernel_state result" where
  "task_main tries core_id K =
     bindR (get_worker_index core_id (tasks K)) (\<lambda>self_index.
     bindR (find_task tries (unat (worker_count (tasks K))) 0 self_index (tasks K)) (\<lambda>g.
     let K = K\<lparr>tasks := g\<rparr> in
     bindR (idxR (workers g) self_index) (\<lambda>self.
     bindR (if sync_info (running_task self) = Task__Empty then kernel_log 119 ''Found no tasks'' K
            else kernel_log 121 ''Found a task'' K) (\<lambda>K.
     kernel_log 125 ''Kernel main end'' K))))"

definition task_begin :: "(nat \<Rightarrow> bool list) \<Rightarrow> u64 \<Rightarrow> u16 \<Rightarrow> kernel_state \<Rightarrow> kernel_state result" where
  "task_begin tries double_fault_addr core_id K =
     (let g = tasks K; index = init_count g; g = g\<lparr>init_count := index + 1\<rparr> in
      bindR (idxR (workers g) (uint index)) (\<lambda>state.
      let g = set_worker (uint index) (state\<lparr>w_core_id := core_id\<rparr>) g in
      bindR (get_worker_index core_id g) (\<lambda>self_index.
      bindR (load_idt double_fault_addr (mach K)) (\<lambda>(idt, M).
      let M = M\<lparr>cpu_state := (cpu_state M)\<lparr>tr := tss_segment self_index\<rparr>\<rparr>;
          g = g\<lparr>init_finish_count := init_finish_count g + 1\<rparr> in
      task_main tries core_id (K\<lparr>mach := M, tasks := g, idt_obj := idt\<rparr>)))))"

section \<open>Initialisation\<close>

definition sizeof_Task :: s64 where "sizeof_Task = 40"
definition sizeof_WorkerState :: s64 where "sizeof_WorkerState = 72"

definition new_worker :: "u64 \<Rightarrow> WorkerState" where
  "new_worker p = \<lparr>w_tasks = (if p = 0 then [] else replicate (nat (2 * 4096 div sizeof_Task)) empty_task),
     task_count = 2 * 4096 div sizeof_Task, w_core_id = 0, running_task = empty_task, read_from = 0, write_to = 0\<rparr>"

fun init_workers :: "nat \<Rightarrow> memory \<Rightarrow> (WorkerState list \<times> memory) result" where
  "init_workers 0 h = Inr ([], h)"
| "init_workers (Suc n) h =
     bindR (zeroed_pages h 2) (\<lambda>(p, h).
     bindR (init_workers n h) (\<lambda>(ws, h). Inr (new_worker p # ws, h)))"

definition tasks__init :: "u16 \<Rightarrow> machine \<Rightarrow> (TaskGlobals \<times> machine) result" where
  "tasks__init numcores M =
     bindR (Bump__bump_impl [] (InitAlloc M) (sizeof_WorkerState * uint numcores) 8) (\<lambda>(ws_ptr, b).
     bindR (Bump__new (heap M) 4) (\<lambda>(data_alloc, h).
     bindR (if ws_ptr = 0 \<and> numcores \<noteq> 0 then Inl OutOfBounds else init_workers (unat numcores) h) (\<lambda>(ws, h).
     let M = M\<lparr>heap := h, InitAlloc := b\<rparr> in
     bindR (kernel_log_fmt ''./kern/multitasking.c'' 63 ''tasks INIT_COMPLETE'' [] M) (\<lambda>M.
     Inr (\<lparr>workers = ws, worker_count = numcores, init_count = 0, init_finish_count = 0, next_id = 0,
           task_data_alloc = data_alloc\<rparr>, M)))))"

section \<open>The contract of a queue and its client\<close>

locale bounded_bag =
  fixes enq :: "'e \<Rightarrow> 'q \<Rightarrow> s64 \<Rightarrow> 'd \<Rightarrow> (bool \<times> 'q \<times> s64) result"
    and deq :: "'e \<Rightarrow> 'q \<Rightarrow> ('t \<times> 'q) result"
    and is_none :: "'t \<Rightarrow> bool"
    and item :: "'t \<Rightarrow> s64 \<times> 'd"
    and inv :: "'q \<Rightarrow> bool"
    and items :: "'q \<Rightarrow> (s64 \<times> 'd) multiset"
    and is_full :: "'q \<Rightarrow> bool"
  assumes enq_full: "inv q \<Longrightarrow> is_full q \<Longrightarrow> enq e q n d = Inr (False, q, n)"
    and enq_room: "inv q \<Longrightarrow> \<not> is_full q \<Longrightarrow> \<exists>q'. enq e q n d = Inr (True, q', n + 1) \<and> inv q' \<and> items q' = add_mset (n, d) (items q)"
    and deq_empty: "inv q \<Longrightarrow> items q = {#} \<Longrightarrow> \<exists>t. deq e q = Inr (t, q) \<and> is_none t"
    and deq_some: "inv q \<Longrightarrow> items q \<noteq> {#} \<Longrightarrow>
      \<exists>t q'. deq e q = Inr (t, q') \<and> \<not> is_none t \<and> inv q' \<and> items q = add_mset (item t) (items q')"
begin

definition total :: "'q list \<Rightarrow> (s64 \<times> 'd) multiset" where
  "total qs = sum_list (map items qs)"

fun first_fit :: "(nat \<Rightarrow> 'e) \<Rightarrow> 'q list \<Rightarrow> s64 \<Rightarrow> 'd \<Rightarrow> (bool \<times> 'q list \<times> s64) result" where
  "first_fit es [] n d = Inr (False, [], n)"
| "first_fit es (q # qs) n d =
     bindR (enq (es 0) q n d) (\<lambda>(ok, q, n). if ok then Inr (True, q # qs, n)
     else bindR (first_fit (\<lambda>i. es (Suc i)) qs n d) (\<lambda>(ok, qs, n). Inr (ok, q # qs, n)))"

lemma first_fit_full: "list_all inv qs \<Longrightarrow> list_all is_full qs \<Longrightarrow> first_fit es qs n d = Inr (False, qs, n)"
  by (induction qs arbitrary: es) (simp_all add: enq_full)

lemma first_fit_room:
  "list_all inv qs \<Longrightarrow> \<not> list_all is_full qs \<Longrightarrow>
   \<exists>qs'. first_fit es qs n d = Inr (True, qs', n + 1) \<and> list_all inv qs' \<and> length qs' = length qs \<and> total qs' = add_mset (n, d) (total qs)"
proof (induction qs arbitrary: es)
  case (Cons q qs)
  show ?case
  proof (cases "is_full q")
    case True
    then have "enq (es 0) q n d = Inr (False, q, n)" using Cons.prems(1) by (simp add: enq_full)
    then show ?thesis using Cons.IH [of "\<lambda>i. es (Suc i)"] Cons.prems True by (fastforce simp: total_def)
  next
    case False
    then obtain q' where "enq (es 0) q n d = Inr (True, q', n + 1)" "inv q'" "items q' = add_mset (n, d) (items q)"
      using Cons.prems(1) enq_room by force
    then show ?thesis using Cons.prems(1) by (simp add: total_def)
  qed
qed simp

end

interpretation tq: bounded_bag enqueue_task dequeue_task "\<lambda>t. sync_info t = Task__Empty" entry_of
    queue_inv "\<lambda>w. mset (queue_list w)" "\<lambda>w. int (length (queue_list w)) = task_count w"
proof
  fix tries q n d
  assume inv: "queue_inv q"
  show "enqueue_task tries q n d = Inr (False, q, n)" if "int (length (queue_list q)) = task_count q"
    using enqueue_task_spec(1) [OF inv that] .
  show "\<exists>q'. enqueue_task tries q n d = Inr (True, q', n + 1) \<and> queue_inv q' \<and> mset (queue_list q') = add_mset (n, d) (mset (queue_list q))"
    if "int (length (queue_list q)) \<noteq> task_count q"
    using enqueue_task_spec(2) [OF inv that, of tries n d] by (auto split: if_splits)
  show "\<exists>t. dequeue_task tries q = Inr (t, q) \<and> sync_info t = Task__Empty" if "mset (queue_list q) = {#}"
    using dequeue_task_spec(1) [OF inv] that by (simp add: empty_task_def)
  show "\<exists>t q'. dequeue_task tries q = Inr (t, q') \<and> sync_info t \<noteq> Task__Empty \<and> queue_inv q'
      \<and> mset (queue_list q) = add_mset (entry_of t) (mset (queue_list q'))" if "mset (queue_list q) \<noteq> {#}"
    using dequeue_task_spec(2) [OF inv] that
    by (cases "queue_list q") (force simp: Task__Reading_def Task__Empty_def)+
qed

lemma add_task_loop_eq: "add_task_loop tries ws nid data = tq.first_fit tries ws nid data"
proof (induction ws arbitrary: tries nid)
  case (Cons w ws)
  then show ?case by (simp, intro bindR_cong [OF refl]) auto
qed simp

section \<open>The pool of tasks\<close>

definition pool_ok :: "TaskGlobals \<Rightarrow> bool" where
  "pool_ok g \<longleftrightarrow> length (workers g) = unat (worker_count g) \<and> list_all queue_inv (workers g)"

definition pool :: "TaskGlobals \<Rightarrow> (s64 \<times> TaskData) multiset" where
  "pool g = sum_list (map (\<lambda>w. mset (queue_list w)) (workers g))"

definition pool_full :: "TaskGlobals \<Rightarrow> bool" where
  "pool_full g \<longleftrightarrow> list_all (\<lambda>w. int (length (queue_list w)) = task_count w) (workers g)"

lemma pool_len: "pool_ok g \<Longrightarrow> int (length (workers g)) = uint (worker_count g)"
  by (simp add: pool_ok_def)

lemma pool_worker: "pool_ok g \<Longrightarrow> i < length (workers g) \<Longrightarrow> queue_inv (workers g ! i)"
  by (simp add: pool_ok_def list_all_length)

lemma queue_running [simp]:
  "queue_list (w\<lparr>running_task := t\<rparr>) = queue_list w" "queue_inv (w\<lparr>running_task := t\<rparr>) = queue_inv w"
  "queue_list (w\<lparr>w_core_id := c\<rparr>) = queue_list w" "queue_inv (w\<lparr>w_core_id := c\<rparr>) = queue_inv w"
  by (simp_all add: queue_list_def queue_inv_def entries_at_def queued_def vacant_def slot_def ring_def wrapped_def)

lemma pool_set_worker:
  assumes "pool_ok g" "0 \<le> i" "i < int (length (workers g))" "queue_inv w"
  shows "pool_ok (set_worker i w g)"
    and "mset (queue_list (workers g ! nat i)) = M + mset (queue_list w) \<Longrightarrow> pool g = M + pool (set_worker i w g)"
proof -
  have i: "nat i < length (workers g)" using assms(2,3) by simp
  show "pool_ok (set_worker i w g)" using assms(1,4) i
    by (auto simp: pool_ok_def set_worker_def list_all_length nth_list_update)
  show "pool g = M + pool (set_worker i w g)" if "mset (queue_list (workers g ! nat i)) = M + mset (queue_list w)"
    using sum_mset_update [OF i, of "\<lambda>w. mset (queue_list w)" w] that
    by (simp add: pool_def set_worker_def ac_simps)
qed

lemma pool_empty_iff: "pool g = {#} \<longleftrightarrow> (\<forall>i<length (workers g). queue_list (workers g ! i) = [])"
proof -
  have "sum_list (map (\<lambda>w. mset (queue_list w)) ws) = {#} \<longleftrightarrow> (\<forall>w\<in>set ws. queue_list w = [])" for ws
    by (induction ws) simp_all
  then show ?thesis by (simp add: pool_def all_set_conv_all_nth)
qed

lemma set_worker_simps [simp]:
  "worker_count (set_worker i w g) = worker_count g" "next_id (set_worker i w g) = next_id g"
  "length (workers (set_worker i w g)) = length (workers g)" "init_count (set_worker i w g) = init_count g"
  by (simp_all add: set_worker_def)

text \<open>One round of the search: a task is taken out of the pool, or the worker has none.\<close>

definition running :: "s64 \<Rightarrow> TaskGlobals \<Rightarrow> Task" where
  "running i g = running_task (workers g ! nat i)"

text \<open>\<open>give_task wi self t w' g\<close>: worker \<open>wi\<close> is left as \<open>w'\<close> and worker \<open>self\<close> runs \<open>t\<close>.\<close>

definition give_task :: "s64 \<Rightarrow> s64 \<Rightarrow> Task \<Rightarrow> WorkerState \<Rightarrow> TaskGlobals \<Rightarrow> TaskGlobals" where
  "give_task wi self t w' g = (let h = set_worker wi w' g in set_worker self ((workers h ! nat self)\<lparr>running_task := t\<rparr>) h)"

lemma give_task_ok:
  assumes ok: "pool_ok g" and wi: "0 \<le> wi" "wi < int (length (workers g))" and s: "0 \<le> self" "self < int (length (workers g))" and w': "queue_inv w'"
  shows "running self (give_task wi self t w' g) = t" "pool_ok (give_task wi self t w' g)"
    "pool (give_task wi self t w' g) = pool (set_worker wi w' g)" "worker_count (give_task wi self t w' g) = worker_count g"
proof -
  have h: "pool_ok (set_worker wi w' g)" using pool_set_worker(1) [OF ok wi w'] .
  have "nat self < length (workers (set_worker wi w' g))" unfolding set_worker_simps using s by linarith
  then have "queue_inv (workers (set_worker wi w' g) ! nat self)" by (rule pool_worker [OF h])
  then have q: "queue_inv ((workers (set_worker wi w' g) ! nat self)\<lparr>running_task := t\<rparr>)" by simp
  show "running self (give_task wi self t w' g) = t" using s by (simp add: running_def give_task_def Let_def set_worker_def)
  show "pool_ok (give_task wi self t w' g)" "worker_count (give_task wi self t w' g) = worker_count g"
    using pool_set_worker(1) [OF h s(1) _ q] s by (simp_all add: give_task_def Let_def)
  show "pool (give_task wi self t w' g) = pool (set_worker wi w' g)"
    using pool_set_worker(2) [OF h s(1) _ q, of "{#}"] s by (simp add: give_task_def Let_def)
qed

lemma give_task_none:
  assumes "0 \<le> self" "self < int (length (workers g))"
  shows "set_worker wi (workers g ! nat wi) g = g"
    and "i < length (workers g) \<Longrightarrow> queue_list (workers (give_task wi self t (workers g ! nat wi) g) ! i) = queue_list (workers g ! i)"
proof -
  show same: "set_worker wi (workers g ! nat wi) g = g" by (simp add: set_worker_def)
  show "queue_list (workers (give_task wi self t (workers g ! nat wi) g) ! i) = queue_list (workers g ! i)" if "i < length (workers g)"
    unfolding give_task_def Let_def same using that by (cases "i = nat self") (simp_all add: set_worker_def)
qed

lemma find_task_round:
  fixes it :: s64
  assumes ok: "pool_ok g" and s: "0 \<le> self" "self < uint (worker_count g)"
  defines "wi \<equiv> (it + self) mod uint (worker_count g)"
  shows "queue_list (workers g ! nat wi) = [] \<Longrightarrow>
      \<exists>g'. find_task tries (Suc n) it self g = find_task tries n (it + 1) self g' \<and> pool_ok g' \<and> worker_count g' = worker_count g
        \<and> sync_info (running self g') = Task__Empty \<and> pool g' = pool g
        \<and> (\<forall>i<length (workers g). queue_list (workers g' ! i) = queue_list (workers g ! i))"
    and "queue_list (workers g ! nat wi) \<noteq> [] \<Longrightarrow>
      \<exists>g'. find_task tries (Suc n) it self g = Inr g' \<and> pool_ok g' \<and> worker_count g' = worker_count g \<and> sync_info (running self g') \<noteq> Task__Empty
        \<and> pool g = add_mset (entry_of (running self g')) (pool g')"
proof -
  define w where "w = workers g ! nat wi"
  have len: "int (length (workers g)) = uint (worker_count g)" using ok by (simp add: pool_ok_def)
  have wi: "0 \<le> wi" "wi < int (length (workers g))" and s': "self < int (length (workers g))" using s len by (simp_all add: wi_def)
  have inv: "queue_inv w" unfolding w_def using wi by (intro pool_worker [OF ok]) linarith
  have idx: "idxR (workers g) wi = Inr w" using wi by (simp add: w_def)
  have run: "find_task tries (Suc n) it self g = (let g' = give_task wi self t w' g in if sync_info t \<noteq> Task__Empty then Inr g' else find_task tries n (it + 1) self g')"
    if "dequeue_task (tries (nat it)) w = Inr (t, w')" for t w'
    using that idx s len by (simp add: wi_def [symmetric] give_task_def Let_def)
  note give = give_task_ok [OF ok wi s(1) s']
  show "\<exists>g'. find_task tries (Suc n) it self g = find_task tries n (it + 1) self g' \<and> pool_ok g' \<and> worker_count g' = worker_count g
        \<and> sync_info (running self g') = Task__Empty \<and> pool g' = pool g
        \<and> (\<forall>i<length (workers g). queue_list (workers g' ! i) = queue_list (workers g ! i))"
    if "queue_list (workers g ! nat wi) = []"
  proof -
    have d: "dequeue_task (tries (nat it)) w = Inr (empty_task, w)" using that dequeue_task_spec(1) [OF inv] by (simp add: w_def)
    show ?thesis using run [OF d] give [OF inv, of empty_task] give_task_none [OF s(1) s', where wi = wi]
      by (intro exI [of _ "give_task wi self empty_task w g"]) (simp add: w_def empty_task_def Let_def)
  qed
  show "\<exists>g'. find_task tries (Suc n) it self g = Inr g' \<and> pool_ok g' \<and> worker_count g' = worker_count g \<and> sync_info (running self g') \<noteq> Task__Empty
        \<and> pool g = add_mset (entry_of (running self g')) (pool g')"
    if ne: "queue_list (workers g ! nat wi) \<noteq> []"
  proof -
    obtain t w' where d: "dequeue_task (tries (nat it)) w = Inr (t, w')" "sync_info t \<noteq> Task__Empty" "queue_inv w'"
      "mset (queue_list w) = add_mset (entry_of t) (mset (queue_list w'))"
      using tq.deq_some [OF inv, of "tries (nat it)"] ne by (auto simp: w_def)
    then show ?thesis
      using run [OF d(1)] give [OF d(3), of t] pool_set_worker(2) [OF ok wi d(3), of "{#entry_of t#}"]
      by (intro exI [of _ "give_task wi self t w' g"]) (simp add: w_def Let_def)
  qed
qed

lemma find_task_spec:
  assumes "pool_ok g" "0 \<le> self" "self < uint (worker_count g)" "0 \<le> it" "it + int n = uint (worker_count g)"
    and "\<forall>j. 0 \<le> j \<longrightarrow> j < it \<longrightarrow> queue_list (workers g ! nat ((j + self) mod uint (worker_count g))) = []"
    and "it = 0 \<or> sync_info (running self g) = Task__Empty"
  shows "\<exists>g'. find_task tries n it self g = Inr g' \<and> pool_ok g' \<and> worker_count g' = worker_count g \<and>
    (if pool g = {#} then sync_info (running self g') = Task__Empty \<and> pool g' = {#}
     else sync_info (running self g') \<noteq> Task__Empty \<and> pool g = add_mset (entry_of (running self g')) (pool g'))"
  using assms
proof (induction n arbitrary: it g)
  case 0
  let ?c = "uint (worker_count g)"
  have "queue_list (workers g ! i) = []" if "i < length (workers g)" for i
  proof -
    have i: "int i < ?c" using that pool_len [OF 0(1)] by linarith
    let ?j = "(int i - self) mod ?c"
    have "(?j + self) mod ?c = int i" using i by (simp add: mod_add_left_eq)
    moreover have "0 \<le> ?j" "?j < it" using i 0(5) by simp_all
    ultimately show ?thesis using 0(6) by fastforce
  qed
  then have "pool g = {#}" by (simp add: pool_empty_iff)
  then show ?case using 0 by auto
next
  case (Suc n)
  let ?wi = "(it + self) mod uint (worker_count g)"
  show ?case
  proof (cases "queue_list (workers g ! nat ?wi) = []")
    case True
    obtain g1 where g1: "find_task tries (Suc n) it self g = find_task tries n (it + 1) self g1" "pool_ok g1" "worker_count g1 = worker_count g"
      "sync_info (running self g1) = Task__Empty" "pool g1 = pool g"
      "\<forall>i<length (workers g). queue_list (workers g1 ! i) = queue_list (workers g ! i)"
      using find_task_round(1) [OF Suc.prems(1-3) True, of tries] by blast
    have seen: "queue_list (workers g1 ! nat ((j + self) mod uint (worker_count g1))) = []" if "0 \<le> j" "j < it + 1" for j
    proof -
      have "nat ((j + self) mod uint (worker_count g)) < length (workers g)"
        using Suc.prems(1-3) by (simp add: pool_ok_def nat_less_iff)
      moreover have "j = it \<or> j < it" using that(2) by linarith
      ultimately show ?thesis using g1(3,6) True Suc.prems(6) that(1) by auto
    qed
    show ?thesis
      unfolding g1(1) g1(5) [symmetric] g1(3) [symmetric] using Suc.prems(2-5) g1(3,4) seen by (intro Suc.IH [OF g1(2)]) auto
  next
    case False
    then have "pool g \<noteq> {#}"
      using Suc.prems(1-3) unfolding pool_empty_iff by (auto simp: pool_ok_def nat_less_iff intro!: exI [of _ "nat ?wi"])
    then show ?thesis using find_task_round(2) [OF Suc.prems(1-3) False, of tries n] by auto
  qed
qed

section \<open>Properties\<close>

lemma add_task_inner_eq:
  assumes "pool_ok g"
  shows "pool_full g \<Longrightarrow> add_task_inner tries data g = Inr (False, g)"
    and "\<not> pool_full g \<Longrightarrow> \<exists>g'. add_task_inner tries data g = Inr (True, g') \<and> pool_ok g' \<and> next_id g' = next_id g + 1
           \<and> pool g' = add_mset (next_id g, data) (pool g)"
proof -
  have t: "take (unat (worker_count g)) (workers g) = workers g" "drop (unat (worker_count g)) (workers g) = []"
    and inv: "list_all queue_inv (workers g)" using assms by (simp_all add: pool_ok_def)
  show "add_task_inner tries data g = Inr (False, g)" if "pool_full g"
    using tq.first_fit_full [OF inv, of tries "next_id g" data] that
    by (simp add: add_task_inner_def t add_task_loop_eq pool_full_def)
  show "\<exists>g'. add_task_inner tries data g = Inr (True, g') \<and> pool_ok g' \<and> next_id g' = next_id g + 1
           \<and> pool g' = add_mset (next_id g, data) (pool g)" if "\<not> pool_full g"
    using tq.first_fit_room [OF inv, of tries "next_id g" data] that assms
    by (auto simp: add_task_inner_def t add_task_loop_eq pool_full_def pool_ok_def pool_def tq.total_def)
qed

text \<open>C15. The task queues refine one bag of tasks. Adding a task puts it into the bag with a fresh identifier,
  and fails, changing nothing, exactly when the queue of every worker is full; looking for a task from any
  worker takes one out of the bag and reports none exactly when the bag is empty. No call panics, loses a
  task or returns one twice, whatever weak exchanges fail spuriously.\<close>

theorem task_pool_refines_bag:
  assumes "pool_ok g" "0 \<le> self" "self < uint (worker_count g)"
  shows "(if pool_full g then add_task_inner tries data g = Inr (False, g)
          else \<exists>g'. add_task_inner tries data g = Inr (True, g') \<and> pool_ok g' \<and> next_id g' = next_id g + 1
                 \<and> pool g' = add_mset (next_id g, data) (pool g))
       \<and> (\<exists>g'. find_task tries (unat (worker_count g)) 0 self g = Inr g' \<and> pool_ok g' \<and>
            (if pool g = {#} then sync_info (running self g') = Task__Empty \<and> pool g' = {#}
             else sync_info (running self g') \<noteq> Task__Empty \<and> pool g = add_mset (entry_of (running self g')) (pool g')))"
proof (rule conjI)
  show "if pool_full g then add_task_inner tries data g = Inr (False, g)
        else \<exists>g'. add_task_inner tries data g = Inr (True, g') \<and> pool_ok g' \<and> next_id g' = next_id g + 1
               \<and> pool g' = add_mset (next_id g, data) (pool g)"
    using add_task_inner_eq [OF assms(1)] by simp
  show "\<exists>g'. find_task tries (unat (worker_count g)) 0 self g = Inr g' \<and> pool_ok g' \<and>
            (if pool g = {#} then sync_info (running self g') = Task__Empty \<and> pool g' = {#}
             else sync_info (running self g') \<noteq> Task__Empty \<and> pool g = add_mset (entry_of (running self g')) (pool g'))"
    using find_task_spec [OF assms, of 0 "unat (worker_count g)" tries] by auto
qed

lemma new_worker_ok:
  assumes "p \<noteq> 0"
  shows "queue_inv (new_worker p)" "queue_list (new_worker p) = []" "task_count (new_worker p) = 204"
proof -
  have n: "task_count (new_worker p) = 204" "length (w_tasks (new_worker p)) = 204" "read_from (new_worker p) = 0" "write_to (new_worker p) = 0"
    using assms by (simp_all add: new_worker_def sizeof_Task_def)
  have "nat (i mod 204) < 204" for i :: int by (simp add: nat_less_iff)
  then have s: "slot (new_worker p) i = empty_task" for i
    using assms unfolding slot_def n by (simp add: new_worker_def sizeof_Task_def)
  show "queue_inv (new_worker p)" unfolding queue_inv_def n ring_def
    by (simp add: n vacant_def s) (simp add: empty_task_def)
  show "queue_list (new_worker p) = []" "task_count (new_worker p) = 204"
    unfolding queue_list_def n by (simp_all add: entries_at_def queued_def s empty_task_def Task__Empty_def Task__Queued_def)
qed

definition sample_tasks :: TaskGlobals where
  "sample_tasks = \<lparr>workers = [new_worker 4096, new_worker 8192], worker_count = 2, init_count = 0, init_finish_count = 0,
     next_id = 7, task_data_alloc = \<lparr>bump_begin = 4096, bump_count = 4096, bump_idx = 0\<rparr>\<rparr>"

lemma sample_tasks_ok: "pool_ok sample_tasks" "pool sample_tasks = {#}" "\<not> pool_full sample_tasks" "uint (worker_count sample_tasks) = 2"
  by (simp_all add: sample_tasks_def pool_ok_def pool_def pool_full_def new_worker_ok)

theorem task_pool_refines_bag_witness:
  "(\<exists>g'. add_task_inner (\<lambda>_. [True, False]) no_data sample_tasks = Inr (True, g') \<and> pool_ok g' \<and> pool g' = {#(next_id sample_tasks, no_data)#})
   \<and> (\<exists>g'. find_task (\<lambda>_. [True, False]) 2 0 1 sample_tasks = Inr g' \<and> sync_info (running 1 g') = Task__Empty)"
  using task_pool_refines_bag [OF sample_tasks_ok(1), of 1 "\<lambda>_. [True, False]" no_data] sample_tasks_ok(2-4) unat_eq_nat_uint [of "worker_count sample_tasks"]
  by auto

end
