(* ===== verification/Kernel.thy ===== *)
theory Kernel
  imports Memory_Init Tasks
begin

text \<open>
  The entry of the kernel, \<^verbatim>\<open>src/kern/main.c\<close>: the boot core checks what the processor offers, initialises
  memory, descriptor tables and tasks, and becomes the first worker; every other core halts. What the
  \<^verbatim>\<open>cpuid\<close> instruction answers and the address of the double fault handler are arguments.
\<close>

section \<open>Model\<close>

record cpuid_result =
  c_eax :: u32
  c_ebx :: u32
  c_ecx :: u32
  c_edx :: u32

definition CPUID_EDX_APIC :: u64 where "CPUID_EDX_APIC = push_bit 9 1"
definition CPUID_EDX_PDPE1GB :: u64 where "CPUID_EDX_PDPE1GB = push_bit 26 1"

definition core_id :: "(u32 \<Rightarrow> cpuid_result) \<Rightarrow> u16" where
  "core_id asm_cpuid = ucast (drop_bit 24 (c_ebx (asm_cpuid 1)))"

definition main_log :: "u32 \<Rightarrow> string \<Rightarrow> machine \<Rightarrow> machine result" where
  "main_log line t M = bindR (ext__log [] \<lparr>loc_file = Some ''./kern/main.c'', loc_line = line\<rparr> [any__char_ptr (Some t)] (log_state M))
     (\<lambda>l. Inr (M\<lparr>log_state := l\<rparr>))"

definition init :: "(nat \<Rightarrow> bool list) \<Rightarrow> (u32 \<Rightarrow> cpuid_result) \<Rightarrow> u64 \<Rightarrow> symbols \<Rightarrow> BOOTBOOT \<Rightarrow> machine \<Rightarrow> (BOOTBOOT \<times> kernel_state) result option" where
  "init tries asm_cpuid double_fault_addr ld bb M =
     bindP (Some (main_log 8 ''--------------------------------------------------'' M)) (\<lambda>M.
     bindP (Some (main_log 9 ''                    BOOTING UP                    '' M)) (\<lambda>M.
     bindP (Some (main_log 10 ''--------------------------------------------------'' M)) (\<lambda>M.
     let gb_pages = (ucast (ucast (c_edx (asm_cpuid 0x80000001)) AND CPUID_EDX_PDPE1GB) :: u32) in
     bindP (Some (if gb_pages \<noteq> 0 then main_log 13 ''gb pages are enabled'' M else Inr M)) (\<lambda>M.
     let apic_enabled = (ucast (ucast (c_edx (asm_cpuid 1)) AND CPUID_EDX_APIC) :: u32) in
     bindP (Some (assertR (apic_enabled \<noteq> 0) ''APIC was not enabled'')) (\<lambda>_.
     bindP (Some (main_log 17 ''APIC is enabled'' M)) (\<lambda>M.
     bindP (memory__init ld bb M) (\<lambda>(bb, M).
     bindP (Some (descriptor__init M)) (\<lambda>M.
     bindP (Some (tasks__init (bb_numcores bb) M)) (\<lambda>(g, M).
     bindP (Some (task_begin tries double_fault_addr (core_id asm_cpuid) \<lparr>mach = M, tasks = g, idt_obj = (0, [])\<rparr>)) (\<lambda>K.
     Some (Inr (bb, K))))))))))))"

text \<open>\<^verbatim>\<open>while (true) { asm_hlt(); pause(); }\<close>: neither instruction changes the machine.\<close>

partial_function (option) hlt_loop :: "machine \<Rightarrow> (BOOTBOOT \<times> kernel_state) result option" where
  "hlt_loop M = hlt_loop M"

text \<open>
  \<^verbatim>\<open>_start\<close>: the boot core runs \<^verbatim>\<open>init\<close>, which does not return but ends in the \<^verbatim>\<open>exit(0)\<close> of \<^verbatim>\<open>task_main\<close>; its result is the
  state at that moment. Every core runs \<^verbatim>\<open>_start\<close>; the others go to the loop of \<^verbatim>\<open>hlt\<close> at once. \<open>tries\<close> are the spurious failures
  of the weak exchanges while the boot core looks at the task queues; those of the log and of the bump allocator change
  nothing (\<open>ext__log_fmt_tries\<close>, \<open>ext__log_tries\<close>, \<open>Bump__bump_impl_tries\<close>).
\<close>

definition start :: "(nat \<Rightarrow> bool list) \<Rightarrow> (u32 \<Rightarrow> cpuid_result) \<Rightarrow> u64 \<Rightarrow> symbols \<Rightarrow> BOOTBOOT \<Rightarrow> machine \<Rightarrow> (BOOTBOOT \<times> kernel_state) result option" where
  "start tries asm_cpuid double_fault_addr ld bb M =
     (if core_id asm_cpuid = bb_bspid bb then init tries asm_cpuid double_fault_addr ld bb M else hlt_loop M)"

lemma hlt_loop_never: "hlt_loop M = None"
proof -
  have "False" if ret: "hlt_loop M = Some r" for r
    by (rule hlt_loop.raw_induct [where P = "\<lambda>_ _. False", OF _ ret]) blast
  then show ?thesis by (cases "hlt_loop M") auto
qed

section \<open>The workers\<close>

text \<open>\<open>taken N s s'\<close>: pages were taken from the free ones, and only those were written.\<close>

definition taken :: "int \<Rightarrow> memory \<Rightarrow> memory \<Rightarrow> bool" where
  "taken N s s' \<longleftrightarrow> heap_ok N s' \<and> free_set s' \<subseteq> free_set s \<and> keeps (free_set s) s s'"

lemma taken_trans: "taken N s s1 \<Longrightarrow> taken N s1 s2 \<Longrightarrow> taken N s s2"
  unfolding taken_def keeps_def by (metis subset_iff)

lemma allocated_taken: "allocated N s n x s' \<Longrightarrow> taken N s s'"
  by (auto simp: allocated_def taken_def)

lemma init_workers_spec:
  assumes "heap_ok N h" "n \<le> card (free_quads h)"
  shows "\<exists>ws h'. init_workers n h = Inr (ws, h') \<and> taken N h h' \<and> length ws = n \<and> (\<forall>w\<in>set ws. \<exists>p. p \<noteq> 0 \<and> w = new_worker p)"
  using assms
proof (induction n arbitrary: h)
  case 0
  then show ?case by (simp add: taken_def keeps_def)
next
  case (Suc n)
  obtain x h1 where z: "zeroed_pages h 2 = Inr (page_ptr x, h1)" "page_ptr x \<noteq> 0" "allocated N h 2 x h1"
    by (rule quad_zeroed [OF Suc.prems(1), of 2]) (use Suc.prems(2) in auto)
  have "n \<le> card (free_quads h1)" using allocated_quads [OF Suc.prems(1) z(3)] Suc.prems(2) by (simp add: spends_def)
  then obtain ws h' where "init_workers n h1 = Inr (ws, h')" "taken N h1 h'" "length ws = n" "\<forall>w\<in>set ws. \<exists>p. p \<noteq> 0 \<and> w = new_worker p"
    using Suc.IH [of h1] z(3) by (auto simp: allocated_def)
  then show ?case using z taken_trans [OF allocated_taken [OF z(3)]] by auto
qed

section \<open>The tasks\<close>

lemma new_workers_pool:
  assumes "length ws = unat n" "\<forall>w\<in>set ws. \<exists>p. p \<noteq> 0 \<and> w = new_worker p"
  shows "pool_ok \<lparr>workers = ws, worker_count = n, init_count = i, init_finish_count = f, next_id = k, task_data_alloc = a\<rparr>"
    and "pool \<lparr>workers = ws, worker_count = n, init_count = i, init_finish_count = f, next_id = k, task_data_alloc = a\<rparr> = {#}"
proof -
  have w: "queue_inv w" "queue_list w = []" if "w \<in> set ws" for w using assms(2) that new_worker_ok by auto
  show "pool_ok \<lparr>workers = ws, worker_count = n, init_count = i, init_finish_count = f, next_id = k, task_data_alloc = a\<rparr>"
    using assms(1) w by (simp add: pool_ok_def list_all_iff)
  show "pool \<lparr>workers = ws, worker_count = n, init_count = i, init_finish_count = f, next_id = k, task_data_alloc = a\<rparr> = {#}"
    using w by (simp add: pool_empty_iff)
qed

definition task_line :: "u32 \<Rightarrow> string \<Rightarrow> string" where
  "task_line line t = log_line (prefix_text \<lparr>loc_file = Some ''./kern/multitasking.c'', loc_line = line\<rparr> @ t)"

lemma task_log_ok:
  assumes "log_ready (log_state M)" "list_all (\<lambda>c. c \<noteq> NUL \<and> c \<noteq> CHR ''%'') t"
  shows "\<exists>M'. kernel_log_fmt ''./kern/multitasking.c'' line t [] M = Inr M' \<and> logged M M' (task_line line t)"
  using kernel_log_logged [OF assms(1) _ assms(2), of "''./kern/multitasking.c''" line] by (simp add: task_line_def)

lemma tasks__init_run:
  assumes ok: "heap_ok N (heap M)" "unat n + 1 \<le> card (free_quads (heap M))"
    and alloc: "alloc_placed (InitAlloc M)" "bump_idx (InitAlloc M) + 7 + 72 * uint n \<le> bump_count (InitAlloc M)" "0 < n"
    and log: "log_ready (log_state M)"
  obtains g h i M' where "tasks__init n M = Inr (g, M')" "logged (M\<lparr>heap := h, InitAlloc := (InitAlloc M)\<lparr>bump_idx := i\<rparr>\<rparr>) M' (task_line 63 ''tasks INIT_COMPLETE'')"
    "taken N (heap M) h" "bump_idx (InitAlloc M) \<le> i" "i < bump_idx (InitAlloc M) + 8 + 72 * uint n" "i \<le> bump_count (InitAlloc M)"
    "pool_ok g" "pool g = {#}" "worker_count g = n" "init_count g = 0" "init_finish_count g = 0" "next_id g = 0"
proof -
  define b where "b = InitAlloc M"
  define r where "r = round_up (bump_idx b) 3"
  have bo: "bump_ok b" and i0: "0 \<le> bump_idx b" using alloc(1) by (auto simp: b_def alloc_placed_def bump_ok_def)
  have r: "bump_idx b \<le> r" "r < bump_idx b + 8" using round_up [where i = "bump_idx b" and k = 3] by (simp_all add: r_def)
  have un: "0 < uint n" "uint n < 2 ^ 16" using alloc(3) uint_bounded [of n] by (simp_all add: word_less_def)
  have fit: "r + 72 * uint n \<le> bump_count b" using alloc(2) r(2) by (simp add: b_def)
  have b1: "Bump__bump_impl [] b (sizeof_WorkerState * uint n) 8 = Inr (bump_begin b + U64 r, b\<lparr>bump_idx := r + 72 * uint n\<rparr>)"
    using Bump__bump_impl_eq [OF bo, of 3 "72 * uint n" "[]"] fit un by (simp add: r_def sizeof_WorkerState_def)
  have nz: "bump_begin b + U64 r \<noteq> 0" using alloc_placed_nonzero [of b r] alloc(1) r(1) i0 fit un by (simp add: b_def)
  obtain x h1 where z: "zeroed_pages (heap M) 4 = Inr (page_ptr x, h1)" "page_ptr x \<noteq> 0" "allocated N (heap M) 4 x h1"
    by (rule quad_zeroed [OF ok(1), of 4]) (use ok(2) in auto)
  have "unat n \<le> card (free_quads h1)" using allocated_quads [OF ok(1) z(3)] ok(2) by (simp add: spends_def)
  then obtain ws h where w: "init_workers (unat n) h1 = Inr (ws, h)" "taken N h1 h" "length ws = unat n" "\<forall>w\<in>set ws. \<exists>p. p \<noteq> 0 \<and> w = new_worker p"
    using init_workers_spec [of N h1 "unat n"] z(3) by (auto simp: allocated_def)
  define M1 where "M1 = M\<lparr>heap := h, InitAlloc := b\<lparr>bump_idx := r + 72 * uint n\<rparr>\<rparr>"
  obtain M' where M': "kernel_log_fmt ''./kern/multitasking.c'' 63 ''tasks INIT_COMPLETE'' [] M1 = Inr M'" "logged M1 M' (task_line 63 ''tasks INIT_COMPLETE'')"
    using task_log_ok [of M1 "''tasks INIT_COMPLETE''" 63] log by (auto simp: M1_def NUL_def)
  define g where "g = \<lparr>workers = ws, worker_count = n, init_count = 0, init_finish_count = 0, next_id = 0,
      task_data_alloc = \<lparr>bump_begin = page_ptr x, bump_count = 4 * 4096, bump_idx = 0\<rparr>\<rparr>"
  have bn: "Bump__new (heap M) 4 = Inr (\<lparr>bump_begin = page_ptr x, bump_count = 4 * 4096, bump_idx = 0\<rparr>, h1)"
    using z(1,2) by (simp add: Bump__new_def ext__alloc_pages_def s64_chk_def s64_ok_def)
  have "tasks__init n M = Inr (g, M')"
    unfolding tasks__init_def b_def [symmetric] b1 bindR_Inr prod.case bn using nz w(1) M'(1) by (simp add: g_def M1_def)
  moreover have "pool_ok g" "pool g = {#}" using new_workers_pool [OF w(3,4)] by (simp_all add: g_def)
  ultimately show thesis
    using that [where g = g and M' = M' and h = h and i = "r + 72 * uint n"] M'(2) taken_trans [OF allocated_taken [OF z(3)] w(2)] r fit un
    by (simp add: g_def M1_def b_def)
qed

lemma worker_found:
  assumes "pool_ok g" "0 < worker_count g" "w_core_id (workers g ! 0) = cid"
  shows "get_worker_index cid g = Inr 0"
proof -
  have "length (workers g) = unat (worker_count g)" "0 < unat (worker_count g)"
    using assms(1,2) by (simp_all add: pool_ok_def word_less_nat_alt)
  then obtain w ws where "workers g = w # ws" "take (unat (worker_count g)) (workers g) = w # ws" by (cases "workers g") auto
  then show ?thesis using assms(3) by (simp add: get_worker_index_def)
qed

text \<open>The first worker: with no task in any queue, \<^verbatim>\<open>task_main\<close> says so and stops.\<close>

lemma task_main_idle:
  assumes g: "pool_ok (tasks K)" "pool (tasks K) = {#}" "0 < worker_count (tasks K)" "w_core_id (workers (tasks K) ! 0) = cid"
    and log: "log_ready (log_state (mach K))"
  obtains M g' where "task_main tries cid K = Inr (K\<lparr>mach := M, tasks := g'\<rparr>)" "pool_ok g'" "pool g' = {#}"
    "logged (mach K) M (task_line 119 ''Found no tasks'' @ task_line 125 ''Kernel main end'')"
proof -
  have n: "0 < uint (worker_count (tasks K))" using g(3) by (simp add: word_less_def)
  obtain g' where g': "find_task tries (unat (worker_count (tasks K))) 0 0 (tasks K) = Inr g'" "pool_ok g'" "worker_count g' = worker_count (tasks K)"
      "sync_info (running 0 g') = Task__Empty" "pool g' = {#}"
    using find_task_spec [OF g(1), of 0 0 "unat (worker_count (tasks K))" tries] n g(2) by auto
  have "0 < length (workers g')" using g'(2,3) g(3) by (simp add: pool_ok_def word_less_nat_alt)
  then have ix: "idxR (workers g') 0 = Inr (workers g' ! 0)" by (simp add: idxR_def)
  obtain M1 where 1: "kernel_log_fmt ''./kern/multitasking.c'' 119 ''Found no tasks'' [] (mach K) = Inr M1" "logged (mach K) M1 (task_line 119 ''Found no tasks'')"
    using task_log_ok [OF log, of "''Found no tasks''" 119] by (auto simp: NUL_def)
  obtain M where 2: "kernel_log_fmt ''./kern/multitasking.c'' 125 ''Kernel main end'' [] M1 = Inr M" "logged M1 M (task_line 125 ''Kernel main end'')"
    using task_log_ok [of M1 "''Kernel main end''" 125] logged_fields [OF 1(2)] by (auto simp: NUL_def)
  have "task_main tries cid K = Inr (K\<lparr>mach := M, tasks := g'\<rparr>)"
    using worker_found [OF g(1,3,4)] g'(1,4) ix 1(1) 2(1) by (simp add: task_main_def kernel_log_def running_def)
  then show thesis using that g'(2,5) logged_trans [OF 1(2) 2(2)] by blast
qed

lemma pool_counts [simp]:
  "pool_ok (g\<lparr>init_count := a\<rparr>) = pool_ok g" "pool (g\<lparr>init_count := a\<rparr>) = pool g"
  "pool_ok (g\<lparr>init_finish_count := a\<rparr>) = pool_ok g" "pool (g\<lparr>init_finish_count := a\<rparr>) = pool g"
  by (simp_all add: pool_ok_def pool_def)

lemma task_begin_run:
  assumes g: "pool_ok (tasks K)" "pool (tasks K) = {#}" "0 < worker_count (tasks K)" "init_count (tasks K) = 0"
    and alloc: "alloc_placed (InitAlloc (mach K))" "bump_idx (InitAlloc (mach K)) + 4099 \<le> bump_count (InitAlloc (mach K))"
    and log: "log_ready (log_state (mach K))"
  obtains i K' where "task_begin tries df cid K = Inr K'" "pool_ok (tasks K')" "pool (tasks K') = {#}"
    "idt_obj K' = (bump_begin (InitAlloc (mach K)) + U64 i, idt_entries (cs (cpu_state (mach K))) df)"
    "logged ((mach K)\<lparr>InitAlloc := (InitAlloc (mach K))\<lparr>bump_idx := i + 4096\<rparr>, cpu_state := (cpu_state (mach K))\<lparr>idtr_size := 4095,
       idtr_base := bump_begin (InitAlloc (mach K)) + U64 i, tr := 16\<rparr>\<rparr>) (mach K') (task_line 119 ''Found no tasks'' @ task_line 125 ''Kernel main end'')"
    "bump_idx (InitAlloc (mach K)) \<le> i" "i + 4096 \<le> bump_count (InitAlloc (mach K))"
proof -
  define g0 where "g0 = (tasks K)\<lparr>init_count := 1\<rparr>"
  have len: "0 < length (workers (tasks K))" using g(1,3) by (simp add: pool_ok_def word_less_nat_alt)
  then have inv: "queue_inv (workers (tasks K) ! 0)" using pool_worker [OF g(1)] by blast
  define w where "w = (workers (tasks K) ! 0)\<lparr>w_core_id := cid\<rparr>"
  define g1 where "g1 = set_worker 0 w g0"
  have w: "queue_inv w" "queue_list w = queue_list (workers g0 ! 0)" using inv by (simp_all add: w_def g0_def)
  have g0: "pool_ok g0" "pool g0 = {#}" "0 < int (length (workers g0))" using g(1,2) len by (simp_all add: g0_def)
  have g1: "pool_ok g1" "pool g1 = {#}" "0 < worker_count g1" "w_core_id (workers g1 ! 0) = cid"
    using pool_set_worker(1) [OF g0(1) _ g0(3) w(1)] pool_set_worker(2) [OF g0(1) _ g0(3) w(1), of "{#}"] g0(2) w(2) g(3) len
    by (simp_all add: g1_def) (simp add: set_worker_def g0_def w_def)+
  obtain i where i: "bump_idx (InitAlloc (mach K)) \<le> i" "i + 4096 \<le> bump_count (InitAlloc (mach K))"
    "load_idt df (mach K) = Inr ((bump_begin (InitAlloc (mach K)) + U64 i, idt_entries (cs (cpu_state (mach K))) df),
      (mach K)\<lparr>InitAlloc := (InitAlloc (mach K))\<lparr>bump_idx := i + 4096\<rparr>,
        cpu_state := (cpu_state (mach K))\<lparr>idtr_size := 4095, idtr_base := bump_begin (InitAlloc (mach K)) + U64 i\<rparr>\<rparr>)"
    using load_idt_run [OF alloc, of df] by metis
  define K1 where "K1 = K\<lparr>mach := (mach K)\<lparr>InitAlloc := (InitAlloc (mach K))\<lparr>bump_idx := i + 4096\<rparr>, cpu_state := (cpu_state (mach K))\<lparr>idtr_size := 4095,
       idtr_base := bump_begin (InitAlloc (mach K)) + U64 i, tr := 16\<rparr>\<rparr>, tasks := g1\<lparr>init_finish_count := init_finish_count g1 + 1\<rparr>,
       idt_obj := (bump_begin (InitAlloc (mach K)) + U64 i, idt_entries (cs (cpu_state (mach K))) df)\<rparr>"
  have "idxR (workers (tasks K)) 0 = Inr (workers (tasks K) ! 0)" using len by (simp add: idxR_def)
  moreover have "tss_segment 0 = 16" by (simp add: tss_segment_def)
  ultimately have run: "task_begin tries df cid K = task_main tries cid K1"
    using i(3) worker_found [OF g1(1,3,4)] g(4)
    by (simp add: task_begin_def Let_def g0_def [symmetric] w_def [symmetric] g1_def [symmetric] K1_def)
  have k: "pool_ok (tasks K1)" "pool (tasks K1) = {#}" "0 < worker_count (tasks K1)" "w_core_id (workers (tasks K1) ! 0) = cid"
      "log_ready (log_state (mach K1))"
    using g1 log by (simp_all add: K1_def)
  obtain M g' where m: "task_main tries cid K1 = Inr (K1\<lparr>mach := M, tasks := g'\<rparr>)" "pool_ok g'" "pool g' = {#}"
    "logged (mach K1) M (task_line 119 ''Found no tasks'' @ task_line 125 ''Kernel main end'')"
    using task_main_idle [OF k, of tries] by blast
  show thesis using that [of "K1\<lparr>mach := M, tasks := g'\<rparr>" i] run m i(1,2) by (simp add: K1_def)
qed

section \<open>From the allocator to the first worker\<close>

definition start_lines :: string where
  "start_lines = gdt_line @ task_line 63 ''tasks INIT_COMPLETE'' @ task_line 119 ''Found no tasks'' @ task_line 125 ''Kernel main end''"

text \<open>The kernel at its end: descriptor and interrupt tables are loaded, the boot core is worker 0 and idle.\<close>

definition kernel_up :: "int \<Rightarrow> u64 \<Rightarrow> machine \<Rightarrow> kernel_state \<Rightarrow> bool" where
  "kernel_up N df M K \<longleftrightarrow> taken N (heap M) (heap (mach K)) \<and> cr3 (cpu_state (mach K)) = cr3 (cpu_state M)
     \<and> cs (cpu_state (mach K)) = 8 \<and> gdtr_size (cpu_state (mach K)) = 31 \<and> gdtr_base (cpu_state (mach K)) = fst (gdt_obj (mach K)) + 8
     \<and> gdt_table (snd (gdt_obj (mach K))) = core_table [fst (tss_obj (mach K))] \<and> tr (cpu_state (mach K)) = tss_segment 0
     \<and> idtr_size (cpu_state (mach K)) = 4095 \<and> idtr_base (cpu_state (mach K)) = fst (idt_obj K) \<and> snd (idt_obj K) = idt_entries 8 df
     \<and> pool_ok (tasks K) \<and> pool (tasks K) = {#} \<and> log_ready (log_state (mach K))
     \<and> serial (log_state (mach K)) = serial (log_state M) @ start_lines"

lemma start_after_memory:
  assumes ok: "heap_ok N (heap M)" "unat n + 2 \<le> card (free_quads (heap M))" and n: "0 < n" "n \<le> 54" and log: "log_ready (log_state M)"
    and b: "InitAlloc M = \<lparr>bump_begin = page_ptr y, bump_count = 2 * 4096, bump_idx = 0\<rparr>" "0 \<le> y" "y + 2 \<le> N"
  shows "\<exists>M1 g M2 K. descriptor__init M = Inr M1 \<and> tasks__init n M1 = Inr (g, M2)
           \<and> task_begin tries df cid \<lparr>mach = M2, tasks = g, idt_obj = (0, [])\<rparr> = Inr K \<and> kernel_up N df M K"
proof -
  have un: "uint n \<le> 54" using n(2) by (simp add: word_le_def)
  have placed: "alloc_placed (b\<lparr>bump_idx := i\<rparr>)" if "b = InitAlloc M" "0 \<le> i" "i \<le> 8192" for i b
    using that b heap_ok_bound [OF ok(1)] by (auto simp: alloc_placed_def bump_ok_def intro!: exI [of _ y])
  have "free_quads (heap M) \<noteq> {}" using ok(2) by auto
  then obtain z where "4 dvd z" "{z..<z + 4} \<subseteq> free_set (heap M)" unfolding free_quads_def by blast
  then have z: "{z..<z + 2} \<subseteq> free_set (heap M)" "2 dvd z" using dvd_trans [of 2 4 z] by auto
  have p0: "alloc_placed (InitAlloc M)" "bump_idx (InitAlloc M) + 183 \<le> bump_count (InitAlloc M)" using placed [OF refl, of 0] b by auto
  obtain x h g0 M1 where 1: "descriptor__init M = Inr M1" "logged (described x h g0 M) M1 gdt_line" "allocated N (heap M) 2 x h" "g0 < 8" "0 \<le> g0"
    using descriptor__init_run [OF ok(1) z p0 log] b by (metis Bump.select_convs(3) add_0)
  note f1 = logged_fields [OF 1(2)]
  have i1: "InitAlloc M1 = (InitAlloc M)\<lparr>bump_idx := g0 + 176\<rparr>" "heap M1 = h" using f1 by (simp_all add: described_def)
  have ok1: "heap_ok N (heap M1)" "unat n + 1 \<le> card (free_quads (heap M1))"
    using allocated_quads [OF ok(1) 1(3)] ok(2) 1(3) i1 by (simp_all add: allocated_def spends_def)
  have p1: "alloc_placed (InitAlloc M1)" "bump_idx (InitAlloc M1) + 7 + 72 * uint n \<le> bump_count (InitAlloc M1)"
    using placed [OF refl, of "g0 + 176"] i1 1(4,5) un b by auto
  obtain g h2 i M2 where 2: "tasks__init n M1 = Inr (g, M2)"
      "logged (M1\<lparr>heap := h2, InitAlloc := (InitAlloc M1)\<lparr>bump_idx := i\<rparr>\<rparr>) M2 (task_line 63 ''tasks INIT_COMPLETE'')" "taken N (heap M1) h2"
      "bump_idx (InitAlloc M1) \<le> i" "i < bump_idx (InitAlloc M1) + 8 + 72 * uint n" "pool_ok g" "pool g = {#}" "worker_count g = n" "init_count g = 0"
    using tasks__init_run [OF ok1 p1 n(1)] f1 by metis
  note f2 = logged_fields [OF 2(2)]
  have i2: "InitAlloc M2 = (InitAlloc M)\<lparr>bump_idx := i\<rparr>" "0 \<le> i" "i \<le> 4093" using f2 2(4,5) i1 1(4,5) un by auto
  let ?K = "\<lparr>mach = M2, tasks = g, idt_obj = (0, [])\<rparr>"
  have k: "pool_ok (tasks ?K)" "pool (tasks ?K) = {#}" "0 < worker_count (tasks ?K)" "init_count (tasks ?K) = 0" "alloc_placed (InitAlloc (mach ?K))"
      "bump_idx (InitAlloc (mach ?K)) + 4099 \<le> bump_count (InitAlloc (mach ?K))" "log_ready (log_state (mach ?K))"
    using 2(6-9) n(1) placed [OF refl, of i] i2 b f2 by simp_all
  obtain j K where 3: "task_begin tries df cid ?K = Inr K" "pool_ok (tasks K)" "pool (tasks K) = {#}"
    "idt_obj K = (bump_begin (InitAlloc M2) + U64 j, idt_entries (cs (cpu_state M2)) df)"
    "logged (M2\<lparr>InitAlloc := (InitAlloc M2)\<lparr>bump_idx := j + 4096\<rparr>, cpu_state := (cpu_state M2)\<lparr>idtr_size := 4095,
       idtr_base := bump_begin (InitAlloc M2) + U64 j, tr := 16\<rparr>\<rparr>) (mach K) (task_line 119 ''Found no tasks'' @ task_line 125 ''Kernel main end'')"
    using task_begin_run [OF k, of tries df cid] by (metis kernel_state.select_convs(1))
  note f3 = logged_fields [OF 3(5)]
  have "taken N (heap M) (heap (mach K))" using taken_trans [OF allocated_taken [OF 1(3)]] 2(3) i1 f2 f3 by simp
  moreover have "serial (log_state (mach K)) = serial (log_state M) @ start_lines"
    using 1(2) 2(2) 3(5) by (simp add: logged_def described_def start_lines_def)
  moreover have "tss_segment 0 = 16" by (simp add: tss_segment_def)
  ultimately have "kernel_up N df M K" unfolding kernel_up_def using f1 f2 f3 3(2-4) by (simp add: described_def)
  then show ?thesis using 1(1) 2(1) 3(1) by blast
qed

section \<open>The whole start\<close>

definition main_line :: "u32 \<Rightarrow> string \<Rightarrow> string" where
  "main_line line t = log_line (prefix_text \<lparr>loc_file = Some ''./kern/main.c'', loc_line = line\<rparr> @ t)"

lemma main_log_ok:
  assumes "log_ready (log_state M)" "list_all (\<lambda>c. c \<noteq> NUL) t"
  shows "\<exists>M'. main_log line t M = Inr M' \<and> logged M M' (main_line line t)"
proof -
  have "ctext t = t" using assms(2) unfolding ctext_def by (simp add: takeWhile_eq_all_conv list_all_iff)
  then have "args_text [any__char_ptr (Some t)] = Some t" "any_ok (any__char_ptr (Some t))"
    by (simp_all add: args_text_def any_text_def any__char_ptr_def any_ok_def signed_type_def)
  then obtain buf where "length buf = 200" "main_log line t M = Inr (M\<lparr>log_state := (log_state M)\<lparr>log_buffer := buf,
      serial := serial (log_state M) @ main_line line t\<rparr>\<rparr>)"
    using ext__log_eq [of "log_state M" "[any__char_ptr (Some t)]" "[]" "\<lparr>loc_file = Some ''./kern/main.c'', loc_line = line\<rparr>"] assms(1)
    by (auto simp: main_log_def main_line_def)
  then show ?thesis using assms(1) by (auto simp: logged_def log_ok_def)
qed

definition gb_pages :: "(u32 \<Rightarrow> cpuid_result) \<Rightarrow> bool" where
  "gb_pages asm_cpuid \<longleftrightarrow> bit (c_edx (asm_cpuid 0x80000001)) 26"

definition banner :: "bool \<Rightarrow> string" where
  "banner gb = main_line 8 ''--------------------------------------------------'' @ main_line 9 ''                    BOOTING UP                    ''
     @ main_line 10 ''--------------------------------------------------'' @ (if gb then main_line 13 ''gb pages are enabled'' else [])"

lemma edx_bits:
  fixes w :: u32
  shows "(ucast (ucast w AND CPUID_EDX_PDPE1GB) :: u32) \<noteq> 0 \<longleftrightarrow> bit w 26" "(ucast (ucast w AND CPUID_EDX_APIC) :: u32) \<noteq> 0 \<longleftrightarrow> bit w 9"
proof -
  have *: "(ucast (ucast w AND (push_bit n 1 :: u64)) :: u32) \<noteq> 0 \<longleftrightarrow> bit w n" if "n < 32" for n
  proof -
    have "bit (ucast (ucast w AND (push_bit n 1 :: u64)) :: u32) m \<longleftrightarrow> m = n \<and> bit w n" for m
      using that by (auto simp: bit_simps dest: bit_imp_le_length)
    then show ?thesis by (metis bit_0_eq bot_apply bot_bool_def bit_eqI)
  qed
  show "(ucast (ucast w AND CPUID_EDX_PDPE1GB) :: u32) \<noteq> 0 \<longleftrightarrow> bit w 26" using * [of 26] by (simp add: CPUID_EDX_PDPE1GB_def)
  show "(ucast (ucast w AND CPUID_EDX_APIC) :: u32) \<noteq> 0 \<longleftrightarrow> bit w 9" using * [of 9] by (simp add: CPUID_EDX_APIC_def)
qed

text \<open>The boot core says what it found, and goes on exactly when there is an interrupt controller.\<close>

definition init_rest :: "(nat \<Rightarrow> bool list) \<Rightarrow> (u32 \<Rightarrow> cpuid_result) \<Rightarrow> u64 \<Rightarrow> symbols \<Rightarrow> BOOTBOOT \<Rightarrow> machine \<Rightarrow> (BOOTBOOT \<times> kernel_state) result option" where
  "init_rest tries asm_cpuid df ld bb M =
     bindP (memory__init ld bb M) (\<lambda>(bb, M).
     bindP (Some (descriptor__init M)) (\<lambda>M.
     bindP (Some (tasks__init (bb_numcores bb) M)) (\<lambda>(g, M).
     bindP (Some (task_begin tries df (core_id asm_cpuid) \<lparr>mach = M, tasks = g, idt_obj = (0, [])\<rparr>)) (\<lambda>K. Some (Inr (bb, K))))))"

lemma init_front:
  assumes "log_ready (log_state M)"
  shows "if bit (c_edx (asm_cpuid 1)) 9
    then \<exists>M'. init tries asm_cpuid df ld bb M = init_rest tries asm_cpuid df ld bb M' \<and> logged M M' (banner (gb_pages asm_cpuid) @ main_line 17 ''APIC is enabled'')
    else init tries asm_cpuid df ld bb M = Some (Inl (Panic ''APIC was not enabled''))"
proof -
  let ?dash = "''--------------------------------------------------''" and ?boot = "''                    BOOTING UP                    ''"
  obtain M1 where 1: "main_log 8 ?dash M = Inr M1" "logged M M1 (main_line 8 ?dash)"
    using main_log_ok [OF assms, of ?dash 8] by (auto simp: NUL_def)
  obtain M2 where 2: "main_log 9 ?boot M1 = Inr M2" "logged M1 M2 (main_line 9 ?boot)"
    using main_log_ok [of M1 ?boot 9] logged_fields [OF 1(2)] by (auto simp: NUL_def)
  obtain M3 where 3: "main_log 10 ?dash M2 = Inr M3" "logged M2 M3 (main_line 10 ?dash)"
    using main_log_ok [of M2 ?dash 10] logged_fields [OF 2(2)] by (auto simp: NUL_def)
  note l3 = logged_trans [OF logged_trans [OF 1(2) 2(2)] 3(2)]
  obtain M4 where 4: "(if gb_pages asm_cpuid then main_log 13 ''gb pages are enabled'' M3 else Inr M3) = Inr M4" "logged M M4 (banner (gb_pages asm_cpuid))"
  proof (cases "gb_pages asm_cpuid")
    case True
    obtain M4 where "main_log 13 ''gb pages are enabled'' M3 = Inr M4" "logged M3 M4 (main_line 13 ''gb pages are enabled'')"
      using main_log_ok [of M3 "''gb pages are enabled''" 13] logged_fields [OF 3(2)] by (auto simp: NUL_def)
    then show thesis using that [of M4] True logged_trans [OF l3] by (auto simp: banner_def)
  next
    case False
    then show thesis using that [of M3] l3 by (simp add: banner_def)
  qed
  obtain M5 where 5: "main_log 17 ''APIC is enabled'' M4 = Inr M5" "logged M4 M5 (main_line 17 ''APIC is enabled'')"
    using main_log_ok [of M4 "''APIC is enabled''" 17] logged_fields [OF 4(2)] by (auto simp: NUL_def)
  have "init tries asm_cpuid df ld bb M = (if bit (c_edx (asm_cpuid 1)) 9 then init_rest tries asm_cpuid df ld bb M5 else Some (Inl (Panic ''APIC was not enabled'')))"
    unfolding init_def 1(1) 2(1) 3(1) bindP_simps Let_def edx_bits gb_pages_def [symmetric] 4(1) by (simp add: 5(1) init_rest_def assertR_def)
  then show ?thesis using logged_trans [OF 4(2) 5(2)] by auto
qed

lemma boot_ok_logged:
  assumes "boot_ok N ld bb M lv q rs" "logged M M' t"
  shows "boot_ok N ld bb M' lv q rs"
  using assms(1) logged_fields [OF assms(2)] by (simp add: boot_ok_def)

lemma booted_logged: "logged M M' t \<Longrightarrow> booted N M' lv q rs es K \<longleftrightarrow> booted N M lv q rs es K"
  using logged_fields [of M M' t] by (simp add: booted_def)

lemma memory__init_bb:
  assumes "memory__init ld bb M = Some (Inr (bb', M'))"
  shows "bb_numcores bb' = bb_numcores bb"
  using assms unfolding memory__init_def Let_def bindP_Inr_eq by (auto simp: bindP_Inr_eq split: prod.splits if_splits)

text \<open>The tables of a booted kernel keep their translations while pages are only taken from the free ones.\<close>

lemma taken_translate:
  assumes t: "taken N s s'" and ok: "heap_ok N s" and pt: "pt_ok N s lv p"
  shows "pt_ok N s' lv p" "translate s' (page_ptr p) (vaddr V) = translate s (page_ptr p) (vaddr V)"
proof -
  note N35 = heap_ok_bound [OF ok]
  have d: "dom lv \<inter> free_set s = {}" using pt_okD(2) [OF pt] by blast
  have m: "tree_same s s' lv"
  proof (rule tree_sameI)
    fix u a assume u: "u \<in> dom lv" "a \<in> page_addrs u"
    then have "page_ok u" "u \<notin> free_set s" using table_page_ok [OF pt N35] d by blast+
    then show "mem s' a = mem s a" using t u(2) by (simp add: taken_def keeps_def)
  qed
  have fr: "dom lv \<inter> free_set s' = {}" using d t by (auto simp: taken_def)
  show pt': "pt_ok N s' lv p" by (rule tree_same_ok(1) [OF m pt fr])
  show "translate s' (page_ptr p) (vaddr V) = translate s (page_ptr p) (vaddr V)"
    using translate_vaddr [OF pt N35] translate_vaddr [OF pt' N35] tree_same_view [OF m pt pt_okD(1) [OF pt]] by simp
qed

text \<open>\<open>runs_in\<close>: the kernel at its end still has the address space that \<^verbatim>\<open>memory__init\<close> built.\<close>

definition runs_in :: "int \<Rightarrow> machine \<Rightarrow> int \<Rightarrow> copied list \<Rightarrow> kernel_state \<Rightarrow> bool" where
  "runs_in N M q rs K \<longleftrightarrow> (\<exists>x lv. let s = heap (mach K) in cr3 (cpu_state (mach K)) = U64 x * 4096 \<and> pt_ok N s lv x
     \<and> (\<forall>j\<in>{0..<N}. translate s (page_ptr x) (page_ptr j) = Inr (page_ptr j))
     \<and> (\<forall>(V, n, k, f)\<in>set rs. \<forall>j\<in>{0..<n}.
          translate s (page_ptr x) (vaddr (V + j)) = translate (heap M) (page_ptr q) (vaddr (V + j))))"

lemma kernel_up_runs_in:
  assumes "booted N M lv q rs es M1" "kernel_up N df M1 K"
  shows "runs_in N M q rs K"
proof -
  obtain x lv' where b: "cr3 (cpu_state M1) = U64 x * 4096" "heap_ok N (heap M1)" "pt_ok N (heap M1) lv' x"
      "\<forall>j\<in>{0..<N}. translate (heap M1) (page_ptr x) (page_ptr j) = Inr (page_ptr j)"
      "\<forall>(V, n, k, f)\<in>set rs. \<forall>j\<in>{0..<n}. translate (heap M1) (page_ptr x) (vaddr (V + j)) = translate (heap M) (page_ptr q) (vaddr (V + j))"
    using assms(1) unfolding booted_def Let_def by blast
  have k: "taken N (heap M1) (heap (mach K))" "cr3 (cpu_state (mach K)) = U64 x * 4096" using assms(2) b(1) by (auto simp: kernel_up_def)
  note tt = taken_translate [OF k(1) b(2,3)]
  have "translate (heap (mach K)) (page_ptr x) (page_ptr j) = translate (heap M1) (page_ptr x) (page_ptr j)" for j
    using tt(2) [of "2 ^ 52 - 2 ^ 35 + j"] unfolding page_ptr_vaddr [of j, symmetric] .
  then show ?thesis unfolding runs_in_def Let_def using k(2) tt(1) b(4,5)
    by (intro exI [of _ x] exI [of _ lv'] conjI) (simp_all add: tt(2))
qed

lemma booted_alloc:
  assumes "booted N M lv q rs es M1"
  obtains y where "heap_ok N (heap M1)" "InitAlloc M1 = \<lparr>bump_begin = page_ptr y, bump_count = 2 * 4096, bump_idx = 0\<rparr>" "0 \<le> y" "y + 2 \<le> N"
proof -
  obtain y where y: "heap_ok N (heap M1)" "InitAlloc M1 = \<lparr>bump_begin = page_ptr y, bump_count = 2 * 4096, bump_idx = 0\<rparr>"
      "usable_set (heap M1) = pages_of es \<union> dom lv" "\<exists>A B. A \<union> B \<union> {y..<y + 2} = pages_of es \<union> dom lv"
    using assms unfolding booted_def Let_def by (elim exE conjE) (rule that, assumption+, blast)
  then have sub: "{y..<y + 2} \<subseteq> usable_set (heap M1)" by blast
  obtain fl where "heap_inv N (heap M1) fl" using y(1) by (auto simp: heap_ok_def)
  then have "usable_set (heap M1) \<subseteq> {0..<N}" using heap_invD(3) bits_of_bounds [of "usable_pages (heap M1)"] by (fastforce simp: usable_set_def)
  then have "y \<in> {0..<N}" "y + 1 \<in> {0..<N}" using sub by fastforce+
  then show thesis using that y(1,2) by auto
qed

lemma enough_memory_less: "enough_memory N es rs k \<Longrightarrow> enough_memory N es rs 0"
  by (simp add: enough_memory_def)

lemma init_rest_spec:
  assumes b: "boot_ok N ld bb M lv q rs" and n: "0 < bb_numcores bb" "bb_numcores bb \<le> 54"
    and m: "enough_memory N (usable_entries (bb_mmap bb)) rs (unat (bb_numcores bb) + 2)"
  shows "\<exists>M1 es bb' K. booted N M lv q rs es M1 \<and> init_rest tries asm_cpuid df ld bb M = Some (Inr (bb', K)) \<and> kernel_up N df M1 K \<and> runs_in N M q rs K
    \<and> serial (log_state (mach K)) = serial (log_state M) @ boot_lines (bb_mmap bb) @ memory_line 224 ''memory INIT_COMPLETE'' @ start_lines"
proof -
  have m0: "enough_memory N (usable_entries (bb_mmap bb)) rs 0" by (rule enough_memory_less [OF m])
  obtain bb' M1 es where 2: "memory__init ld bb M = Some (Inr (bb', M1))" "booted N M lv q rs es M1" "log_ready (log_state M1)"
      "serial (log_state M1) = serial (log_state M) @ boot_lines (bb_mmap bb) @ memory_line 224 ''memory INIT_COMPLETE''"
      "\<forall>k. enough_memory N (usable_entries (bb_mmap bb)) rs k \<longrightarrow> k \<le> card (free_quads (heap M1))"
    using memory__init_spec [OF b] m0 by blast
  have c: "unat (bb_numcores bb) + 2 \<le> card (free_quads (heap M1))" using 2(5) m by blast
  obtain y where y: "heap_ok N (heap M1)" "InitAlloc M1 = \<lparr>bump_begin = page_ptr y, bump_count = 2 * 4096, bump_idx = 0\<rparr>" "0 \<le> y" "y + 2 \<le> N"
    using booted_alloc [OF 2(2)] by metis
  obtain M2 g M3 K where s: "descriptor__init M1 = Inr M2" "tasks__init (bb_numcores bb) M2 = Inr (g, M3)"
      "task_begin tries df (core_id asm_cpuid) \<lparr>mach = M3, tasks = g, idt_obj = (0, [])\<rparr> = Inr K" "kernel_up N df M1 K"
    using start_after_memory [OF y(1) c n 2(3) y(2-4)] by blast
  have "init_rest tries asm_cpuid df ld bb M = Some (Inr (bb', K))"
    using s(1-3) memory__init_bb [OF 2(1)] by (simp add: init_rest_def 2(1))
  then show ?thesis using 2(2) s(4) kernel_up_runs_in [OF 2(2) s(4)] 2(4)
    by (intro exI [of _ M1] exI [of _ es] exI [of _ bb'] exI [of _ K]) (simp add: kernel_up_def)
qed

section \<open>Properties\<close>

text \<open>C1. The kernel starts: on a machine as the boot loader leaves it, with memory that ends at a multiple of 16 MB and of
  at most 512 GB, one to 54 cores and enough usable memory for the page tables of physical memory and of the kernel's regions
  (\<open>boot_cost\<close>) and two aligned runs of four pages more than there are cores, the boot core of a
  processor with an interrupt controller returns from the start without a panic, with descriptor tables, interrupt table
  and task register loaded, empty task queues, an intact address space, and the whole start on the serial log. Without
  the controller it panics; every other core halts for ever.\<close>

theorem kernel_starts:
  assumes b: "boot_ok N ld bb M lv q rs" and n: "0 < bb_numcores bb" "bb_numcores bb \<le> 54"
    and m: "enough_memory N (usable_entries (bb_mmap bb)) rs (unat (bb_numcores bb) + 2)"
  shows "if core_id asm_cpuid \<noteq> bb_bspid bb then start tries asm_cpuid df ld bb M = None
    else if \<not> bit (c_edx (asm_cpuid 1)) 9 then start tries asm_cpuid df ld bb M = Some (Inl (Panic ''APIC was not enabled''))
    else \<exists>M1 es bb' K. booted N M lv q rs es M1 \<and> start tries asm_cpuid df ld bb M = Some (Inr (bb', K))
      \<and> kernel_up N df M1 K \<and> runs_in N M q rs K
      \<and> serial (log_state (mach K)) = serial (log_state M) @ banner (gb_pages asm_cpuid) @ main_line 17 ''APIC is enabled''
           @ boot_lines (bb_mmap bb) @ memory_line 224 ''memory INIT_COMPLETE'' @ start_lines"
proof -
  have l: "log_ready (log_state M)" using b by (simp add: boot_ok_def)
  show ?thesis
  proof (cases "core_id asm_cpuid = bb_bspid bb \<and> bit (c_edx (asm_cpuid 1)) 9")
    case True
    then obtain M' where M': "init tries asm_cpuid df ld bb M = init_rest tries asm_cpuid df ld bb M'" "logged M M' (banner (gb_pages asm_cpuid) @ main_line 17 ''APIC is enabled'')"
      using init_front [OF l, of asm_cpuid tries df ld bb] by auto
    have "serial (log_state M') = serial (log_state M) @ banner (gb_pages asm_cpuid) @ main_line 17 ''APIC is enabled''" "heap M' = heap M"
      using M'(2) logged_fields [OF M'(2)] by (auto simp: logged_def)
    then show ?thesis using True init_rest_spec [OF boot_ok_logged [OF b M'(2)] n m, of tries asm_cpuid df]
      by (simp add: start_def M'(1) booted_logged [OF M'(2)] runs_in_def)
  next
    case False
    then show ?thesis using init_front [OF l, of asm_cpuid tries df ld bb] by (auto simp: start_def hlt_loop_never)
  qed
qed

definition sample_cpuid :: "u32 \<Rightarrow> cpuid_result" where
  "sample_cpuid code = \<lparr>c_eax = 0, c_ebx = 0, c_ecx = 0, c_edx = (if code = 1 then 0x200 else 0)\<rparr>"

theorem kernel_starts_witness:
  "\<exists>M1 es bb' K. booted 4096 boot_machine (boot_levels 160) 160 sample_regions es M1
    \<and> start (\<lambda>_. [True]) sample_cpuid 0xffffffffffe02345 sample_symbols sample_bb boot_machine = Some (Inr (bb', K))
    \<and> kernel_up 4096 0xffffffffffe02345 M1 K \<and> runs_in 4096 boot_machine 160 sample_regions K"
proof -
  have c: "core_id sample_cpuid = bb_bspid sample_bb" "bit (c_edx (sample_cpuid 1)) 9" "bb_numcores sample_bb = 1"
    by (simp_all add: core_id_def sample_cpuid_def sample_bb_def)
  have "enough_memory 4096 (usable_entries (bb_mmap sample_bb)) sample_regions (unat (bb_numcores sample_bb) + 2)"
    unfolding c(3) by (rule sample_enough) simp
  then show ?thesis using kernel_starts [OF sample_boot_ok, of sample_cpuid "\<lambda>_. [True]" "0xffffffffffe02345"] c by auto
qed

end
