(* ===== verification/Task_Queue_Conc.thy ===== *)
theory Task_Queue_Conc
  imports Task_Queue
begin

text \<open>
  The task queue used by any number of cores at once. Every call of \<^verbatim>\<open>enqueue_task\<close> or
  \<^verbatim>\<open>dequeue_task\<close> is a process; \<open>queue_step\<close> is one access of one process to the shared queue: an atomic
  operation, or the plain reads and writes of a slot that the process has claimed. The lists \<open>accepted\<close> and
  \<open>taken\<close> record, in order, the tasks whose enqueuing and dequeuing took effect; no step reads them.
\<close>

datatype proc =
    EnqStart TaskData               \<comment> \<open>before the loads\<close>
  | EnqBound TaskData s64           \<comment> \<open>has loaded \<^verbatim>\<open>read_from\<close>; upper bound\<close>
  | EnqTry TaskData s64 s64         \<comment> \<open>tries the slot at its \<^verbatim>\<open>write_to\<close>\<close>
  | EnqAdvance TaskData s64 s64     \<comment> \<open>in the inner loop\<close>
  | EnqClaimed TaskData nat         \<comment> \<open>has set a slot to \<^verbatim>\<open>Task__Writing\<close>\<close>
  | EnqNumbered TaskData nat s64    \<comment> \<open>has its identifier\<close>
  | EnqWritten TaskData nat s64     \<comment> \<open>has written identifier and data\<close>
  | EnqDone bool
  | DeqStart
  | DeqBound s64                    \<comment> \<open>has loaded \<^verbatim>\<open>write_to\<close>\<close>
  | DeqTry s64 s64                  \<comment> \<open>tries the slot at its \<^verbatim>\<open>read_from\<close>\<close>
  | DeqAdvance s64 s64
  | DeqClaimed nat                  \<comment> \<open>has set a slot to \<^verbatim>\<open>Task__Reading\<close>\<close>
  | DeqCopied nat Task              \<comment> \<open>has copied the task\<close>
  | DeqDone Task

record queue_sys =
  q_tasks :: "Task list"
  q_read :: s64
  q_write :: s64
  q_next_id :: s64
  procs :: "nat \<Rightarrow> proc"
  accepted :: "(s64 \<times> TaskData) list"
  taken :: "(s64 \<times> TaskData) list"

definition ring_index_of :: "queue_sys \<Rightarrow> s64 \<Rightarrow> nat" where
  "ring_index_of s i = nat (i mod int (length (q_tasks s)))"

definition set_proc :: "nat \<Rightarrow> proc \<Rightarrow> queue_sys \<Rightarrow> queue_sys" where
  "set_proc p pc s = s\<lparr>procs := (procs s)(p := pc)\<rparr>"

definition set_task :: "nat \<Rightarrow> Task \<Rightarrow> queue_sys \<Rightarrow> queue_sys" where
  "set_task i t s = s\<lparr>q_tasks := (q_tasks s)[i := t]\<rparr>"

inductive queue_step :: "queue_sys \<Rightarrow> queue_sys \<Rightarrow> bool" where
  enq_load_read: "procs s p = EnqStart d \<Longrightarrow>
    queue_step s (set_proc p (EnqBound d (q_read s + int (length (q_tasks s)))) s)"
| enq_load_write: "procs s p = EnqBound d ub \<Longrightarrow> queue_step s (set_proc p (EnqTry d ub (q_write s)) s)"
| enq_claim: "procs s p = EnqTry d ub w \<Longrightarrow> i = ring_index_of s w \<Longrightarrow> t = q_tasks s ! i \<Longrightarrow>
    a_cxstrong (sync_info t) Task__Empty Task__Writing = (True, sy) \<Longrightarrow>
    queue_step s (set_proc p (EnqClaimed d i) (set_task i (t\<lparr>sync_info := sy\<rparr>) s))"
| enq_miss: "procs s p = EnqTry d ub w \<Longrightarrow>
    a_cxstrong (sync_info (q_tasks s ! ring_index_of s w)) Task__Empty Task__Writing = (False, sy) \<Longrightarrow>
    queue_step s (set_proc p (EnqAdvance d ub w) s)"
| enq_number: "procs s p = EnqClaimed d i \<Longrightarrow>
    queue_step s (set_proc p (EnqNumbered d i (q_next_id s)) (s\<lparr>q_next_id := q_next_id s + 1\<rparr>))"
| enq_write: "procs s p = EnqNumbered d i k \<Longrightarrow>
    queue_step s (set_proc p (EnqWritten d i k) (set_task i ((q_tasks s ! i)\<lparr>task_id := k, task_data := d\<rparr>) s))"
| enq_publish: "procs s p = EnqWritten d i k \<Longrightarrow>
    queue_step s (set_proc p (EnqDone True) (set_task i ((q_tasks s ! i)\<lparr>sync_info := Task__Queued\<rparr>) (s\<lparr>accepted := accepted s @ [(k, d)]\<rparr>)))"
| enq_full: "procs s p = EnqAdvance d ub w \<Longrightarrow> \<not> w < ub \<Longrightarrow> queue_step s (set_proc p (EnqDone False) s)"
| enq_advance: "procs s p = EnqAdvance d ub w \<Longrightarrow> w < ub \<Longrightarrow> a_cxweak spurious (q_write s) w (w + 1) = (ok, shared, w') \<Longrightarrow>
    queue_step s (set_proc p (if ok then EnqTry d ub w' else EnqAdvance d ub w') (s\<lparr>q_write := shared\<rparr>))"
| deq_load_write: "procs s p = DeqStart \<Longrightarrow> queue_step s (set_proc p (DeqBound (q_write s)) s)"
| deq_load_read: "procs s p = DeqBound w \<Longrightarrow> queue_step s (set_proc p (DeqTry (q_read s) w) s)"
| deq_claim: "procs s p = DeqTry r w \<Longrightarrow> i = ring_index_of s r \<Longrightarrow> t = q_tasks s ! i \<Longrightarrow>
    a_cxstrong (sync_info t) Task__Queued Task__Reading = (True, sy) \<Longrightarrow>
    queue_step s (set_proc p (DeqClaimed i) (set_task i (t\<lparr>sync_info := sy\<rparr>) s))"
| deq_miss: "procs s p = DeqTry r w \<Longrightarrow>
    a_cxstrong (sync_info (q_tasks s ! ring_index_of s r)) Task__Queued Task__Reading = (False, sy) \<Longrightarrow>
    queue_step s (set_proc p (DeqAdvance r w) s)"
| deq_copy: "procs s p = DeqClaimed i \<Longrightarrow> queue_step s (set_proc p (DeqCopied i (q_tasks s ! i)) s)"
| deq_release: "procs s p = DeqCopied i t \<Longrightarrow>
    queue_step s (set_proc p (DeqDone t) (set_task i ((q_tasks s ! i)\<lparr>sync_info := Task__Empty\<rparr>) (s\<lparr>taken := taken s @ [entry_of t]\<rparr>)))"
| deq_none: "procs s p = DeqAdvance r w \<Longrightarrow> \<not> r < w \<Longrightarrow> queue_step s (set_proc p (DeqDone empty_task) s)"
| deq_advance: "procs s p = DeqAdvance r w \<Longrightarrow> r < w \<Longrightarrow> a_cxweak spurious (q_read s) r (r + 1) = (ok, shared, r') \<Longrightarrow>
    queue_step s (set_proc p (if ok then DeqTry r' w else DeqAdvance r' w) (s\<lparr>q_read := shared\<rparr>))"

section \<open>Ownership of slots\<close>

fun claim :: "proc \<Rightarrow> (nat \<times> u8) option" where
  "claim (EnqClaimed d i) = Some (i, Task__Writing)"
| "claim (EnqNumbered d i k) = Some (i, Task__Writing)"
| "claim (EnqWritten d i k) = Some (i, Task__Writing)"
| "claim (DeqClaimed i) = Some (i, Task__Reading)"
| "claim (DeqCopied i t) = Some (i, Task__Reading)"
| "claim _ = None"

definition owned :: "queue_sys \<Rightarrow> bool" where
  "owned s \<longleftrightarrow> q_tasks s \<noteq> []
     \<and> (\<forall>p i c. claim (procs s p) = Some (i, c) \<longrightarrow> i < length (q_tasks s) \<and> sync_info (q_tasks s ! i) = c)
     \<and> (\<forall>p q i c c'. claim (procs s p) = Some (i, c) \<longrightarrow> claim (procs s q) = Some (i, c') \<longrightarrow> p = q)"

lemma set_simps [simp]:
  "q_tasks (set_proc p pc s) = q_tasks s" "procs (set_proc p pc s) = (procs s)(p := pc)"
  "accepted (set_proc p pc s) = accepted s" "taken (set_proc p pc s) = taken s" "q_next_id (set_proc p pc s) = q_next_id s"
  "q_tasks (set_task i t s) = (q_tasks s)[i := t]" "procs (set_task i t s) = procs s"
  "accepted (set_task i t s) = accepted s" "taken (set_task i t s) = taken s" "q_next_id (set_task i t s) = q_next_id s"
  by (simp_all add: set_proc_def set_task_def)

lemma owned_cong: "q_tasks s = q_tasks s' \<Longrightarrow> procs s = procs s' \<Longrightarrow> owned s = owned s'"
  by (simp add: owned_def)

lemma owned_local:
  assumes "owned s" "claim pc = None \<or> claim pc = claim (procs s p)"
  shows "owned (set_proc p pc s)"
proof -
  have "claim (((procs s)(p := pc)) q) \<in> {None, claim (procs s q)}" for q using assms(2) by auto
  then have "claim (((procs s)(p := pc)) q) = Some (i, c) \<Longrightarrow> claim (procs s q) = Some (i, c)" for q i c
    by (metis empty_iff insert_iff option.distinct(1))
  then show ?thesis using assms(1) unfolding owned_def by (metis set_simps(1,2))
qed

lemma owned_claim:
  assumes "owned s" "i < length (q_tasks s)" "sync_info (q_tasks s ! i) \<noteq> Task__Writing" "sync_info (q_tasks s ! i) \<noteq> Task__Reading"
    and "claim pc = Some (i, sync_info t)"
  shows "owned (set_proc p pc (set_task i t s))"
proof -
  have "claim (procs s q) \<noteq> Some (i, c)" for q c
    using assms(1,3,4) unfolding owned_def by (cases "procs s q") fastforce+
  then show ?thesis using assms(1,2,5) unfolding owned_def by (auto simp: nth_list_update split: if_splits)
qed

lemma owned_write:
  assumes "owned s" "claim (procs s p) = Some (i, c)" "sync_info t = c" "claim pc = Some (i, c)"
  shows "owned (set_proc p pc (set_task i t s))"
  using assms unfolding owned_def by (auto simp: nth_list_update split: if_splits)

lemma owned_release:
  assumes "owned s" "claim (procs s p) = Some (i, c)" "claim pc = None"
  shows "owned (set_proc p pc (set_task i t s))"
  using assms unfolding owned_def by (auto simp: nth_list_update split: if_splits)

lemma ring_index_less: "q_tasks s \<noteq> [] \<Longrightarrow> ring_index_of s i < length (q_tasks s)"
  by (simp add: ring_index_of_def nat_less_iff)

lemma owned_nonempty: "owned s \<Longrightarrow> q_tasks s \<noteq> []"
  by (simp add: owned_def)

lemma a_cxstrong_True: "a_cxstrong obj e d = (True, sy) \<longleftrightarrow> obj = e \<and> sy = d"
  by (auto simp: a_cxstrong_def)

lemmas sync_distinct = Task__Empty_def Task__Writing_def Task__Queued_def Task__Reading_def

lemma owned_index:
  assumes "owned s"
  shows "owned (s\<lparr>q_write := w\<rparr>)" "owned (s\<lparr>q_read := w\<rparr>)" "owned (s\<lparr>q_next_id := k\<rparr>)"
    "owned (s\<lparr>accepted := xs\<rparr>)" "owned (s\<lparr>taken := xs\<rparr>)"
  using assms by (simp_all add: owned_def)

lemma owned_step: "queue_step s t \<Longrightarrow> owned s \<Longrightarrow> owned t"
proof (induction rule: queue_step.induct)
  case (enq_claim s p d ub w i t sy)
  then show ?case
    by (intro owned_claim) (auto simp: a_cxstrong_True sync_distinct ring_index_less owned_nonempty)
next
  case (deq_claim s p r w i t sy)
  then show ?case
    by (intro owned_claim) (auto simp: a_cxstrong_True sync_distinct ring_index_less owned_nonempty)
next
  case (enq_write s p d i k)
  then have "sync_info (q_tasks s ! i) = Task__Writing" unfolding owned_def by (metis claim.simps(2))
  then show ?case using enq_write by (intro owned_write) auto
next
  case (enq_publish s p d i k)
  then show ?case by (intro owned_release) (auto intro: owned_index)
next
  case (deq_release s p i t)
  then show ?case by (intro owned_release) (auto intro: owned_index)
qed (auto intro!: owned_local intro: owned_index)

section \<open>Contents\<close>

definition live_entry :: "Task \<Rightarrow> (s64 \<times> TaskData) multiset" where
  "live_entry t = (if sync_info t = Task__Queued \<or> sync_info t = Task__Reading then {#entry_of t#} else {#})"

definition live :: "Task list \<Rightarrow> (s64 \<times> TaskData) multiset" where
  "live ts = sum_list (map live_entry ts)"

definition contents :: "queue_sys \<Rightarrow> bool" where
  "contents s \<longleftrightarrow> mset (accepted s) = mset (taken s) + live (q_tasks s)
     \<and> (\<forall>p d i k. procs s p = EnqWritten d i k \<longrightarrow> entry_of (q_tasks s ! i) = (k, d))
     \<and> (\<forall>p i t. procs s p = DeqCopied i t \<longrightarrow> entry_of t = entry_of (q_tasks s ! i))
     \<and> (\<forall>p t. procs s p = DeqDone t \<longrightarrow> t = empty_task \<or> entry_of t \<in> set (taken s))"

lemma live_update: "i < length ts \<Longrightarrow> live (ts[i := t]) + live_entry (ts ! i) = live ts + live_entry t"
  unfolding live_def by (rule sum_mset_update)

lemma live_same: "i < length ts \<Longrightarrow> live_entry (ts ! i) = live_entry t \<Longrightarrow> live (ts[i := t]) = live ts"
  using live_update [of i ts t] by simp

lemma contents_local:
  assumes "contents s" "\<And>d i k. pc = EnqWritten d i k \<Longrightarrow> entry_of (q_tasks s ! i) = (k, d)"
    and "\<And>i t. pc = DeqCopied i t \<Longrightarrow> entry_of t = entry_of (q_tasks s ! i)"
    and "\<And>t. pc = DeqDone t \<Longrightarrow> t = empty_task \<or> entry_of t \<in> set (taken s)"
  shows "contents (set_proc p pc s)"
  using assms unfolding contents_def by (auto split: if_splits)

lemma contents_index: "contents (s\<lparr>q_write := w\<rparr>) = contents s" "contents (s\<lparr>q_read := w\<rparr>) = contents s" "contents (s\<lparr>q_next_id := k\<rparr>) = contents s"
  by (simp_all add: contents_def)

text \<open>A change of a slot that keeps its live entry, by the process that owns it or claims it.\<close>

lemma contents_slot:
  assumes "contents s" "owned (set_proc p pc (set_task i t s))" "i < length (q_tasks s)" "live_entry (q_tasks s ! i) = live_entry t"
    and "claim pc = Some (i, c)"
    and "\<And>d k. pc = EnqWritten d i k \<Longrightarrow> entry_of t = (k, d)" "\<And>u. pc \<noteq> DeqCopied i u"
  shows "contents (set_proc p pc (set_task i t s))"
proof -
  have other: "claim (procs s q) \<noteq> Some (i, c')" if "q \<noteq> p" for q c'
    using assms(2,5) that unfolding owned_def by (metis fun_upd_other fun_upd_same set_simps(2,7))
  have w: "entry_of ((q_tasks s)[i := t] ! j) = (k, d)" if "((procs s)(p := pc)) q = EnqWritten d j k" for q d j k
  proof (cases "q = p")
    case True
    then show ?thesis using that assms(3,5,6) by simp
  next
    case False
    then have "j \<noteq> i" "procs s q = EnqWritten d j k" using that other [OF False] by auto
    then show ?thesis using assms(1) unfolding contents_def by auto
  qed
  have r: "entry_of u = entry_of ((q_tasks s)[i := t] ! j)" if "((procs s)(p := pc)) q = DeqCopied j u" for q j u
  proof (cases "q = p")
    case True
    then show ?thesis using that assms(5,7) by auto
  next
    case False
    then have "j \<noteq> i" "procs s q = DeqCopied j u" using that other [OF False] by auto
    then show ?thesis using assms(1) unfolding contents_def by auto
  qed
  have "u = empty_task \<or> entry_of u \<in> set (taken s)" if "((procs s)(p := pc)) q = DeqDone u" for q u
    using that assms(1,5) unfolding contents_def by (auto split: if_splits)
  then show ?thesis
    using assms(1,3,4) w r unfolding contents_def by (simp add: live_same)
qed

lemma contents_release:
  assumes "contents s" "owned s" "claim (procs s p) = Some (i, c)" "claim pc = None"
    and "mset acc = mset tk + live ((q_tasks s)[i := t])" "set (taken s) \<subseteq> set tk" "\<And>u. pc = DeqDone u \<Longrightarrow> entry_of u \<in> set tk"
  shows "contents (set_proc p pc (set_task i t (s\<lparr>accepted := acc, taken := tk\<rparr>)))"
proof -
  have other: "claim (procs s q) \<noteq> Some (i, c')" if "q \<noteq> p" for q c'
    using assms(2,3) that unfolding owned_def by blast
  have w: "entry_of ((q_tasks s)[i := t] ! j) = (k, d)" if "((procs s)(p := pc)) q = EnqWritten d j k" for q d j k
  proof -
    have "q \<noteq> p" using that assms(4) by auto
    then have "j \<noteq> i" "procs s q = EnqWritten d j k" using that other [of q] by auto
    then show ?thesis using assms(1) unfolding contents_def by auto
  qed
  have r: "entry_of u = entry_of ((q_tasks s)[i := t] ! j)" if "((procs s)(p := pc)) q = DeqCopied j u" for q j u
  proof -
    have "q \<noteq> p" using that assms(4) by auto
    then have "j \<noteq> i" "procs s q = DeqCopied j u" using that other [of q] by auto
    then show ?thesis using assms(1) unfolding contents_def by auto
  qed
  have "u = empty_task \<or> entry_of u \<in> set tk" if "((procs s)(p := pc)) q = DeqDone u" for q u
  proof (cases "q = p")
    case False
    then have "procs s q = DeqDone u" using that by simp
    then show ?thesis using assms(1,6) unfolding contents_def by blast
  qed (use that assms(7) in simp)
  then show ?thesis using assms(5) w r unfolding contents_def by (auto simp: set_proc_def set_task_def)
qed

lemma claimed:
  assumes "owned s" "claim (procs s p) = Some (i, c)"
  shows "i < length (q_tasks s)" "sync_info (q_tasks s ! i) = c"
  using assms unfolding owned_def by blast+

lemma contents_step: "queue_step s t \<Longrightarrow> owned s \<Longrightarrow> contents s \<Longrightarrow> contents t"
proof (induction rule: queue_step.induct)
  case (enq_claim s p d ub w i t sy)
  have "owned (set_proc p (EnqClaimed d i) (set_task i (t\<lparr>sync_info := sy\<rparr>) s))"
    using owned_step [OF queue_step.enq_claim] enq_claim by blast
  then show ?case using enq_claim
    by (intro contents_slot) (auto simp: a_cxstrong_True live_entry_def sync_distinct ring_index_less owned_nonempty)
next
  case (deq_claim s p r w i t sy)
  have "owned (set_proc p (DeqClaimed i) (set_task i (t\<lparr>sync_info := sy\<rparr>) s))"
    using owned_step [OF queue_step.deq_claim] deq_claim by blast
  then show ?case using deq_claim
    by (intro contents_slot) (auto simp: a_cxstrong_True live_entry_def entry_of_def sync_distinct ring_index_less owned_nonempty)
next
  case (enq_write s p d i k)
  note c = claimed [OF enq_write(2), of p i Task__Writing]
  have "owned (set_proc p (EnqWritten d i k) (set_task i ((q_tasks s ! i)\<lparr>task_id := k, task_data := d\<rparr>) s))"
    using owned_step [OF queue_step.enq_write] enq_write by blast
  then show ?case using enq_write c
    by (intro contents_slot) (auto simp: live_entry_def entry_of_def sync_distinct)
next
  case (enq_publish s p d i k)
  note c = claimed [OF enq_publish(2), of p i Task__Writing]
  let ?t = "(q_tasks s ! i)\<lparr>sync_info := Task__Queued\<rparr>"
  have "entry_of (q_tasks s ! i) = (k, d)" using enq_publish(1,3) unfolding contents_def by blast
  then have "live_entry ?t = {#(k, d)#}" by (simp add: live_entry_def entry_of_def)
  moreover have "live_entry (q_tasks s ! i) = {#}" using c enq_publish(1) by (simp add: live_entry_def sync_distinct)
  ultimately have "live ((q_tasks s)[i := ?t]) = live (q_tasks s) + {#(k, d)#}"
    using live_update [of i "q_tasks s" ?t] c enq_publish(1) by simp
  then have "mset (accepted s @ [(k, d)]) = mset (taken s) + live ((q_tasks s)[i := ?t])"
    using enq_publish(3) unfolding contents_def by simp
  then have "contents (set_proc p (EnqDone True) (set_task i ?t (s\<lparr>accepted := accepted s @ [(k, d)], taken := taken s\<rparr>)))"
    using enq_publish by (intro contents_release [where c = Task__Writing]) auto
  moreover have "s\<lparr>accepted := accepted s @ [(k, d)], taken := taken s\<rparr> = s\<lparr>accepted := accepted s @ [(k, d)]\<rparr>" by simp
  ultimately show ?case by simp
next
  case (deq_release s p i t)
  note c = claimed [OF deq_release(2), of p i Task__Reading]
  let ?t = "(q_tasks s ! i)\<lparr>sync_info := Task__Empty\<rparr>"
  have e: "entry_of t = entry_of (q_tasks s ! i)" using deq_release(1,3) unfolding contents_def by blast
  then have "live_entry (q_tasks s ! i) = {#entry_of t#}" using c deq_release(1) by (simp add: live_entry_def)
  moreover have "live_entry ?t = {#}" by (simp add: live_entry_def sync_distinct)
  ultimately have "live (q_tasks s) = live ((q_tasks s)[i := ?t]) + {#entry_of t#}"
    using live_update [of i "q_tasks s" ?t] c deq_release(1) by simp
  then have "mset (accepted s) = mset (taken s @ [entry_of t]) + live ((q_tasks s)[i := ?t])"
    using deq_release(3) unfolding contents_def by simp
  then have "contents (set_proc p (DeqDone t) (set_task i ?t (s\<lparr>accepted := accepted s, taken := taken s @ [entry_of t]\<rparr>)))"
    using deq_release by (intro contents_release [where c = Task__Reading]) auto
  then show ?case by simp
qed (auto intro!: contents_local simp: contents_index split: if_splits)

section \<open>Identifiers\<close>

fun number :: "proc \<Rightarrow> s64 option" where
  "number (EnqNumbered d i k) = Some k"
| "number (EnqWritten d i k) = Some k"
| "number _ = None"

definition fresh_ids :: "queue_sys \<Rightarrow> bool" where
  "fresh_ids s \<longleftrightarrow> (\<forall>k\<in>fst ` set (accepted s). k < q_next_id s) \<and> distinct (map fst (accepted s))
     \<and> (\<forall>p k. number (procs s p) = Some k \<longrightarrow> k < q_next_id s \<and> k \<notin> fst ` set (accepted s))
     \<and> (\<forall>p q k. number (procs s p) = Some k \<longrightarrow> number (procs s q) = Some k \<longrightarrow> p = q)"

lemma fresh_local: "fresh_ids s \<Longrightarrow> number pc = None \<Longrightarrow> fresh_ids (set_proc p pc s)"
  unfolding fresh_ids_def by (auto split: if_splits)

lemma fresh_index: "fresh_ids (s\<lparr>q_write := w\<rparr>) = fresh_ids s" "fresh_ids (s\<lparr>q_read := w\<rparr>) = fresh_ids s"
    "fresh_ids (set_task i t s) = fresh_ids s" "fresh_ids (s\<lparr>taken := xs\<rparr>) = fresh_ids s"
  by (simp_all add: fresh_ids_def)

lemma fresh_step: "queue_step s t \<Longrightarrow> fresh_ids s \<Longrightarrow> fresh_ids t"
proof (induction rule: queue_step.induct)
  case (enq_number s p d i)
  then have "\<forall>q k. number (procs s q) = Some k \<longrightarrow> k < q_next_id s" "\<forall>k\<in>fst ` set (accepted s). k < q_next_id s"
    unfolding fresh_ids_def by blast+
  moreover have "number (((procs s)(p := EnqNumbered d i (q_next_id s))) q) = (if q = p then Some (q_next_id s) else number (procs s q))" for q
    by simp
  moreover have "distinct (map fst (accepted s))"
    "\<forall>q k. number (procs s q) = Some k \<longrightarrow> k \<notin> fst ` set (accepted s)"
    "\<forall>q r k. number (procs s q) = Some k \<longrightarrow> number (procs s r) = Some k \<longrightarrow> q = r"
    using enq_number(2) unfolding fresh_ids_def by blast+
  ultimately show ?case
    unfolding fresh_ids_def by (simp del: fun_upd_apply) (fastforce intro: less_imp_le)
next
  case (enq_write s p d i k)
  have "number (((procs s)(p := EnqWritten d i k)) q) = number (procs s q)" for q using enq_write(1) by simp
  then show ?case using enq_write(2) unfolding fresh_ids_def by simp
next
  case (enq_publish s p d i k)
  then have "number (procs s p) = Some k" by simp
  then have "k < q_next_id s" "k \<notin> fst ` set (accepted s)" "\<And>q. q \<noteq> p \<Longrightarrow> number (procs s q) \<noteq> Some k"
    using enq_publish(2) unfolding fresh_ids_def by blast+
  then show ?case using enq_publish(2) unfolding fresh_ids_def by (auto split: if_splits)
qed (auto intro!: fresh_local simp: fresh_index split: if_splits)

section \<open>Properties\<close>

definition queue_init :: "queue_sys \<Rightarrow> bool" where
  "queue_init s \<longleftrightarrow> q_tasks s \<noteq> [] \<and> list_all (\<lambda>t. sync_info t = Task__Empty) (q_tasks s)
     \<and> (\<forall>p. procs s p = DeqStart \<or> (\<exists>d. procs s p = EnqStart d)) \<and> accepted s = [] \<and> taken s = []"

lemma queue_init_inv:
  assumes "queue_init s"
  shows "owned s" "contents s" "fresh_ids s"
proof -
  have p: "claim (procs s p) = None" "number (procs s p) = None" "procs s p \<noteq> EnqWritten d i k" "procs s p \<noteq> DeqCopied i t" "procs s p \<noteq> DeqDone t"
    for p d i k t
  proof -
    have "procs s p = DeqStart \<or> (\<exists>d. procs s p = EnqStart d)" using assms by (simp add: queue_init_def)
    then show "claim (procs s p) = None" "number (procs s p) = None" "procs s p \<noteq> EnqWritten d i k" "procs s p \<noteq> DeqCopied i t"
      "procs s p \<noteq> DeqDone t" by auto
  qed
  have "live ts = {#}" if "list_all (\<lambda>t. sync_info t = Task__Empty) ts" for ts
    using that by (induction ts) (simp_all add: live_def live_entry_def sync_distinct)
  then show "contents s" using assms p(3-5) by (simp add: contents_def queue_init_def)
  show "owned s" "fresh_ids s" using assms p(1,2) by (simp_all add: owned_def fresh_ids_def queue_init_def)
qed

lemma queue_run_inv:
  "queue_step\<^sup>*\<^sup>* s t \<Longrightarrow> owned s \<and> contents s \<and> fresh_ids s \<Longrightarrow> owned t \<and> contents t \<and> fresh_ids t"
  by (induction rule: rtranclp_induct) (auto intro: owned_step contents_step fresh_step)

text \<open>C14. Concurrent calls of \<^verbatim>\<open>enqueue_task\<close> and \<^verbatim>\<open>dequeue_task\<close>, in any number and interleaved in any
  way: a slot being written or read is held by one call only, no task is lost or duplicated (the accepted
  tasks are the ones taken out and the ones in the slots, with distinct identifiers), and a call of
  \<^verbatim>\<open>dequeue_task\<close> returns the empty task or one that was taken out.\<close>

theorem concurrent_queue_safe:
  assumes "queue_init s" "queue_step\<^sup>*\<^sup>* s t"
  shows "(\<forall>p q i c c'. claim (procs t p) = Some (i, c) \<longrightarrow> claim (procs t q) = Some (i, c') \<longrightarrow> p = q)
       \<and> mset (accepted t) = mset (taken t) + live (q_tasks t) \<and> distinct (map fst (accepted t))
       \<and> (\<forall>p r. procs t p = DeqDone r \<longrightarrow> r = empty_task \<or> entry_of r \<in> set (taken t))"
proof -
  have "owned t \<and> contents t \<and> fresh_ids t"
    using queue_run_inv [OF assms(2)] queue_init_inv [OF assms(1)] by blast
  then show ?thesis unfolding owned_def contents_def fresh_ids_def by (elim conjE) (intro conjI; assumption)
qed

definition sample_sys :: queue_sys where
  "sample_sys = \<lparr>q_tasks = [empty_task], q_read = 0, q_write = 0, q_next_id = 5, procs = (\<lambda>p. EnqStart no_data), accepted = [], taken = []\<rparr>"

lemma sample_sys_init: "queue_init sample_sys"
  by (simp add: queue_init_def sample_sys_def empty_task_def)

text \<open>A run in which one call enqueues its task.\<close>

lemma sample_run: "\<exists>t. queue_step\<^sup>*\<^sup>* sample_sys t \<and> procs t 0 = EnqDone True \<and> accepted t = [(5, no_data)] \<and> taken t = []"
proof -
  let ?s = "\<lambda>ts k pc acc. \<lparr>q_tasks = ts, q_read = 0, q_write = 0, q_next_id = k, procs = (\<lambda>p. EnqStart no_data)(0 := pc), accepted = acc, taken = []\<rparr>"
  let ?t = "\<lambda>c k. \<lparr>sync_info = c, task_id = k, task_data = no_data\<rparr>"
  have e: "empty_task = ?t Task__Empty 0" by (simp add: empty_task_def)
  have s0: "sample_sys = ?s [empty_task] 5 (EnqStart no_data) []" by (simp add: sample_sys_def fun_eq_iff)
  have 1: "queue_step (?s [empty_task] 5 (EnqStart no_data) []) (?s [empty_task] 5 (EnqBound no_data 1) [])"
    using queue_step.enq_load_read [of "?s [empty_task] 5 (EnqStart no_data) []" 0 no_data] by (simp add: set_proc_def)
  have 2: "queue_step (?s [empty_task] 5 (EnqBound no_data 1) []) (?s [empty_task] 5 (EnqTry no_data 1 0) [])"
    using queue_step.enq_load_write [of "?s [empty_task] 5 (EnqBound no_data 1) []" 0 no_data 1] by (simp add: set_proc_def)
  have 3: "queue_step (?s [empty_task] 5 (EnqTry no_data 1 0) []) (?s [?t Task__Writing 0] 5 (EnqClaimed no_data 0) [])"
    using queue_step.enq_claim [of "?s [empty_task] 5 (EnqTry no_data 1 0) []" 0 no_data 1 0 0 empty_task Task__Writing]
    by (simp add: set_proc_def set_task_def ring_index_of_def a_cxstrong_def e)
  have 4: "queue_step (?s [?t Task__Writing 0] 5 (EnqClaimed no_data 0) []) (?s [?t Task__Writing 0] 6 (EnqNumbered no_data 0 5) [])"
    using queue_step.enq_number [of "?s [?t Task__Writing 0] 5 (EnqClaimed no_data 0) []" 0 no_data 0] by (simp add: set_proc_def)
  have 5: "queue_step (?s [?t Task__Writing 0] 6 (EnqNumbered no_data 0 5) []) (?s [?t Task__Writing 5] 6 (EnqWritten no_data 0 5) [])"
    using queue_step.enq_write [of "?s [?t Task__Writing 0] 6 (EnqNumbered no_data 0 5) []" 0 no_data 0 5] by (simp add: set_proc_def set_task_def)
  have 6: "queue_step (?s [?t Task__Writing 5] 6 (EnqWritten no_data 0 5) []) (?s [?t Task__Queued 5] 6 (EnqDone True) [(5, no_data)])"
    using queue_step.enq_publish [of "?s [?t Task__Writing 5] 6 (EnqWritten no_data 0 5) []" 0 no_data 0 5] by (simp add: set_proc_def set_task_def)
  have "queue_step\<^sup>*\<^sup>* sample_sys (?s [?t Task__Queued 5] 6 (EnqDone True) [(5, no_data)])"
    unfolding s0 by (intro converse_rtranclp_into_rtranclp [where r = queue_step, OF 1] converse_rtranclp_into_rtranclp [where r = queue_step, OF 2]
      converse_rtranclp_into_rtranclp [where r = queue_step, OF 3] converse_rtranclp_into_rtranclp [where r = queue_step, OF 4] converse_rtranclp_into_rtranclp [where r = queue_step, OF 5]
      r_into_rtranclp [where r = queue_step, OF 6])
  then show ?thesis by (intro exI [of _ "?s [?t Task__Queued 5] 6 (EnqDone True) [(5, no_data)]"]) simp
qed

theorem concurrent_queue_safe_witness:
  "\<exists>t. queue_step\<^sup>*\<^sup>* sample_sys t \<and> procs t 0 = EnqDone True \<and> live (q_tasks t) = {#(5, no_data)#}"
proof -
  obtain t where t: "queue_step\<^sup>*\<^sup>* sample_sys t" "procs t 0 = EnqDone True" "accepted t = [(5, no_data)]" "taken t = []"
    using sample_run by blast
  have "mset (accepted t) = mset (taken t) + live (q_tasks t)" using concurrent_queue_safe [OF sample_sys_init t(1)] by blast
  then show ?thesis using t by auto
qed

end
