(* ===== verification/Table_Listing.thy ===== *)
theory Table_Listing
  imports Address_Space
begin

text \<open>
  The listing of a tree of page tables on the log, \<^verbatim>\<open>traverse_table\<close> of \<^verbatim>\<open>src/kern/page_tables.c\<close>. The loop keeps a mode
  and a count to report a run of empty or of page entries in one line when the run ends; the reference is a
  division of the table into maximal runs.
\<close>

section \<open>Model\<close>

datatype Mode = TABLE | EMPTY | PAGE

definition prefixes :: "string list" where
  "prefixes = [''| | | +-'', ''| | +-'', ''| +-'', ''+-'', '''']"

definition page_size_for_entry :: "string list" where
  "page_size_for_entry = ['''', ''4Kb'', ''2Mb'', ''1Gb'', '''']"

definition table_log :: "u32 \<Rightarrow> string \<Rightarrow> any list \<Rightarrow> logging \<Rightarrow> logging result" where
  "table_log line fmt args st = ext__log_fmt [] \<lparr>loc_file = Some ''./kern/page_tables.c'', loc_line = line\<rparr> fmt (int (length args)) args st"

text \<open>\<^verbatim>\<open>FINISH_MODE\<close>; \<^verbatim>\<open>__LINE__\<close> is the line of its use.\<close>

definition FINISH_MODE :: "u32 \<Rightarrow> nat \<Rightarrow> Mode \<Rightarrow> s64 \<Rightarrow> logging \<Rightarrow> (s64 \<times> logging) result" where
  "FINISH_MODE line table_level mode type_count st =
     (case mode of
        TABLE \<Rightarrow> Inr (type_count, st)
      | EMPTY \<Rightarrow>
          bindR (idxR prefixes (int table_level - 1)) (\<lambda>p.
          bindR (table_log line ''%f%f empty p%f entries''
                   [any__char_ptr (Some p), any__i64 type_count, any__u64 (of_nat table_level)] st) (\<lambda>st.
          Inr (0, st)))
      | PAGE \<Rightarrow>
          bindR (idxR prefixes (int table_level - 1)) (\<lambda>p.
          bindR (idxR page_size_for_entry (int table_level)) (\<lambda>z.
          bindR (table_log line ''%f%f %f page entries''
                   [any__char_ptr (Some p), any__i64 type_count, any__char_ptr (Some z)] st) (\<lambda>st.
          Inr (0, st)))))"

text \<open>The first loop, lines 294--298.\<close>

fun count_children :: "memory \<Rightarrow> u64 \<Rightarrow> nat \<Rightarrow> nat \<Rightarrow> u16 \<Rightarrow> u16" where
  "count_children s table 0 i c = c"
| "count_children s table (Suc n) i c =
     (let entry = load_entry s table (of_nat i) in count_children s table n (i + 1) (if entry = 0 then c else c + 1))"

definition new_mode :: "nat \<Rightarrow> u64 \<Rightarrow> Mode" where
  "new_mode table_level e =
     (if e = 0 then EMPTY else if table_level = 1 \<or> e AND PTE_HUGE_PAGE \<noteq> 0 then PAGE else TABLE)"

text \<open>The second loop, lines 323--350, with \<open>n\<close> rounds to go; \<open>inner\<close> is the recursive call.\<close>

fun traverse_entries :: "(u64 \<Rightarrow> logging \<Rightarrow> logging result) \<Rightarrow> memory \<Rightarrow> u64 \<Rightarrow> nat \<Rightarrow> nat \<Rightarrow> nat \<Rightarrow> Mode \<Rightarrow> s64 \<Rightarrow> logging
    \<Rightarrow> (Mode \<times> s64 \<times> logging) result" where
  "traverse_entries inner s table table_level 0 i mode type_count st = Inr (mode, type_count, st)"
| "traverse_entries inner s table table_level (Suc n) i mode type_count st =
     (let entry = load_entry s table (of_nat i); nm = new_mode table_level entry in
      bindR (if mode \<noteq> nm then FINISH_MODE 333 table_level mode type_count st else Inr (type_count, st)) (\<lambda>(type_count, st).
      bindR (case nm of TABLE \<Rightarrow> bindR (inner entry st) (\<lambda>st. Inr (type_count, st))
             | EMPTY \<Rightarrow> Inr (type_count + 1, st) | PAGE \<Rightarrow> Inr (type_count + 1, st)) (\<lambda>(type_count, st).
      traverse_entries inner s table table_level n (i + 1) nm type_count st)))"

fun traverse_table_inner :: "memory \<Rightarrow> nat \<Rightarrow> u64 \<Rightarrow> logging \<Rightarrow> logging result" where
  "traverse_table_inner s 0 table_entry st = Inr st"
| "traverse_table_inner s (Suc l) table_entry st =
     (if table_entry AND PTE_HUGE_PAGE \<noteq> 0 then Inr st else
      bindR (pte_address table_entry) (\<lambda>table.
      if table = 0 then Inl OutOfBounds else
      let c = count_children s table 512 0 0 in
      bindR (idxR prefixes (int (Suc l))) (\<lambda>p.
      bindR (table_log 300 ''%fp%f table with %f children''
               [any__char_ptr (Some p), any__u64 (of_nat (Suc l)), any__u64 (ucast c)] st) (\<lambda>st.
      bindR (traverse_entries (traverse_table_inner s l) s table (Suc l) 512 0 TABLE 0 st) (\<lambda>(mode, type_count, st).
      bindR (FINISH_MODE 352 (Suc l) mode type_count st) (\<lambda>(_, st). Inr st))))))"

definition traverse_table :: "memory \<Rightarrow> u64 \<Rightarrow> logging \<Rightarrow> logging result" where
  "traverse_table s p4 st = bindR (make_pte p4 0) (\<lambda>e. traverse_table_inner s 4 e st)"

section \<open>The reference: maximal runs\<close>

text \<open>\<open>spans f xs\<close>: the maximal runs of elements with the same value of \<open>f\<close>, each with that value.\<close>

function spans :: "('a \<Rightarrow> 'k) \<Rightarrow> 'a list \<Rightarrow> ('k \<times> 'a list) list" where
  "spans f [] = []"
| "spans f (x # xs) = (f x, x # takeWhile (\<lambda>y. f y = f x) xs) # spans f (dropWhile (\<lambda>y. f y = f x) xs)"
  by pat_completeness auto
termination
  by (relation "measure (\<lambda>(f, xs). length xs)") (auto simp: less_Suc_eq_le length_dropWhile_le)

definition table_line :: "u32 \<Rightarrow> string \<Rightarrow> string" where
  "table_line line t = log_line (prefix_text \<lparr>loc_file = Some ''./kern/page_tables.c'', loc_line = line\<rparr> @ t)"

definition run_line :: "u32 \<Rightarrow> nat \<Rightarrow> Mode \<Rightarrow> nat \<Rightarrow> string" where
  "run_line line l m n =
     (case m of TABLE \<Rightarrow> []
      | EMPTY \<Rightarrow> table_line line (prefixes ! (l - 1) @ decimal n @ '' empty p'' @ decimal l @ '' entries'')
      | PAGE \<Rightarrow> table_line line (prefixes ! (l - 1) @ decimal n @ '' '' @ page_size_for_entry ! l @ '' page entries''))"

text \<open>The lines for the runs of a table: a run of tables is the listing of each of them, any other run is one line.\<close>

fun span_lines :: "nat \<Rightarrow> (u64 \<Rightarrow> string) \<Rightarrow> (Mode \<times> u64 list) list \<Rightarrow> string" where
  "span_lines l sub [] = []"
| "span_lines l sub ((m, es) # rest) =
     (if m = TABLE then concat (map sub es) else run_line (if rest = [] then 352 else 333) l m (length es)) @ span_lines l sub rest"

text \<open>What an entry of a table of level \<open>l\<close> is to the processor: bit 7 marks a large page.\<close>

definition entry_kind :: "nat \<Rightarrow> u64 \<Rightarrow> Mode" where
  "entry_kind l e = (if e = 0 then EMPTY else if l = 1 \<or> bit e 7 then PAGE else TABLE)"

lemma new_mode_kind: "new_mode l = entry_kind l"
  using huge_bit unfolding huge_def by (auto simp: fun_eq_iff new_mode_def entry_kind_def)

definition entries :: "memory \<Rightarrow> int \<Rightarrow> u64 list" where
  "entries s t = map (\<lambda>i. entry s t (int i)) [0..<512]"

fun listing :: "memory \<Rightarrow> nat \<Rightarrow> int \<Rightarrow> string" where
  "listing s 0 t = []"
| "listing s (Suc l) t =
     table_line 300 (prefixes ! Suc l @ ''p'' @ decimal (Suc l) @ '' table with '' @ decimal (length (filter (\<lambda>e. e \<noteq> 0) (entries s t))) @ '' children'')
     @ span_lines (Suc l) (\<lambda>e. listing s l (pte_page e)) (spans (entry_kind (Suc l)) (entries s t))"

section \<open>The log lines\<close>

lemma table_log_ok:
  assumes "log_ready st" "\<forall>a\<in>set args. any_ok a" "fmt_text fmt args = (t, k, True)"
  shows "\<exists>st'. table_log line fmt args st = Inr st' \<and> log_ready st' \<and> serial st' = serial st @ table_line line t"
proof -
  have "short_loc ''./kern/page_tables.c'' line" by (rule short_loc) simp
  then obtain buf where "length buf = 200" "table_log line fmt args st = Inr (st\<lparr>log_buffer := buf, serial := serial st @ table_line line t\<rparr>)"
    using ext__log_fmt_eq(1) [OF _ _ assms(2,3), of st "\<lparr>loc_file = Some ''./kern/page_tables.c'', loc_line = line\<rparr>" "[]"] assms(1)
    by (auto simp: table_log_def short_loc_def table_line_def)
  then show ?thesis using assms(1) by (auto simp: log_ok_def)
qed

lemma level_texts:
  assumes "l \<le> 4"
  shows "idxR prefixes (int l) = Inr (prefixes ! l)" "ctext (prefixes ! l) = prefixes ! l"
    "idxR page_size_for_entry (int l) = Inr (page_size_for_entry ! l)" "ctext (page_size_for_entry ! l) = page_size_for_entry ! l"
proof -
  have l: "l = 0 \<or> l = 1 \<or> l = 2 \<or> l = 3 \<or> l = 4" using assms by auto
  show "idxR prefixes (int l) = Inr (prefixes ! l)" "idxR page_size_for_entry (int l) = Inr (page_size_for_entry ! l)"
    using assms by (simp_all add: idxR_def prefixes_def page_size_for_entry_def)
  show "ctext (prefixes ! l) = prefixes ! l" "ctext (page_size_for_entry ! l) = page_size_for_entry ! l"
    using l by (auto simp: prefixes_def page_size_for_entry_def ctext_def NUL_def)
qed

lemma sint_of_nat_small: "n < 2 ^ 63 \<Longrightarrow> sint (U64 (int n)) = int n"
  using uint_word_of_int_small [of "int n"] sint_eq_uint_small [of "U64 (int n)"] by simp

lemmas arg_simps = any_ok_def any__char_ptr_def any__i64_def any__u64_def signed_type_def any_text_def NUL_def

lemma FINISH_MODE_ok:
  assumes st: "log_ready st" and l: "0 < l" "l \<le> 4" and n: "n \<le> 512"
  shows "\<exists>st'. FINISH_MODE line l m (int n) st = Inr (if m = TABLE then int n else 0, st') \<and> log_ready st'
           \<and> serial st' = serial st @ run_line line l m n"
proof -
  obtain k where k: "l = Suc k" "k \<le> 4" "int l - 1 = int k" using l by (cases l) auto
  have u: "unat (of_nat l :: u64) = l" using l by (simp add: unsigned_of_nat take_bit_nat_eq_self)
  have si: "sint (U64 (int n)) = int n" by (rule sint_of_nat_small) (use n in simp)
  have i: "int_text (int n) = decimal n" by (simp add: int_text_def)
  show ?thesis
  proof (cases m)
    case TABLE
    then show ?thesis using st by (simp add: FINISH_MODE_def run_line_def)
  next
    case EMPTY
    let ?args = "[any__char_ptr (Some (prefixes ! k)), any__i64 (int n), any__u64 (of_nat l)]"
    have ok: "\<forall>a\<in>set ?args. any_ok a" using si n by (simp add: arg_simps)
    have f: "fmt_text ''%f%f empty p%f entries'' ?args = (prefixes ! k @ decimal n @ '' empty p'' @ decimal l @ '' entries'', 3, True)"
      using si i u level_texts(2) [OF k(2)] by (simp add: arg_simps)
    from table_log_ok [OF st ok f, of line] obtain st' where
      "table_log line ''%f%f empty p%f entries'' ?args st = Inr st'" "log_ready st'"
      "serial st' = serial st @ table_line line (prefixes ! k @ decimal n @ '' empty p'' @ decimal l @ '' entries'')" by blast
    then show ?thesis using level_texts(1) [OF k(2)] EMPTY k(3)
      by (intro exI [of _ st']) (simp add: FINISH_MODE_def run_line_def k(1) [symmetric], simp add: k(1))
  next
    case PAGE
    let ?args = "[any__char_ptr (Some (prefixes ! k)), any__i64 (int n), any__char_ptr (Some (page_size_for_entry ! l))]"
    have ok: "\<forall>a\<in>set ?args. any_ok a" using si n by (simp add: arg_simps)
    have f: "fmt_text ''%f%f %f page entries'' ?args = (prefixes ! k @ decimal n @ '' '' @ page_size_for_entry ! l @ '' page entries'', 3, True)"
      using si i level_texts(2) [OF k(2)] level_texts(4) [OF l(2)] by (simp add: arg_simps)
    from table_log_ok [OF st ok f, of line] obtain st' where
      "table_log line ''%f%f %f page entries'' ?args st = Inr st'" "log_ready st'"
      "serial st' = serial st @ table_line line (prefixes ! k @ decimal n @ '' '' @ page_size_for_entry ! l @ '' page entries'')" by blast
    then show ?thesis using level_texts(1) [OF k(2)] level_texts(3) [OF l(2)] PAGE k(3)
      by (intro exI [of _ st']) (simp add: FINISH_MODE_def run_line_def, simp add: k(1))
  qed
qed


section \<open>The loops\<close>

text \<open>What the second loop and the final \<^verbatim>\<open>FINISH_MODE\<close> print from a mode and a count.\<close>

fun out :: "nat \<Rightarrow> (u64 \<Rightarrow> string) \<Rightarrow> Mode \<Rightarrow> nat \<Rightarrow> u64 list \<Rightarrow> string" where
  "out l sub m n [] = run_line 352 l m n"
| "out l sub m n (e # es) =
     (let nm = new_mode l e in
      (if m \<noteq> nm then run_line 333 l m n else []) @
      (if nm = TABLE then sub e @ out l sub TABLE 0 es else out l sub nm (if m = nm then Suc n else 1) es))"

lemma run_line_TABLE [simp]: "run_line line l TABLE n = []"
  by (simp add: run_line_def)

lemma out_change: "new_mode l e \<noteq> m \<Longrightarrow> out l sub m n (e # es) = run_line 333 l m n @ out l sub TABLE 0 (e # es)"
  by (auto simp: Let_def)

lemma out_run:
  assumes "m \<noteq> TABLE"
  shows "out l sub m n es =
    run_line (if dropWhile (\<lambda>e. new_mode l e = m) es = [] then 352 else 333) l m (n + length (takeWhile (\<lambda>e. new_mode l e = m) es))
    @ out l sub TABLE 0 (dropWhile (\<lambda>e. new_mode l e = m) es)"
proof (induction es arbitrary: n)
  case (Cons e es)
  show ?case
  proof (cases "new_mode l e = m")
    case True
    then show ?thesis using Cons.IH [of "Suc n"] assms by (simp add: Let_def)
  next
    case False
    then show ?thesis using out_change [OF False] by simp
  qed
qed simp

lemma out_tables:
  "out l sub TABLE 0 es = concat (map sub (takeWhile (\<lambda>e. new_mode l e = TABLE) es)) @ out l sub TABLE 0 (dropWhile (\<lambda>e. new_mode l e = TABLE) es)"
  by (induction es) (auto simp: Let_def)

lemma spans_Nil [simp]: "spans f xs = [] \<longleftrightarrow> xs = []"
  by (cases xs) simp_all

lemma out_spans: "out l sub TABLE 0 es = span_lines l sub (spans (new_mode l) es)"
proof (induction "new_mode l" es rule: spans.induct)
  case (2 e es)
  show ?case
  proof (cases "new_mode l e = TABLE")
    case True
    then show ?thesis using 2 out_tables [of l sub es] by (simp add: Let_def)
  next
    case False
    then show ?thesis using 2 out_run [OF False, of l sub 1 es] by (simp add: Let_def)
  qed
qed simp

lemma load_entry_nat: "i < 512 \<Longrightarrow> load_entry s (page_ptr t) (of_nat i) = entry s t (int i)"
  using entry_index [of i] by (simp add: load_entry_def entry_def)

lemma count_children_eq:
  "i + n \<le> 512 \<Longrightarrow> count_children s (page_ptr t) n i c = c + of_nat (length (filter (\<lambda>e. e \<noteq> 0) (map (\<lambda>i. entry s t (int i)) [i..<i + n])))"
proof (induction n arbitrary: i c)
  case (Suc n)
  have up: "[i..<i + Suc n] = i # [Suc i..<Suc i + n]" by (simp add: upt_rec)
  have "load_entry s (page_ptr t) (of_nat i) = entry s t (int i)" using load_entry_nat Suc.prems by simp
  moreover have "count_children s (page_ptr t) n (Suc i) d = d + of_nat (length (filter (\<lambda>e. e \<noteq> 0) (map (\<lambda>i. entry s t (int i)) [Suc i..<Suc i + n])))" for d
    using Suc.IH [of "Suc i" d] Suc.prems by simp
  ultimately show ?case by (simp only: up count_children.simps Let_def list.map filter.simps Suc_eq_plus1 [symmetric] split: if_split) simp
qed simp

lemma traverse_entries_ok:
  assumes l: "0 < l" "l \<le> 4"
    and inner: "\<And>i st. i < 512 \<Longrightarrow> new_mode l (entry s t (int i)) = TABLE \<Longrightarrow> log_ready st \<Longrightarrow>
      \<exists>st'. inner (entry s t (int i)) st = Inr st' \<and> log_ready st' \<and> serial st' = serial st @ sub (entry s t (int i))"
  shows "i + n \<le> 512 \<Longrightarrow> log_ready st \<Longrightarrow> c \<le> i \<Longrightarrow> (m = TABLE \<longrightarrow> c = 0) \<Longrightarrow>
    \<exists>st'. bindR (traverse_entries inner s (page_ptr t) l n i m (int c) st)
             (\<lambda>(mode, type_count, st). bindR (FINISH_MODE 352 l mode type_count st) (\<lambda>(_, st). Inr st)) = Inr st'
      \<and> log_ready st' \<and> serial st' = serial st @ out l sub m c (map (\<lambda>i. entry s t (int i)) [i..<i + n])"
proof (induction n arbitrary: i m c st)
  case 0
  then obtain st' where "FINISH_MODE 352 l m (int c) st = Inr (if m = TABLE then int c else 0, st')" "log_ready st'"
    "serial st' = serial st @ run_line 352 l m c" using FINISH_MODE_ok [OF 0(2) l, of c 352 m] by auto
  then show ?case by simp
next
  case (Suc n)
  let ?e = "entry s t (int i)"
  define nm where "nm = new_mode l ?e"
  define es where "es = map (\<lambda>i. entry s t (int i)) [Suc i..<Suc i + n]"
  have up: "map (\<lambda>i. entry s t (int i)) [i..<i + Suc n] = ?e # es" by (simp add: es_def upt_rec)
  note IH = Suc.IH [of "Suc i", folded es_def]
  have load: "load_entry s (page_ptr t) (of_nat i) = ?e" using load_entry_nat Suc.prems(1) by simp
  define d where "d = (if m = nm then c else 0)"
  have "\<exists>st1. (if m \<noteq> nm then FINISH_MODE 333 l m (int c) st else Inr (int c, st)) = Inr (int d, st1) \<and> log_ready st1
    \<and> serial st1 = serial st @ (if m \<noteq> nm then run_line 333 l m c else [])"
  proof (cases "m = nm")
    case True
    then show ?thesis using Suc.prems(2) by (simp add: d_def)
  next
    case False
    moreover have "(if m = TABLE then int c else 0) = 0" using Suc.prems(4) by simp
    moreover have "c \<le> 512" using Suc.prems by simp
    ultimately show ?thesis using FINISH_MODE_ok [OF Suc.prems(2) l, of c 333 m] by (simp add: d_def)
  qed
  then obtain st1 where st1: "(if m \<noteq> nm then FINISH_MODE 333 l m (int c) st else Inr (int c, st)) = Inr (int d, st1)" "log_ready st1"
    "serial st1 = serial st @ (if m \<noteq> nm then run_line 333 l m c else [])" by blast
  have d: "d \<le> i" "nm = TABLE \<Longrightarrow> d = 0" using Suc.prems by (auto simp: d_def)
  show ?case
  proof (cases "nm = TABLE")
    case True
    obtain st2 where st2: "inner ?e st1 = Inr st2" "log_ready st2" "serial st2 = serial st1 @ sub ?e"
      using inner [of i st1] Suc.prems(1) st1(2) True by (auto simp: nm_def)
    show ?thesis unfolding up using IH [of st2 0 TABLE] Suc.prems(1) st1 st2 d True
      by (simp add: load nm_def [symmetric] Let_def)
  next
    case False
    have step: "traverse_entries inner s (page_ptr t) l (Suc n) i m (int c) st = traverse_entries inner s (page_ptr t) l n (Suc i) nm (int (Suc d)) st1"
      using False st1(1) by (cases nm) (simp_all add: load nm_def [symmetric] Let_def add.commute [of 1])
    have lines: "out l sub m c (?e # es) = (if m \<noteq> nm then run_line 333 l m c else []) @ out l sub nm (Suc d) es"
      using False by (simp add: nm_def [symmetric] Let_def d_def)
    show ?thesis unfolding up step lines using IH [of st1 "Suc d" nm] Suc.prems(1) st1(2,3) d(1) False by simp
  qed
qed

lemma TABLE_child:
  assumes "new_mode (Suc l) (entry s t i) = TABLE"
  shows "0 < l" "entry s t i \<noteq> 0" "\<not> huge (entry s t i)" "child s (Suc l) t i = Some (pte_page (entry s t i))"
  using assms by (auto simp: new_mode_def child_def Let_def huge_def split: if_splits)

lemma children_text:
  assumes st: "log_ready st" and l: "l \<le> 4" and n: "n \<le> 512"
  shows "\<exists>st'. table_log 300 ''%fp%f table with %f children'' [any__char_ptr (Some (prefixes ! l)), any__u64 (of_nat l), any__u64 (ucast (of_nat n :: u16))] st = Inr st'
    \<and> log_ready st' \<and> serial st' = serial st @ table_line 300 (prefixes ! l @ ''p'' @ decimal l @ '' table with '' @ decimal n @ '' children'')"
proof -
  let ?args = "[any__char_ptr (Some (prefixes ! l)), any__u64 (of_nat l), any__u64 (ucast (of_nat n :: u16))]"
  have u: "unat (of_nat l :: u64) = l" "ucast (of_nat n :: u16) = (of_nat n :: u64)" "unat (of_nat n :: u64) = n"
    using l n by (simp_all add: unsigned_of_nat take_bit_nat_eq_self)
  have "\<forall>a\<in>set ?args. any_ok a" by (simp add: arg_simps)
  moreover have "fmt_text ''%fp%f table with %f children'' ?args = (prefixes ! l @ ''p'' @ decimal l @ '' table with '' @ decimal n @ '' children'', 3, True)"
    unfolding u(2) using u(1,3) level_texts(2) [OF l] by (simp add: arg_simps)
  ultimately show ?thesis by (rule table_log_ok [OF st])
qed

lemma traverse_table_inner_ok:
  assumes pt: "pt_ok N s lv p" and N: "N \<le> 2 ^ 35"
  shows "lv t = Some l \<Longrightarrow> pte_address e = Inr (page_ptr t) \<Longrightarrow> \<not> huge e \<Longrightarrow> log_ready st \<Longrightarrow>
    \<exists>st'. traverse_table_inner s l e st = Inr st' \<and> log_ready st' \<and> serial st' = serial st @ listing s l t"
proof (induction l arbitrary: t e st)
  case 0
  then show ?case using pt_okD(3) [OF pt 0(1)] by simp
next
  case (Suc l)
  let ?n = "length (filter (\<lambda>e. e \<noteq> 0) (entries s t))" and ?sub = "\<lambda>e. listing s l (pte_page e)"
  have l: "0 < Suc l" "Suc l \<le> 4" using pt_okD(3) [OF pt Suc.prems(1)] by simp_all
  have n: "?n \<le> 512" using length_filter_le [of _ "entries s t"] by (simp add: entries_def)
  have c: "count_children s (page_ptr t) 512 0 0 = of_nat ?n"
    using count_children_eq [of 0 512 s t 0] by (simp add: entries_def)
  have inner: "\<exists>st'. traverse_table_inner s l (entry s t (int i)) st = Inr st' \<and> log_ready st' \<and> serial st' = serial st @ ?sub (entry s t (int i))"
    if i: "i < 512" and m: "new_mode (Suc l) (entry s t (int i)) = TABLE" and st: "log_ready st" for i st
  proof (rule Suc.IH [OF _ _ TABLE_child(3) [OF m] st])
    show "lv (pte_page (entry s t (int i))) = Some l" using pt_okD(4) [OF pt Suc.prems(1), of "int i"] TABLE_child(4) [OF m] i by simp
    show "pte_address (entry s t (int i)) = Inr (page_ptr (pte_page (entry s t (int i))))"
      using pte_address_entry [OF pt Suc.prems(1), of "int i"] TABLE_child(2) [OF m] i by simp
  qed
  obtain st1 where st1: "table_log 300 ''%fp%f table with %f children'' [any__char_ptr (Some (prefixes ! Suc l)), any__u64 (of_nat (Suc l)), any__u64 (ucast (of_nat ?n :: u16))] st = Inr st1"
      "log_ready st1" "serial st1 = serial st @ table_line 300 (prefixes ! Suc l @ ''p'' @ decimal (Suc l) @ '' table with '' @ decimal ?n @ '' children'')"
    using children_text [OF Suc.prems(4) l(2) n] by blast
  have "map (\<lambda>i. entry s t (int i)) [0..<0 + 512] = entries s t" by (simp add: entries_def)
  with traverse_entries_ok [where inner = "traverse_table_inner s l" and sub = ?sub, OF l inner, where n = 512 and i = 0 and c = 0 and m = TABLE and st = st1] st1(2)
  obtain st2 where st2: "bindR (traverse_entries (traverse_table_inner s l) s (page_ptr t) (Suc l) 512 0 TABLE 0 st1)
      (\<lambda>(mode, type_count, st). bindR (FINISH_MODE 352 (Suc l) mode type_count st) (\<lambda>(_, st). Inr st)) = Inr st2"
      "log_ready st2" "serial st2 = serial st1 @ out (Suc l) ?sub TABLE 0 (entries s t)" by auto
  have "page_ptr t \<noteq> 0" using page_ptr_nonzero [OF table_page_ok [OF pt N Suc.prems(1)]] .
  then have "traverse_table_inner s (Suc l) e st = Inr st2"
    using Suc.prems(2,3) level_texts(1) [OF l(2)] st1(1) st2(1)
    unfolding huge_def by (simp add: c del: of_nat_Suc)
  then show ?case using st2(2,3) st1(3) by (simp only: out_spans listing.simps append_assoc new_mode_kind) simp
qed

text \<open>C23. For a well-formed tree of tables \<^verbatim>\<open>traverse_table\<close> visits every table and prints its reference listing:
  for each table the number of its non-zero entries, then for its entries in order one line for each maximal run of empty or
  of page entries, with the length of the run, and the listing of each table below. The reference tells the kind of an entry
  by itself (\<open>entry_kind\<close>: zero is empty; level 1 or bit 7 is a page; else a table).\<close>

theorem traverse_table_lists:
  assumes "pt_ok N s lv p" "N \<le> 2 ^ 35" "p \<noteq> 0" "log_ready st"
  shows "\<exists>st'. traverse_table s (page_ptr p) st = Inr st' \<and> log_ready st' \<and> serial st' = serial st @ listing s 4 p"
proof -
  have p: "page_ok p" "lv p = Some 4" using table_page_ok [OF assms(1,2)] pt_okD(1) [OF assms(1)] by blast+
  let ?e = "U64 (p * 4096) :: u64"
  have e: "make_pte (page_ptr p) 0 = Inr ?e" "pte_page ?e = p"
    using make_pte_page [OF p(1), of 0] pte_page_make [OF p(1), of 0] by simp_all
  have "?e \<noteq> 0" using e(2) assms(3) pte_page_zero by metis
  then have "pte_address ?e = Inr (page_ptr p)" using pte_address_page [of ?e] e(2) p(1) by simp
  moreover have "\<not> huge ?e" using page_word_bit [OF p(1), of 7] unfolding huge_bit by auto
  ultimately show ?thesis using traverse_table_inner_ok [OF assms(1,2) p(2) _ _ assms(4)] e(1) by (simp add: traverse_table_def)
qed

lemma large_tree_entries_list:
  shows "entries large_tree 1 = (U64 (2 * 4096) OR PTE_KERNEL) # replicate 511 0"
    "entries large_tree 2 = (U64 (3 * 4096) OR PTE_KERNEL) # replicate 511 0"
    "entries large_tree 3 = replicate 2 0 @ [U64 (512 * 4096) OR (PTE_KERNEL OR PTE_HUGE_PAGE)] @ replicate 509 0"
proof -
  have e: "entries large_tree t = map (\<lambda>i. if t = 3 \<and> i = 2 then U64 (512 * 4096) OR (PTE_KERNEL OR PTE_HUGE_PAGE)
      else if t = 2 \<and> i = 0 then U64 (3 * 4096) OR PTE_KERNEL else if t = 1 \<and> i = 0 then U64 (2 * 4096) OR PTE_KERNEL else 0) [0..<512]"
    if "page_ok t" for t using large_tree_entry [OF that] by (simp add: entries_def)
  show "entries large_tree 1 = (U64 (2 * 4096) OR PTE_KERNEL) # replicate 511 0"
    "entries large_tree 2 = (U64 (3 * 4096) OR PTE_KERNEL) # replicate 511 0"
    "entries large_tree 3 = replicate 2 0 @ [U64 (512 * 4096) OR (PTE_KERNEL OR PTE_HUGE_PAGE)] @ replicate 509 0"
    by (rule nth_equalityI; auto simp: e page_ok_def nth_Cons nth_append split: nat.split)+
qed

lemma spans_replicate:
  assumes "0 < n" "ys = [] \<or> f (hd ys) \<noteq> f x"
  shows "spans f (replicate n x @ ys) = (f x, replicate n x) # spans f ys"
proof -
  obtain m where n: "n = Suc m" using assms(1) by (cases n) auto
  have t: "takeWhile (\<lambda>y. f y = f x) ys = []" "dropWhile (\<lambda>y. f y = f x) ys = ys" using assms(2) by (cases ys; simp)+
  have "takeWhile (\<lambda>y. f y = f x) (replicate m x @ ys) = replicate m x" "dropWhile (\<lambda>y. f y = f x) (replicate m x @ ys) = ys"
    by (induction m) (simp_all add: t)
  then show ?thesis by (simp add: n)
qed

lemma spans_single: "ys = [] \<or> f (hd ys) \<noteq> f x \<Longrightarrow> spans f (x # ys) = (f x, [x]) # spans f ys"
  using spans_replicate [of 1 ys f x] by (simp del: spans.simps)

text \<open>The listing of the sample tree, line by line.\<close>

theorem traverse_table_lists_witness:
  "\<exists>st'. traverse_table large_tree (page_ptr 1) sample_log = Inr st' \<and> serial st' =
     table_line 300 ''p4 table with 1 children''
     @ table_line 300 ''+-p3 table with 1 children''
     @ table_line 300 ''| +-p2 table with 1 children''
     @ table_line 333 ''| | +-2 empty p2 entries''
     @ table_line 333 ''| | +-1 2Mb page entries''
     @ table_line 352 ''| | +-509 empty p2 entries''
     @ table_line 352 ''| +-511 empty p3 entries''
     @ table_line 352 ''+-511 empty p4 entries''"
proof -
  define a b c where abc: "a = U64 (2 * 4096) OR PTE_KERNEL" "b = U64 (3 * 4096) OR PTE_KERNEL" "c = U64 (512 * 4096) OR (PTE_KERNEL OR PTE_HUGE_PAGE)"
  have ok: "page_ok 2" "page_ok 3" "page_ok 512" by (simp_all add: page_ok_def)
  note E = pte_facts [OF ok(1) kernel_flags_ok(1), folded abc] pte_facts [OF ok(2) kernel_flags_ok(1), folded abc]
    huge_pte_facts [OF ok(3) kernel_flags_ok(1), folded abc]
  note L = large_tree_entries_list [folded abc]
  have k: "entry_kind l 0 = EMPTY" "entry_kind 4 a = TABLE" "entry_kind 3 b = TABLE" "entry_kind 2 c = PAGE" for l
    using E by (simp_all add: entry_kind_def huge_bit)
  have S: "spans (entry_kind 4) (entries large_tree 1) = [(TABLE, [a]), (EMPTY, replicate 511 0)]"
    "spans (entry_kind 3) (entries large_tree 2) = [(TABLE, [b]), (EMPTY, replicate 511 0)]"
    "spans (entry_kind 2) (entries large_tree 3) = [(EMPTY, replicate 2 0), (PAGE, [c]), (EMPTY, replicate 509 0)]"
    using spans_single [of "replicate 511 0" "entry_kind 4" a] spans_single [of "replicate 511 0" "entry_kind 3" b]
      spans_replicate [of 2 "c # replicate 509 0" "entry_kind 2" 0] spans_single [of "replicate 509 0" "entry_kind 2" c]
      spans_replicate [of 511 "[]" "entry_kind l" 0 for l] spans_replicate [of 509 "[]" "entry_kind 2" 0]
    by (simp_all add: L k del: spans.simps(2))
  have F: "length (filter (\<lambda>e. e \<noteq> 0) (entries large_tree 1)) = 1" "length (filter (\<lambda>e. e \<noteq> 0) (entries large_tree 2)) = 1"
    "length (filter (\<lambda>e. e \<noteq> 0) (entries large_tree 3)) = 1"
    using E by (simp_all add: L filter_replicate)
  have D: "decimal (Suc 0) = ''1''" "decimal 2 = ''2''" "decimal 3 = ''3''" "decimal 4 = ''4''" "decimal 509 = ''509''" "decimal 511 = ''511''"
    by (simp_all add: decimal.simps char_of_def bit_0)
  note calc = S F D E run_line_def prefixes_def page_size_for_entry_def
  have "listing large_tree 2 3 = table_line 300 ''| +-p2 table with 1 children'' @ table_line 333 ''| | +-2 empty p2 entries''
     @ table_line 333 ''| | +-1 2Mb page entries'' @ table_line 352 ''| | +-509 empty p2 entries''"
    using listing.simps(2) [of large_tree 1 3] by (simp add: calc numeral_2_eq_2 [symmetric])
  moreover have "listing large_tree 3 2 = table_line 300 ''+-p3 table with 1 children'' @ listing large_tree 2 3 @ table_line 352 ''| +-511 empty p3 entries''"
    using listing.simps(2) [of large_tree 2 2] by (simp add: calc numeral_3_eq_3 [symmetric])
  moreover have "listing large_tree 4 1 = table_line 300 ''p4 table with 1 children'' @ listing large_tree 3 2 @ table_line 352 ''+-511 empty p4 entries''"
    using listing.simps(2) [of large_tree 3 1] by (simp add: calc)
  ultimately show ?thesis
    using traverse_table_lists [OF large_tree_pt _ _ conjI [OF sample_log_ready(1,2)]] sample_log_ready(3) by auto
qed

end
