(* ===== verification/Loops.thy ===== *)
theory Loops
  imports Sync
begin

text \<open>
  The control macros of \<^verbatim>\<open>src/lib/macros.h\<close>: counted loops, named \<^verbatim>\<open>break\<close> and \<^verbatim>\<open>continue\<close>, \<^verbatim>\<open>ensure\<close> and
  \<^verbatim>\<open>prevent\<close>. A statement takes a state and ends with an outcome, an error, or not at all (\<open>None\<close>). The macros are
  all built from the \<^verbatim>\<open>for\<close> of C, which is one loop combinator here; the reference for the counted loops is a
  recursion over the list of the values of the loop variable.
\<close>

section \<open>Statements\<close>

text \<open>How a statement ends. \<open>Break_to\<close> and \<open>Continue_to\<close> are \<^verbatim>\<open>break(label)\<close> and \<^verbatim>\<open>continue(label)\<close>.\<close>

datatype 'r outcome = Next | Break | Continue | Break_to string | Continue_to string | Return 'r

type_synonym ('s, 'r) stmt = "'s \<Rightarrow> ('r outcome \<times> 's) result option"

text \<open>\<open>leaves label\<close> is what ends a loop, with the outcome of the whole loop; \<open>None\<close> means that the loop goes on.\<close>

definition leaves :: "string option \<Rightarrow> 'r outcome \<Rightarrow> 'r outcome option" where
  "leaves label out = (case out of
     Next \<Rightarrow> None
   | Continue \<Rightarrow> None
   | Break \<Rightarrow> Some Next
   | Break_to l \<Rightarrow> Some (if label = Some l then Next else Break_to l)
   | Continue_to l \<Rightarrow> (if label = Some l then None else Some (Continue_to l))
   | Return r \<Rightarrow> Some (Return r))"

text \<open>\<^verbatim>\<open>for (; cond; post) body\<close>\<close>

partial_function (option) for_loop ::
    "string option \<Rightarrow> ('s \<Rightarrow> bool) \<Rightarrow> ('s \<Rightarrow> 's result) \<Rightarrow> ('s, 'r) stmt \<Rightarrow> ('s, 'r) stmt" where
  "for_loop label cond post body s =
     (if \<not> cond s then Some (Inr (Next, s)) else
      Option.bind (body s) (\<lambda>r. case r of Inl e \<Rightarrow> Some (Inl e) | Inr x \<Rightarrow>
        (case leaves label (fst x) of Some out \<Rightarrow> Some (Inr (out, snd x))
         | None \<Rightarrow> (case post (snd x) of Inl e \<Rightarrow> Some (Inl e) | Inr s' \<Rightarrow> for_loop label cond post body s'))))"

declare for_loop.simps [code]

text \<open>A \<^verbatim>\<open>for\<close> whose increment is \<^verbatim>\<open>break\<close>: the body runs once.\<close>

definition once :: "string option \<Rightarrow> 'r outcome \<Rightarrow> 'r outcome" where
  "once label out = (case leaves label out of None \<Rightarrow> Next | Some out \<Rightarrow> out)"

definition DECLARE_SCOPED :: "('s, 'r) stmt \<Rightarrow> ('s, 'r) stmt" where
  "DECLARE_SCOPED body s = bindP (body s) (\<lambda>(out, s). Some (Inr (once None out, s)))"

definition NAMED_BREAK :: "string \<Rightarrow> ('s, 'r) stmt \<Rightarrow> ('s, 'r) stmt" where
  "NAMED_BREAK label body s = bindP (body s) (\<lambda>(out, s). case out of
     Break_to l \<Rightarrow> Some (Inr (if l = label then Next else Break_to l, s))
   | _ \<Rightarrow> Some (Inr (once None out, s)))"

definition LOOP_HELPER :: "string \<Rightarrow> ('s \<Rightarrow> bool) \<Rightarrow> ('s \<Rightarrow> 's result) \<Rightarrow> ('s, 'r) stmt \<Rightarrow> ('s, 'r) stmt" where
  "LOOP_HELPER it = for_loop (Some it)"

definition LOOP :: "string \<Rightarrow> ('s, 'r) stmt \<Rightarrow> ('s, 'r) stmt" where
  "LOOP it = LOOP_HELPER it (\<lambda>_. True) Inr"

section \<open>Counted loops\<close>

text \<open>
  \<^verbatim>\<open>_RANGE\<close> keeps its own copies \<^verbatim>\<open>M_it\<close> and \<^verbatim>\<open>M_idx\<close> of the loop variable and the index, so the body gets both as values
  and cannot disturb the loop; \<open>inc\<close> is \<^verbatim>\<open>++\<close> at the type of \<^verbatim>\<open>begin\<close>.
\<close>

definition range_loop ::
    "(int \<Rightarrow> int result) \<Rightarrow> string \<Rightarrow> int \<Rightarrow> int \<Rightarrow> (int \<Rightarrow> s64 \<Rightarrow> ('s, 'r) stmt) \<Rightarrow> ('s, 'r) stmt" where
  "range_loop inc it M_begin M_end body s =
     bindP (DECLARE_SCOPED (DECLARE_SCOPED (DECLARE_SCOPED
       (LOOP_HELPER it (\<lambda>((M_it, M_idx), s). M_it \<noteq> M_end)
          (\<lambda>((M_it, M_idx), s). bindR (inc M_it) (\<lambda>M_it. bindR (s64_chk (M_idx + 1)) (\<lambda>M_idx. Inr ((M_it, M_idx), s))))
          (\<lambda>((M_it, M_idx), s). bindP (body M_it M_idx s) (\<lambda>(out, s). Some (Inr (out, (M_it, M_idx), s)))))))
       ((M_begin, 0), s))
     (\<lambda>(out, _, s). Some (Inr (out, s)))"

definition s32_chk :: "int \<Rightarrow> int result" where
  "s32_chk x = (if - (2 ^ 31) \<le> x \<and> x < 2 ^ 31 then Inr x else Inl SignedOverflow)"

text \<open>\<^verbatim>\<open>RANGE\<close> over \<^verbatim>\<open>s64\<close> values.\<close>

definition RANGE :: "string \<Rightarrow> s64 \<Rightarrow> s64 \<Rightarrow> (s64 \<Rightarrow> s64 \<Rightarrow> ('s, 'r) stmt) \<Rightarrow> ('s, 'r) stmt" where
  "RANGE = range_loop (\<lambda>i. s64_chk (i + 1))"

text \<open>A pointer into an array is the number of its element.\<close>

definition FOR_PTR :: "string \<Rightarrow> int \<Rightarrow> s64 \<Rightarrow> (int \<Rightarrow> s64 \<Rightarrow> ('s, 'r) stmt) \<Rightarrow> ('s, 'r) stmt" where
  "FOR_PTR it M_ptr len body = DECLARE_SCOPED (range_loop (\<lambda>i. Inr (i + 1)) it M_ptr (M_ptr + len) body)"

definition FOR :: "string \<Rightarrow> int \<times> s64 \<Rightarrow> (int \<Rightarrow> s64 \<Rightarrow> ('s, 'r) stmt) \<Rightarrow> ('s, 'r) stmt" where
  "FOR it M_array body = DECLARE_SCOPED (FOR_PTR it (fst M_array) (snd M_array) body)"

text \<open>The first bound of \<^verbatim>\<open>REPEAT\<close> is the literal 0 and the second one takes its type, \<^verbatim>\<open>int\<close>.\<close>

definition REPEAT :: "string \<Rightarrow> s64 \<Rightarrow> (int \<Rightarrow> ('s, 'r) stmt) \<Rightarrow> ('s, 'r) stmt" where
  "REPEAT it repeats body = range_loop (\<lambda>i. s32_chk (i + 1)) it 0 (sint (word_of_int repeats :: 32 word)) (\<lambda>i _. body i)"

section \<open>Guards\<close>

text \<open>\<open>expr\<close> is the condition, \<open>msg\<close> its source text, which the panic shows.\<close>

definition ensure :: "('s \<Rightarrow> bool) \<Rightarrow> string \<Rightarrow> ('s, 'r) stmt \<Rightarrow> ('s, 'r) stmt" where
  "ensure expr msg = for_loop None (\<lambda>s. \<not> expr s) (\<lambda>s. bindR (assertR (expr s) msg) (\<lambda>_. Inr s))"

definition prevent :: "('s \<Rightarrow> bool) \<Rightarrow> string \<Rightarrow> ('s, 'r) stmt \<Rightarrow> ('s, 'r) stmt" where
  "prevent expr msg = for_loop None expr (\<lambda>s. bindR (assertR (\<not> expr s) msg) (\<lambda>_. Inr s))"

text \<open>\<^verbatim>\<open>SWAP\<close> on the values behind two pointers.\<close>

definition SWAP :: "'p \<Rightarrow> 'p \<Rightarrow> ('p \<Rightarrow> 'v) \<Rightarrow> 'p \<Rightarrow> 'v" where
  "SWAP left right h = (let v = h left; h = h(left := h right) in h(right := v))"

text \<open>
  \<^verbatim>\<open>CRITICAL\<close> of \<^verbatim>\<open>src/lib/sync.h\<close>: the body runs once when the mutex could be taken. The increment of the \<^verbatim>\<open>for\<close> releases the
  mutex, so a body that leaves the loop keeps it.
\<close>

definition CRITICAL :: "bool \<Rightarrow> (u8 \<times> 's, 'r) stmt \<Rightarrow> (u8 \<times> 's, 'r) stmt" where
  "CRITICAL spurious body = (\<lambda>(mtx, s). case Mutex__try_lock spurious mtx of (ok, mtx) \<Rightarrow>
     if \<not> ok then Some (Inr (Next, mtx, s)) else
     bindP (body (mtx, s)) (\<lambda>(out, mtx, s). case leaves None out of
       Some out \<Rightarrow> Some (Inr (out, mtx, s)) | None \<Rightarrow> Some (Inr (Next, Mutex__unlock mtx, s))))"

section \<open>The reference: one round per value\<close>

text \<open>
  The reference spells out what each way to end the body means for a loop with the name \<open>it\<close>: the end of the body,
  \<^verbatim>\<open>continue\<close> and \<^verbatim>\<open>continue(it)\<close> go on with the next value; \<^verbatim>\<open>break\<close> and \<^verbatim>\<open>break(it)\<close> end the loop, after which
  the program goes on behind it; the jumps of other loops and \<^verbatim>\<open>return\<close> end it and go on outwards.
\<close>

fun foreach :: "string \<Rightarrow> (int \<Rightarrow> s64 \<Rightarrow> ('s, 'r) stmt) \<Rightarrow> (int \<times> s64) list \<Rightarrow> ('s, 'r) stmt" where
  "foreach it body [] s = Some (Inr (Next, s))"
| "foreach it body ((i, k) # xs) s =
     bindP (body i k s) (\<lambda>(out, s). case out of
         Next \<Rightarrow> foreach it body xs s
       | Continue \<Rightarrow> foreach it body xs s
       | Continue_to l \<Rightarrow> if l = it then foreach it body xs s else Some (Inr (Continue_to l, s))
       | Break \<Rightarrow> Some (Inr (Next, s))
       | Break_to l \<Rightarrow> if l = it then Some (Inr (Next, s)) else Some (Inr (Break_to l, s))
       | Return r \<Rightarrow> Some (Inr (Return r, s)))"

lemma foreach_leaves:
  "foreach it body ((i, k) # xs) s =
     bindP (body i k s) (\<lambda>(out, s). case leaves (Some it) out of Some out \<Rightarrow> Some (Inr (out, s)) | None \<Rightarrow> foreach it body xs s)"
  by (auto simp: leaves_def intro!: arg_cong [where f = "bindP (body i k s)"] split: outcome.splits)

declare foreach.simps(2) [simp del] foreach_leaves [simp]

definition rounds :: "int \<Rightarrow> nat \<Rightarrow> nat \<Rightarrow> (int \<times> s64) list" where
  "rounds b k n = map (\<lambda>j. (b + int j, int j)) [k..<n]"

lemma rounds_Nil [simp]: "rounds b n n = []"
  by (simp add: rounds_def)

lemma rounds_step: "k < n \<Longrightarrow> rounds b k n = (b + int k, int k) # rounds b (Suc k) n"
  by (simp add: rounds_def upt_rec)

lemma once_None_leaves: "leaves (Some it) out = Some out' \<Longrightarrow> once None out' = out'"
  by (auto simp: once_def leaves_def split: outcome.splits if_splits)

lemma range_loop_rounds:
  assumes inc: "\<And>i. b \<le> i \<Longrightarrow> i < b + int n \<Longrightarrow> inc i = Inr (i + 1)" and n: "int n < 2 ^ 63" and k: "k \<le> n"
  shows "bindP (LOOP_HELPER it (\<lambda>((M_it, M_idx), s). M_it \<noteq> b + int n)
          (\<lambda>((M_it, M_idx), s). bindR (inc M_it) (\<lambda>M_it. bindR (s64_chk (M_idx + 1)) (\<lambda>M_idx. Inr ((M_it, M_idx), s))))
          (\<lambda>((M_it, M_idx), s). bindP (body M_it M_idx s) (\<lambda>(out, s). Some (Inr (out, (M_it, M_idx), s))))
          ((b + int k, int k), s))
        (\<lambda>(out, _, s). Some (Inr (once None out, s)))
     = foreach it body (rounds b k n) s"
  using k
proof (induction "n - k" arbitrary: k s)
  case 0
  then show ?case unfolding LOOP_HELPER_def by (subst for_loop.simps) (simp add: once_def leaves_def)
next
  case (Suc d)
  then have k: "k < n" by simp
  have inc': "inc (b + int k) = Inr (b + int (Suc k))" "s64_chk (int k + 1) = Inr (int (Suc k))"
    using inc [of "b + int k"] k n by (simp_all add: s64_chk_def s64_ok_def)
  show ?case
  proof (cases "body (b + int k) (int k) s")
    case None
    then show ?thesis unfolding LOOP_HELPER_def rounds_step [OF k] using k by (subst for_loop.simps) simp
  next
    case (Some r)
    show ?thesis
    proof (cases r)
      case (Inl e)
      then show ?thesis unfolding LOOP_HELPER_def rounds_step [OF k] using Some k by (subst for_loop.simps) simp
    next
      case (Inr x)
      obtain out s' where x: "x = (out, s')" by (cases x)
      show ?thesis
      proof (cases "leaves (Some it) out")
        case None
        then show ?thesis using Suc.hyps(1) [of "Suc k" s'] Suc.hyps(2) k Some Inr x inc'
          unfolding LOOP_HELPER_def rounds_step [OF k] by (subst for_loop.simps) simp
      next
        case (Some out')
        then show ?thesis using \<open>body _ _ s = Some r\<close> Inr x k once_None_leaves [OF Some]
          unfolding LOOP_HELPER_def rounds_step [OF k] by (subst for_loop.simps) simp
      qed
    qed
  qed
qed

lemma once_once [simp]: "once None (once None out) = once None out"
  by (auto simp: once_def leaves_def split: outcome.splits)

lemma range_loop_eq:
  assumes "\<And>i. b \<le> i \<Longrightarrow> i < b + int n \<Longrightarrow> inc i = Inr (i + 1)" "int n < 2 ^ 63"
  shows "range_loop inc it b (b + int n) body s = foreach it body (rounds b 0 n) s"
  using range_loop_rounds [of b n inc 0 it body s] assms
  by (simp add: range_loop_def DECLARE_SCOPED_def bindP_assoc case_prod_unfold)

lemma foreach_DECLARE_SCOPED [simp]: "DECLARE_SCOPED (foreach it body xs) s = foreach it body xs s"
proof (induction xs arbitrary: s)
  case Nil
  then show ?case by (simp add: DECLARE_SCOPED_def once_def leaves_def)
next
  case (Cons x xs)
  have "bindP (case leaves (Some it) out of Some out \<Rightarrow> Some (Inr (out, s)) | None \<Rightarrow> foreach it body xs s) (\<lambda>(out, s). Some (Inr (once None out, s)))
      = (case leaves (Some it) out of Some out \<Rightarrow> Some (Inr (out, s)) | None \<Rightarrow> foreach it body xs s)" for out s
    using Cons.IH [of s] once_None_leaves [of it out] by (auto simp: DECLARE_SCOPED_def split: option.splits)
  then show ?case by (cases x) (simp add: DECLARE_SCOPED_def bindP_assoc case_prod_unfold)
qed

section \<open>Properties\<close>

lemma for_loop_guard:
  "for_loop None cond (\<lambda>s. bindR (assertR (\<not> cond s) msg) (\<lambda>_. Inr s)) body s =
     (if \<not> cond s then Some (Inr (Next, s)) else
      bindP (body s) (\<lambda>(out, s'). case leaves None out of Some out \<Rightarrow> Some (Inr (out, s'))
        | None \<Rightarrow> if \<not> cond s' then Some (Inr (Next, s')) else Some (Inl (Panic msg))))"
proof -
  have stop: "for_loop None cond post body s' = Some (Inr (Next, s'))" if "\<not> cond s'" for post s'
    using that by (subst for_loop.simps) simp
  show ?thesis
    by (subst for_loop.simps) (auto simp: stop assertR_def bindP_def split: option.splits sum.splits)
qed

text \<open>C38. \<^verbatim>\<open>ensure\<close> and \<^verbatim>\<open>prevent\<close> are guards, not loops: the body runs at most once, and only when the condition is wrong. A
  body that leaves (by \<^verbatim>\<open>return\<close>, \<^verbatim>\<open>break\<close> or a named jump) leaves with the state it made; when it comes to its end, or to
  \<^verbatim>\<open>continue\<close>, the condition is checked again and a condition that is still wrong panics with its source text.\<close>

theorem ensure_prevent_correct:
  "ensure expr msg body s =
     (if expr s then Some (Inr (Next, s)) else
      bindP (body s) (\<lambda>(out, s'). case out of
          Next \<Rightarrow> if expr s' then Some (Inr (Next, s')) else Some (Inl (Panic msg))
        | Continue \<Rightarrow> if expr s' then Some (Inr (Next, s')) else Some (Inl (Panic msg))
        | Break \<Rightarrow> Some (Inr (Next, s'))
        | _ \<Rightarrow> Some (Inr (out, s'))))
   \<and> prevent expr msg body = ensure (\<lambda>s. \<not> expr s) msg body"
proof -
  have "ensure expr msg body s =
     (if expr s then Some (Inr (Next, s)) else
      bindP (body s) (\<lambda>(out, s'). case leaves None out of Some out \<Rightarrow> Some (Inr (out, s'))
        | None \<Rightarrow> if expr s' then Some (Inr (Next, s')) else Some (Inl (Panic msg))))"
    using for_loop_guard [of "\<lambda>s. \<not> expr s" msg body s, unfolded not_not] by (simp add: ensure_def)
  then show ?thesis
    by (auto simp: prevent_def ensure_def leaves_def intro!: arg_cong [where f = "bindP (body s)"] split: outcome.splits)
qed

text \<open>C37. The counted loops end and run their body once for each value, in order, with the index of the round: \<^verbatim>\<open>RANGE\<close> on bounds in
  order, \<^verbatim>\<open>FOR_PTR\<close> and \<^verbatim>\<open>FOR\<close> over an array, and \<^verbatim>\<open>REPEAT\<close> for a count that fits \<^verbatim>\<open>int\<close>. A \<^verbatim>\<open>break\<close>, a \<^verbatim>\<open>return\<close> and a
  \<^verbatim>\<open>break\<close> or \<^verbatim>\<open>continue\<close> with the name of an outer loop leave the loop at once, an unnamed \<^verbatim>\<open>continue\<close> or one with the loop's own
  name goes on with the next value.\<close>

theorem counted_loops_correct:
  assumes "s64_ok b" "s64_ok e" "b \<le> e" "n = nat (e - b)" "n < 2 ^ 63"
  shows "RANGE it b e body s = foreach it body (rounds b 0 n) s
     \<and> FOR_PTR it p (int n) body s = foreach it body (rounds p 0 n) s
     \<and> FOR it (p, int n) body s = foreach it body (rounds p 0 n) s
     \<and> (n < 2 ^ 31 \<longrightarrow> REPEAT it (int n) body1 s = foreach it (\<lambda>i _. body1 i) (rounds 0 0 n) s)"
proof -
  have e: "e = b + int n" and n: "int n < 2 ^ 63" using assms(3-5) by auto
  have "RANGE it b e body s = foreach it body (rounds b 0 n) s"
    unfolding RANGE_def e by (rule range_loop_eq) (use assms(1,2) e n in \<open>auto simp: s64_chk_def s64_ok_def\<close>)
  moreover have ptr: "range_loop (\<lambda>i. Inr (i + 1)) it p (p + int n) body = foreach it body (rounds p 0 n)"
    by (rule ext, rule range_loop_eq) (use n in simp_all)
  then have "FOR_PTR it p (int n) body = foreach it body (rounds p 0 n)"
    by (rule_tac ext) (simp add: FOR_PTR_def)
  moreover from this have "FOR it (p, int n) body s = foreach it body (rounds p 0 n) s" by (simp add: FOR_def)
  moreover have "REPEAT it (int n) body1 s = foreach it (\<lambda>i _. body1 i) (rounds 0 0 n) s" if "n < 2 ^ 31"
  proof -
    have "sint (word_of_int (int n) :: 32 word) = int n"
      using that unfolding signed_of_int by (simp add: signed_take_bit_int_eq_self)
    then show ?thesis unfolding REPEAT_def
      using range_loop_eq [of 0 n "\<lambda>i. s32_chk (i + 1)" it "\<lambda>i _. body1 i" s] that n by (simp add: s32_chk_def)
  qed
  ultimately show ?thesis by simp
qed

text \<open>A body that adds the loop variable to the state, leaves out 4 and ends the loop at 6.\<close>

definition sum_body :: "int \<Rightarrow> s64 \<Rightarrow> (int, unit) stmt" where
  "sum_body i k s = Some (Inr (if i = 4 then (Continue_to ''it'', s) else if i = 6 then (Break, s) else (Next, s + i)))"

theorem counted_loops_correct_witness: "RANGE ''it'' 3 9 sum_body 100 = Some (Inr (Next, 108))"
proof -
  have "RANGE ''it'' 3 9 sum_body 100 = foreach ''it'' sum_body (rounds 3 0 6) 100"
    using counted_loops_correct [of 3 9 6 "''it''" sum_body 100 0 "\<lambda>i. sum_body i 0"] by (simp add: s64_ok_def)
  then show ?thesis by (simp add: rounds_def upt_rec sum_body_def leaves_def)
qed

text \<open>A \<^verbatim>\<open>RANGE\<close> whose bounds are in the wrong order does not stop: it compares with \<^verbatim>\<open>!=\<close>, so when the body never leaves, the
  loop runs up to the largest value of the type and ends in signed overflow.\<close>

theorem RANGE_backwards_overflows:
  assumes "e < b" "s64_ok b" "\<forall>i k s. \<exists>s'. body i k s = Some (Inr (Next, s'))"
  shows "RANGE it b e body s = Some (Inl SignedOverflow)"
proof -
  define post :: "(int \<times> int) \<times> 'a \<Rightarrow> ((int \<times> int) \<times> 'a) result"
    where "post = (\<lambda>((M_it, M_idx), s). bindR (s64_chk (M_it + 1)) (\<lambda>M_it. bindR (s64_chk (M_idx + 1)) (\<lambda>M_idx. Inr ((M_it, M_idx), s))))"
  define bd where "bd = (\<lambda>((M_it, M_idx), s). bindP (body M_it M_idx s) (\<lambda>(out, s). Some (Inr (out, (M_it, M_idx), s))))"
  have run: "for_loop (Some it) (\<lambda>((M_it, M_idx), s). M_it \<noteq> e) post bd ((i, k), s) = Some (Inl SignedOverflow)"
    if "e < i" "s64_ok i" for i k s using that
  proof (induction "nat (2 ^ 63 - i)" arbitrary: i k s)
    case 0
    then show ?case by (simp add: s64_ok_def)
  next
    case (Suc d)
    obtain s' where s': "body i k s = Some (Inr (Next, s'))" using assms(3) by blast
    then have bd: "bd ((i, k), s) = Some (Inr (Next, (i, k), s'))" by (simp add: bd_def)
    have "for_loop (Some it) (\<lambda>((M_it, M_idx), s). M_it \<noteq> e) post bd y = Some (Inl SignedOverflow)" if "post ((i, k), s') = Inr y" for y
      using that Suc.hyps(1) [of "i + 1" "k + 1" s'] Suc.hyps(2) Suc.prems
      by (auto simp: post_def s64_chk_def s64_ok_def split: if_splits)
    moreover have "post ((i, k), s') = Inl x \<Longrightarrow> x = SignedOverflow" for x
      by (auto simp: post_def s64_chk_def bindR_def split: if_splits)
    ultimately show ?case using Suc.prems(1) bd
      by (subst for_loop.simps) (auto simp: leaves_def split: sum.splits)
  qed
  show ?thesis using run [OF assms(1,2), of 0 s, unfolded post_def bd_def]
    by (simp add: RANGE_def range_loop_def DECLARE_SCOPED_def LOOP_HELPER_def)
qed

theorem RANGE_backwards_overflows_witness:
  "RANGE ''it'' 5 4 (\<lambda>i k s. Some (Inr (Next :: unit outcome, s + 1))) (0 :: int) = Some (Inl SignedOverflow)"
  using RANGE_backwards_overflows [of 4 5 "\<lambda>i k s. Some (Inr (Next :: unit outcome, s + 1))" "''it''" "0 :: int"] by (simp add: s64_ok_def)

text \<open>\<^verbatim>\<open>CRITICAL\<close> excludes: under a mutex that is held the body does not run, under a free one it runs with the mutex held and the mutex
  is free afterwards; but a body that ends with \<^verbatim>\<open>return\<close> or \<^verbatim>\<open>break\<close> leaves the mutex held.\<close>

theorem CRITICAL_correct:
  "mtx \<noteq> 0 \<Longrightarrow> CRITICAL spurious body (mtx, s) = Some (Inr (Next, mtx, s))"
  "body (1, s) = Some (Inr (Next, 1, s')) \<Longrightarrow> CRITICAL False body (0, s) = Some (Inr (Next, 0, s'))"
  "body (1, s) = Some (Inr (Return r, 1, s')) \<Longrightarrow> CRITICAL False body (0, s) = Some (Inr (Return r, 1, s'))"
  "body (1, s) = Some (Inr (Break, 1, s')) \<Longrightarrow> CRITICAL False body (0, s) = Some (Inr (Next, 1, s'))"
  by (simp_all add: CRITICAL_def Mutex__try_lock_eq leaves_def Mutex__unlock_def)

end
