(* ===== verification/Find_Block.thy ===== *)
theory Find_Block
  imports Page_Allocator Loops
begin

text \<open>
  The search for a block in the free lists, \<^verbatim>\<open>find_block\<close> of \<^verbatim>\<open>src/kern/memory.c\<close>, written with the loop macros of the
  source: a \<^verbatim>\<open>FOR_PTR\<close> over the classes whose body walks one list and returns from the function when it meets the target.
\<close>

text \<open>\<^verbatim>\<open>while (block != NULL)\<close>; a list with a cycle may never end.\<close>

partial_function (option) find_in_list :: "(u64 \<Rightarrow> u64) \<Rightarrow> u64 \<Rightarrow> u64 \<Rightarrow> u64 outcome option" where
  "find_in_list m target block =
     (if block = 0 then Some Next else if block = target then Some (Return block) else find_in_list m target (m block))"

definition find_block_body :: "memory \<Rightarrow> u64 \<Rightarrow> int \<Rightarrow> s64 \<Rightarrow> (unit, u64) stmt" where
  "find_block_body s target info cls st =
     bindP (Some (idxR (classes s) info)) (\<lambda>info.
     map_option (\<lambda>out. Inr (out, st)) (find_in_list (mem s) target (freelist info)))"

definition find_block :: "memory \<Rightarrow> u64 \<Rightarrow> u64 result option" where
  "find_block s target =
     bindP (FOR_PTR ''info'' 0 (int CLASS_COUNT) (find_block_body s target) ()) (\<lambda>(out, _).
       case out of Return block \<Rightarrow> Some (Inr block) | _ \<Rightarrow> Some (Inr 0))"

lemma find_in_list_eq:
  assumes "dseg m c pr p xs 0" "\<forall>x\<in>set xs. page_ok x"
  shows "find_in_list m target p = Some (if target \<in> page_ptr ` set xs then Return target else Next)"
  using assms
proof (induction xs arbitrary: p pr)
  case Nil
  then show ?case by (simp add: find_in_list.simps)
next
  case (Cons x xs)
  then show ?case using page_ptr_nonzero [of x] by (subst find_in_list.simps) auto
qed

lemma find_rounds:
  assumes l: "lists s fl" and k: "k \<le> CLASS_COUNT"
  shows "foreach ''info'' (find_block_body s target) (rounds 0 k CLASS_COUNT) () =
    Some (Inr (if \<exists>c\<in>{k..<CLASS_COUNT}. target \<in> page_ptr ` set (fl c) then Return target else Next, ()))"
  using k
proof (induction "CLASS_COUNT - k" arbitrary: k)
  case (Suc d)
  then have c: "k < CLASS_COUNT" by simp
  note L = lists_classD [OF l c]
  have "idxR (classes s) (int k) = Inr (classes s ! k)" using c L(4) by (simp add: idxR_def)
  then have "find_block_body s target (int k) (int k) () = Some (Inr (if target \<in> page_ptr ` set (fl k) then Return target else Next, ()))"
    using find_in_list_eq [OF L(1,3), of target] by (simp add: find_block_body_def)
  moreover have "{k..<CLASS_COUNT} = insert k {Suc k..<CLASS_COUNT}" using c by auto
  ultimately show ?case using Suc.hyps(1) [of "Suc k"] Suc.hyps(2) c by (simp add: rounds_step leaves_def)
qed simp

lemma class_loop: "FOR_PTR it 0 (int CLASS_COUNT) body = foreach it body (rounds 0 0 CLASS_COUNT)"
proof -
  have "range_loop (\<lambda>i. Inr (i + 1)) it 0 (0 + int CLASS_COUNT) body = foreach it body (rounds 0 0 CLASS_COUNT)"
    by (rule ext, rule range_loop_eq) (simp_all add: CLASS_COUNT_def)
  then show ?thesis by (intro ext) (simp add: FOR_PTR_def)
qed

text \<open>On a consistent heap the search ends and finds exactly the blocks that are on a free list: it returns the
  target when some list holds it and \<^verbatim>\<open>NULL\<close> otherwise.\<close>

theorem find_block_correct:
  assumes "heap_inv N s fl"
  shows "find_block s target = Some (Inr (if \<exists>c<CLASS_COUNT. target \<in> page_ptr ` set (fl c) then target else 0))"
proof -
  have "lists s fl" using coreD(1) heap_invD(1) [OF assms] by blast
  from find_rounds [OF this, of 0 target] show ?thesis
    unfolding find_block_def class_loop by (auto simp: atLeast0LessThan)
qed

end
