(* ===== verification/Log_Macros.thy ===== *)
theory Log_Macros
  imports Logging
begin

text \<open>
  The typed front of the log: \<^verbatim>\<open>make_any\<close> of \<^verbatim>\<open>src/lib/types.h\<close>, the argument macros of \<^verbatim>\<open>src/lib/magic.h\<close> and
  \<^verbatim>\<open>src/lib/macros.h\<close>, and the macros \<^verbatim>\<open>log\<close>, \<^verbatim>\<open>log_fmt\<close>, \<^verbatim>\<open>panic\<close> and \<^verbatim>\<open>dbg\<close> built from them. A macro call that does not
  compile is \<open>None\<close>.
\<close>

section \<open>Values with their C types\<close>

datatype c_value =
    C_bool bool
  | C_u8 u8 | C_s8 "8 word" | C_u16 u16 | C_s16 "16 word" | C_u32 u32 | C_s32 "32 word" | C_u64 u64 | C_s64 s64
  | C_char char | C_char_ptr cstring | C_const_char_ptr cstring
  | C_any any

definition any__any :: "any \<Rightarrow> any" where
  "any__any v = v"

text \<open>The selection by type, with the conversion of the argument to the parameter's type.\<close>

definition make_any :: "c_value \<Rightarrow> any" where
  "make_any v = (case v of
     C_bool x \<Rightarrow> any__bool x
   | C_u8 x \<Rightarrow> any__u64 (ucast x)
   | C_s8 x \<Rightarrow> any__i64 (sint x)
   | C_u16 x \<Rightarrow> any__u64 (ucast x)
   | C_s16 x \<Rightarrow> any__i64 (sint x)
   | C_u32 x \<Rightarrow> any__u64 (ucast x)
   | C_s32 x \<Rightarrow> any__i64 (sint x)
   | C_u64 x \<Rightarrow> any__u64 x
   | C_s64 x \<Rightarrow> any__i64 x
   | C_char x \<Rightarrow> any__char x
   | C_char_ptr x \<Rightarrow> any__char_ptr x
   | C_const_char_ptr x \<Rightarrow> any__char_ptr x
   | C_any x \<Rightarrow> any__any x)"

section \<open>Macro arguments\<close>

text \<open>
  \<^verbatim>\<open>NARG\<close> passes its arguments and the numbers from 70 down to 0 to a macro that returns its parameter number 71; \<open>Arg\<close> is an
  argument of the call and \<open>Num\<close> one of the numbers.
\<close>

datatype 'a token = Arg 'a | Num nat

definition NARG :: "'a list \<Rightarrow> 'a token" where
  "NARG args = (map Arg args @ map Num (rev [0..<71])) ! 70"

fun FOR_ARGS_SEP :: "('a \<Rightarrow> 'b list) \<Rightarrow> 'b list \<Rightarrow> 'a list \<Rightarrow> 'b list option" where
  "FOR_ARGS_SEP func sep [] = Some []"
| "FOR_ARGS_SEP func sep [a0] = Some (func a0)"
| "FOR_ARGS_SEP func sep [a0, a1] = Some (func a0 @ sep @ func a1)"
| "FOR_ARGS_SEP func sep [a0, a1, a2] = Some (func a0 @ sep @ func a1 @ sep @ func a2)"
| "FOR_ARGS_SEP func sep [a0, a1, a2, a3] = Some (func a0 @ sep @ func a1 @ sep @ func a2 @ sep @ func a3)"
| "FOR_ARGS_SEP func sep [a0, a1, a2, a3, a4] =
     Some (func a0 @ sep @ func a1 @ sep @ func a2 @ sep @ func a3 @ sep @ func a4)"
| "FOR_ARGS_SEP func sep [a0, a1, a2, a3, a4, a5] =
     Some (func a0 @ sep @ func a1 @ sep @ func a2 @ sep @ func a3 @ sep @ func a4 @ sep @ func a5)"
| "FOR_ARGS_SEP func sep [a0, a1, a2, a3, a4, a5, a6] =
     Some (func a0 @ sep @ func a1 @ sep @ func a2 @ sep @ func a3 @ sep @ func a4 @ sep @ func a5 @ sep @ func a6)"
| "FOR_ARGS_SEP func sep [a0, a1, a2, a3, a4, a5, a6, a7] =
     Some (func a0 @ sep @ func a1 @ sep @ func a2 @ sep @ func a3 @ sep @ func a4 @ sep @ func a5 @ sep @ func a6 @ sep @ func a7)"
| "FOR_ARGS_SEP func sep [a0, a1, a2, a3, a4, a5, a6, a7, a8] =
     Some (func a0 @ sep @ func a1 @ sep @ func a2 @ sep @ func a3 @ sep @ func a4 @ sep @ func a5 @ sep @ func a6 @ sep @ func a7
       @ sep @ func a8)"
| "FOR_ARGS_SEP func sep (a0 # a1 # a2 # a3 # a4 # a5 # a6 # a7 # a8 # a9 # args) = None"

text \<open>The commas between the elements of an initialiser leave no trace in the array.\<close>

definition make_any_array :: "c_value list \<Rightarrow> any list option" where
  "make_any_array args = FOR_ARGS_SEP (\<lambda>v. [make_any v]) [] args"

section \<open>Log macros\<close>

definition log_macro :: "sloc \<Rightarrow> c_value list \<Rightarrow> logging \<Rightarrow> logging result option" where
  "log_macro loc args st = (case make_any_array args of None \<Rightarrow> None | Some xs \<Rightarrow> Some (ext__log [] loc xs st))"

definition log_fmt_macro :: "sloc \<Rightarrow> string \<Rightarrow> c_value list \<Rightarrow> logging \<Rightarrow> logging result option" where
  "log_fmt_macro loc fmt args st = (case (make_any_array args, NARG args) of
     (Some xs, Num n) \<Rightarrow> Some (ext__log_fmt [] loc fmt (int n) xs st) | _ \<Rightarrow> None)"

text \<open>\<^verbatim>\<open>panic\<close> with and without arguments: the log line, then \<^verbatim>\<open>exit(1)\<close>.\<close>

definition panic :: "sloc \<Rightarrow> (string \<times> c_value list) option \<Rightarrow> logging \<Rightarrow> (failure \<times> logging) result option" where
  "panic loc msg st =
     bindP (case msg of Some (fmt, args) \<Rightarrow> log_fmt_macro loc ('''' @ fmt) args st | None \<Rightarrow> log_fmt_macro loc ''panicked!'' [] st)
       (\<lambda>st. Some (Inr (Shutdown 1, st)))"

text \<open>\<open>code\<close> is the source text of the arguments, \<^verbatim>\<open>#__VA_ARGS__\<close>.\<close>

definition dbg :: "sloc \<Rightarrow> string \<Rightarrow> c_value list \<Rightarrow> logging \<Rightarrow> logging result option" where
  "dbg loc code values st =
     (case (FOR_ARGS_SEP (\<lambda>_. ''%f'') '', '' values, make_any_array (C_const_char_ptr (Some code) # values), NARG values) of
        (Some specs, Some args, Num n) \<Rightarrow> Some (ext__log_fmt [] loc (''dbg(%f) = ('' @ specs @ '')'') (1 + int n) args st)
      | _ \<Rightarrow> None)"

section \<open>What the argument macros produce\<close>

lemma NARG_length: "length args \<le> 70 \<Longrightarrow> NARG args = Num (length args)"
  unfolding NARG_def by (simp add: nth_append rev_nth)

fun separate :: "'b list \<Rightarrow> 'b list list \<Rightarrow> 'b list" where
  "separate sep [] = []"
| "separate sep [x] = x"
| "separate sep (x # y # zs) = x @ sep @ separate sep (y # zs)"

lemma FOR_ARGS_SEP_eq: "FOR_ARGS_SEP func sep args = (if length args \<le> 9 then Some (separate sep (map func args)) else None)"
  by (cases "(func, sep, args)" rule: FOR_ARGS_SEP.cases) simp_all

lemma separate_Nil: "separate [] xs = concat xs"
  by (induction "[] :: 'a list" xs rule: separate.induct) simp_all

lemma make_any_array_eq: "make_any_array args = (if length args \<le> 9 then Some (map make_any args) else None)"
  by (simp add: make_any_array_def FOR_ARGS_SEP_eq separate_Nil)

section \<open>What a value prints as\<close>

definition c_ok :: "c_value \<Rightarrow> bool" where
  "c_ok v = (case v of C_s64 x \<Rightarrow> - (2 ^ 63) < x \<and> x < 2 ^ 63 | C_any x \<Rightarrow> any_ok x \<and> any_text x \<noteq> None | _ \<Rightarrow> True)"

definition c_text :: "c_value \<Rightarrow> string" where
  "c_text v = (case v of
     C_bool x \<Rightarrow> if x then ''true'' else ''false''
   | C_u8 x \<Rightarrow> decimal (unat x) | C_s8 x \<Rightarrow> int_text (sint x)
   | C_u16 x \<Rightarrow> decimal (unat x) | C_s16 x \<Rightarrow> int_text (sint x)
   | C_u32 x \<Rightarrow> decimal (unat x) | C_s32 x \<Rightarrow> int_text (sint x)
   | C_u64 x \<Rightarrow> decimal (unat x) | C_s64 x \<Rightarrow> int_text x
   | C_char x \<Rightarrow> [x]
   | C_char_ptr x \<Rightarrow> (case x of None \<Rightarrow> [] | Some s \<Rightarrow> ctext s)
   | C_const_char_ptr x \<Rightarrow> (case x of None \<Rightarrow> [] | Some s \<Rightarrow> ctext s)
   | C_any x \<Rightarrow> the (any_text x))"

lemma sint_U64: "- (2 ^ 63) \<le> x \<Longrightarrow> x < 2 ^ 63 \<Longrightarrow> sint (U64 x) = x"
  unfolding signed_of_int by (simp add: signed_take_bit_int_eq_self)

lemma any__i64_text:
  assumes "- (2 ^ 63) < x" "x < 2 ^ 63"
  shows "any_ok (any__i64 x)" "any_text (any__i64 x) = Some (int_text x)"
  using sint_U64 [of x] assms by (simp_all add: any_ok_def any_text_def any__i64_def signed_type_def)

lemma any__u64_text: "any_ok (any__u64 x)" "any_text (any__u64 x) = Some (decimal (unat x))"
  by (simp_all add: any_ok_def any_text_def any__u64_def signed_type_def)

lemma sint_bounds:
  "- (2 ^ 63) < sint (x :: 8 word)" "sint (x :: 8 word) < 2 ^ 63"
  "- (2 ^ 63) < sint (y :: 16 word)" "sint (y :: 16 word) < 2 ^ 63"
  "- (2 ^ 63) < sint (z :: 32 word)" "sint (z :: 32 word) < 2 ^ 63"
  using sint_range_size [of x] sint_range_size [of y] sint_range_size [of z] by (simp_all add: word_size)

lemma unat_widen:
  "unat (ucast (x :: u8) :: u64) = unat x" "unat (ucast (y :: u16) :: u64) = unat y" "unat (ucast (z :: u32) :: u64) = unat z"
proof -
  have "unat x < 2 ^ 8" "unat y < 2 ^ 16" "unat z < 2 ^ 32" using unsigned_less [where ?'a = nat, of x] unsigned_less [where ?'a = nat, of y] unsigned_less [where ?'a = nat, of z] by simp_all
  then show "unat (ucast x :: u64) = unat x" "unat (ucast y :: u64) = unat y" "unat (ucast z :: u64) = unat z"
    by (simp_all add: unsigned_ucast_eq take_bit_nat_eq_self)
qed

lemma any__char_text: "any_ok (any__char c)" "any_text (any__char c) = Some [c]"
proof -
  have "of_char c < (2 :: nat) ^ 64" using nat_of_char_less_256 [of c] by (rule less_trans) simp
  then have "unat (of_nat (of_char c) :: u64) = of_char c"
    by (simp only: unsigned_of_nat len_num1 len_bit0) (simp add: take_bit_nat_eq_self)
  moreover have "of_nat (of_char c) = (of_char c :: u64)" by (cases c) (simp add: of_char_def)
  ultimately have "unat (of_char c :: u64) = of_char c" by simp
  then show "any_text (any__char c) = Some [c]" by (simp add: any_text_def any__char_def)
qed (simp add: any_ok_def any__char_def signed_type_def)

lemma any__bool_text: "any_ok (any__bool x)" "any_text (any__bool x) = Some (if x then ''true'' else ''false'')"
  by (simp_all add: any_ok_def any_text_def any__bool_def signed_type_def)

lemma any__char_ptr_text: "any_ok (any__char_ptr x)" "any_text (any__char_ptr x) = Some (case x of None \<Rightarrow> [] | Some s \<Rightarrow> ctext s)"
  by (simp_all add: any_ok_def any_text_def any__char_ptr_def signed_type_def)

lemmas narrow_texts = any__i64_text [OF sint_bounds(1,2)] any__i64_text [OF sint_bounds(3,4)] any__i64_text [OF sint_bounds(5,6)]

lemmas any_texts = any__u64_text any__i64_text any__char_text any__bool_text any__char_ptr_text

lemma make_any_text: "c_ok v \<Longrightarrow> any_ok (make_any v) \<and> any_text (make_any v) = Some (c_text v)"
  by (cases v) (auto simp: make_any_def c_text_def c_ok_def any_texts narrow_texts unat_widen any__any_def)

section \<open>The log macros\<close>

lemma specs_text:
  assumes "\<forall>v\<in>set vs. c_ok v"
  shows "fmt_text (separate '', '' (map (\<lambda>_. ''%f'') vs) @ '')'') (map make_any vs) = (separate '', '' (map c_text vs) @ '')'', length vs, True)"
  using assms
proof (induction vs rule: induct_list012)
  case (2 v)
  then show ?case using make_any_text [of v] by (simp add: NUL_def)
next
  case (3 v w vs)
  then show ?case using make_any_text [of v] by (simp add: NUL_def)
qed (simp add: NUL_def)

lemma log_fmt_run:
  assumes "log_ready st" "length (prefix_text loc) \<le> 200" "\<forall>a\<in>set args. any_ok a" "fmt_text fmt args = (t, k, True)" "n = int (length args)"
  shows "\<exists>st'. ext__log_fmt [] loc fmt n args st = Inr st' \<and> log_ready st' \<and> serial st' = serial st @ log_line (prefix_text loc @ t)"
  using ext__log_fmt_eq(1) [OF _ _ assms(3,4) assms(2), of st "[]"] assms(1,5) by (auto simp: log_ok_def)

section \<open>Properties\<close>

text \<open>C39. Every C value that can be logged gets a tag under which it is printed as the value it has in its own type: the
  unsigned types in decimal, the signed types with their sign, whatever their width, truth values and characters by name, strings up to
  their end. The narrow tags of \<^verbatim>\<open>type_id\<close> are never produced. The least \<^verbatim>\<open>s64\<close> is the only number that is excluded.\<close>

theorem make_any_correct:
  assumes "c_ok v"
  shows "any_ok (make_any v) \<and> any_text (make_any v) = Some (c_text v)
     \<and> ((\<exists>x. v = C_any x) \<or> type (make_any v) \<in> {type_id_bool, type_id_u64, type_id_i64, type_id_char, type_id_char_ptr})"
proof -
  have "(\<exists>x. v = C_any x) \<or> type (make_any v) \<in> {type_id_bool, type_id_u64, type_id_i64, type_id_char, type_id_char_ptr}"
    by (cases v) (simp_all add: make_any_def any__bool_def any__u64_def any__i64_def any__char_def any__char_ptr_def)
  then show ?thesis using make_any_text [OF assms] by blast
qed

theorem make_any_correct_witness: "any_text (make_any (C_s8 0xF6)) = Some ''-10''"
proof -
  have "c_text (C_s8 0xF6) = ''-10''" by code_simp
  then show ?thesis using make_any_correct [of "C_s8 0xF6"] by (simp add: c_ok_def)
qed

text \<open>C40. \<^verbatim>\<open>dbg\<close> prints the source text of its arguments and their values, separated by commas, for up to eight arguments; a \<^verbatim>\<open>panic\<close>
  prints its message before the machine is shut down. Both leave the log free for the next line.\<close>

theorem dbg_panic_print:
  assumes "log_ready st" "length (prefix_text loc) \<le> 200" "length vs \<le> 8" "\<forall>v\<in>set vs. c_ok v"
    and "fmt_text fmt (map make_any vs) = (t, k, True)"
  shows "(\<exists>st'. dbg loc code vs st = Some (Inr st') \<and> log_ready st'
            \<and> serial st' = serial st @ log_line (prefix_text loc @ ''dbg('' @ ctext code @ '') = ('' @ separate '', '' (map c_text vs) @ '')''))
     \<and> (\<exists>st'. panic loc (Some (fmt, vs)) st = Some (Inr (Shutdown 1, st')) \<and> log_ready st'
            \<and> serial st' = serial st @ log_line (prefix_text loc @ t))
     \<and> (\<exists>st'. panic loc None st = Some (Inr (Shutdown 1, st')) \<and> log_ready st'
            \<and> serial st' = serial st @ log_line (prefix_text loc @ ''panicked!''))"
proof -
  let ?c = "C_const_char_ptr (Some code)"
  have c: "c_ok ?c" "c_text ?c = ctext code" by (simp_all add: c_ok_def c_text_def)
  have n: "NARG vs = Num (length vs)" "make_any_array vs = Some (map make_any vs)" "make_any_array (?c # vs) = Some (map make_any (?c # vs))"
    using assms(3) by (simp_all add: NARG_length make_any_array_eq)
  have ok: "\<forall>a\<in>set (map make_any (?c # vs)). any_ok a" using assms(4) c(1) make_any_text by auto
  then have ok': "\<forall>a\<in>set (map make_any vs). any_ok a" by simp
  have f: "fmt_text (''dbg(%f) = ('' @ separate '', '' (map (\<lambda>_. ''%f'') vs) @ '')'') (map make_any (?c # vs))
      = (''dbg('' @ ctext code @ '') = ('' @ separate '', '' (map c_text vs) @ '')'', Suc (length vs), True)"
    using specs_text [OF assms(4)] make_any_text [OF c(1)] c(2) by (simp add: NUL_def)
  have p: "fmt_text ''panicked!'' [] = (''panicked!'', 0, True)" by (simp add: NUL_def)
  have "\<exists>st'. dbg loc code vs st = Some (Inr st') \<and> log_ready st'
      \<and> serial st' = serial st @ log_line (prefix_text loc @ ''dbg('' @ ctext code @ '') = ('' @ separate '', '' (map c_text vs) @ '')'')"
    using log_fmt_run [OF assms(1,2) ok f, of "1 + int (length vs)"] n assms(3) by (auto simp: dbg_def FOR_ARGS_SEP_eq)
  moreover have "\<exists>st'. panic loc (Some (fmt, vs)) st = Some (Inr (Shutdown 1, st')) \<and> log_ready st' \<and> serial st' = serial st @ log_line (prefix_text loc @ t)"
    using log_fmt_run [OF assms(1,2) ok' assms(5), of "int (length vs)"] n by (auto simp: panic_def log_fmt_macro_def)
  moreover have "\<exists>st'. panic loc None st = Some (Inr (Shutdown 1, st')) \<and> log_ready st' \<and> serial st' = serial st @ log_line (prefix_text loc @ ''panicked!'')"
    using log_fmt_run [OF assms(1,2) _ p, of 0] NARG_length [of "[] :: c_value list"]
    by (auto simp: panic_def log_fmt_macro_def make_any_array_eq)
  ultimately show ?thesis by blast
qed

theorem dbg_panic_print_witness:
  "\<exists>st'. dbg sample_loc ''a, b'' [C_u8 7, C_bool True] sample_log = Some (Inr st') \<and> serial st' = ''[main.c:7]: dbg(a, b) = (7, true)'' @ [CHR 0x0A]"
proof -
  have t: "fmt_text ''%f%f'' (map make_any [C_u8 7, C_bool True]) = (''7true'', 2, True)" "ctext ''a, b'' = ''a, b''" "decimal 7 = ''7''"
    by code_simp+
  have l: "log_line (''[main.c:7]: '' @ ''dbg(a, b) = (7, true)'') = ''[main.c:7]: dbg(a, b) = (7, true)'' @ [CHR 0x0A]" by code_simp
  have "c_ok (C_u8 7)" "c_ok (C_bool True)" "separate '', '' (map c_text [C_u8 7, C_bool True]) = ''7, true''"
    using t(3) by (simp_all add: c_ok_def c_text_def)
  then show ?thesis
    using dbg_panic_print [OF conjI [OF sample_log_ready(1,2)] _ _ _ t(1), of sample_loc "''a, b''"] l t(2) sample_log_ready(3)
    by (auto simp: sample_prefix)
qed

end
