(* ===== verification/Idt_Layout.thy ===== *)
theory Idt_Layout
  imports Interrupts
begin

text \<open>
  The layout of the structure \<^verbatim>\<open>Idt\<close> of \<^verbatim>\<open>src/kern/interrupts.c\<close> and the typed ways to set a handler. The four entry types
  have the same contents and differ in the type of the handler that may be stored; the selection by type is a partial function, whose
  \<open>None\<close> is a program that does not compile.
\<close>

datatype entry_type = Entry | Entry__ForExt | Entry__ForDiverging | Entry__ForDivergingExt

text \<open>The types \<^verbatim>\<open>Idt__Handler\<close>, \<^verbatim>\<open>Idt__HandlerExt\<close>, \<^verbatim>\<open>Idt__DivergingHandler\<close> and \<^verbatim>\<open>Idt__DivergingHandlerExt\<close>.\<close>

record handler_type =
  takes_error_code :: bool
  diverges :: bool

definition Idt :: "(string \<times> entry_type \<times> nat) list" where
  "Idt = [
     (''divide_error'', Entry, 1), (''debug'', Entry, 1), (''non_maskable_interrupt'', Entry, 1), (''breakpoint'', Entry, 1),
     (''overflow'', Entry, 1), (''bound_range_exceeded'', Entry, 1), (''invalid_opcode'', Entry, 1), (''device_not_available'', Entry, 1),
     (''double_fault'', Entry__ForDivergingExt, 1), (''coprocessor_segment_overrun'', Entry, 1), (''invalid_tss'', Entry__ForExt, 1),
     (''segment_not_present'', Entry__ForExt, 1), (''stack_segment_fault'', Entry__ForExt, 1),
     (''general_protection_fault'', Entry__ForExt, 1), (''page_fault'', Entry, 1), (''reserved_1'', Entry, 1),
     (''x87_floating_point'', Entry, 1), (''alignment_check'', Entry__ForExt, 1), (''machine_check'', Entry__ForDiverging, 1),
     (''simd_floating_point'', Entry, 1), (''virtualization'', Entry, 1), (''reserved_2'', Entry, 9),
     (''security_exception'', Entry__ForExt, 1), (''reserved_3'', Entry, 1), (''user_defined'', Entry, 256 - 32)]"

fun field_at :: "(string \<times> entry_type \<times> nat) list \<Rightarrow> string \<Rightarrow> (nat \<times> entry_type) option" where
  "field_at [] name = None"
| "field_at ((f, t, n) # fs) name =
     (if f = name then Some (0, t) else map_option (\<lambda>(i, t). (n + i, t)) (field_at fs name))"

definition entry_count :: "(string \<times> entry_type \<times> nat) list \<Rightarrow> nat" where
  "entry_count fs = (\<Sum>(f, t, n)\<leftarrow>fs. n)"

definition IdtEntry__Default__set_handler :: "u16 \<Rightarrow> IdtEntry \<Rightarrow> u64 \<Rightarrow> IdtEntry result" where
  "IdtEntry__Default__set_handler c e handler = IdtEntry__set_handler c e handler"

definition IdtEntry__ForExt__set_handler :: "u16 \<Rightarrow> IdtEntry \<Rightarrow> u64 \<Rightarrow> IdtEntry result" where
  "IdtEntry__ForExt__set_handler c inner handler = IdtEntry__set_handler c inner handler"

definition IdtEntry__ForDiverging__set_handler :: "u16 \<Rightarrow> IdtEntry \<Rightarrow> u64 \<Rightarrow> IdtEntry result" where
  "IdtEntry__ForDiverging__set_handler c inner handler = IdtEntry__set_handler c inner handler"

definition IdtEntry__ForDivergingExt__set_handler :: "u16 \<Rightarrow> IdtEntry \<Rightarrow> u64 \<Rightarrow> IdtEntry result" where
  "IdtEntry__ForDivergingExt__set_handler c inner handler = IdtEntry__set_handler c inner handler"

definition handler_for :: "entry_type \<Rightarrow> handler_type" where
  "handler_for t = (case t of
     Entry \<Rightarrow> \<lparr>takes_error_code = False, diverges = False\<rparr>
   | Entry__ForExt \<Rightarrow> \<lparr>takes_error_code = True, diverges = False\<rparr>
   | Entry__ForDiverging \<Rightarrow> \<lparr>takes_error_code = False, diverges = True\<rparr>
   | Entry__ForDivergingExt \<Rightarrow> \<lparr>takes_error_code = True, diverges = True\<rparr>)"

text \<open>The macro \<^verbatim>\<open>IdtEntry__set_handler(entry, handler)\<close>, with the type of the handler.\<close>

definition set_typed_handler :: "entry_type \<Rightarrow> handler_type \<Rightarrow> u16 \<Rightarrow> IdtEntry \<Rightarrow> u64 \<Rightarrow> IdtEntry result option" where
  "set_typed_handler t ht c e handler =
     (if ht \<noteq> handler_for t then None else Some (case t of
        Entry \<Rightarrow> IdtEntry__Default__set_handler c e handler
      | Entry__ForExt \<Rightarrow> IdtEntry__ForExt__set_handler c e handler
      | Entry__ForDiverging \<Rightarrow> IdtEntry__ForDiverging__set_handler c e handler
      | Entry__ForDivergingExt \<Rightarrow> IdtEntry__ForDivergingExt__set_handler c e handler))"

text \<open>\<^verbatim>\<open>Idt__double_fault\<close> takes the error code and does not return.\<close>

definition double_fault_type :: handler_type where
  "double_fault_type = \<lparr>takes_error_code = True, diverges = True\<rparr>"

text \<open>The structure has the layout of the table: 256 entries with distinct names. The entry that \<^verbatim>\<open>load_idt\<close> fills is the double
  fault entry, number 8; its type admits the double fault handler, and every entry type accepts handlers of exactly one
  type and stores them in the same way. Page faults are declared without an error code.\<close>

theorem idt_layout:
  "entry_count Idt = 256 \<and> distinct (map fst Idt)
   \<and> field_at Idt ''double_fault'' = Some (nat double_fault, Entry__ForDivergingExt)
   \<and> set_typed_handler Entry__ForDivergingExt double_fault_type c e h = Some (IdtEntry__set_handler c e h)
   \<and> (\<exists>!ht. set_typed_handler t ht c e h \<noteq> None)
   \<and> field_at Idt ''page_fault'' = Some (14, Entry) \<and> \<not> takes_error_code (handler_for Entry)"
proof -
  have "entry_count Idt = 256" "distinct (map fst Idt)" "field_at Idt ''page_fault'' = Some (14, Entry)"
    by (simp_all add: Idt_def entry_count_def)
  moreover have "field_at Idt ''double_fault'' = Some (nat double_fault, Entry__ForDivergingExt)"
    by (simp add: Idt_def double_fault_def)
  moreover have "\<exists>!ht. set_typed_handler t ht c e h \<noteq> None" by (auto simp: set_typed_handler_def)
  ultimately show ?thesis
    by (simp add: set_typed_handler_def handler_for_def double_fault_type_def IdtEntry__ForDivergingExt__set_handler_def)
qed

end
