(* ===== verification/Spec2Isabelle.thy ===== *)
theory Spec2Isabelle
  imports Kernel Task_Queue_Conc Table_Listing Find_Block Log_Macros Idt_Layout
begin

text \<open>
  A verification library for \<^verbatim>\<open>dumboss\<close>, a small kernel for x86-64 in C. The kernel is loaded by the BOOTBOOT
  loader at the top of the address space, takes over the memory map and the page tables that the loader left, and ends
  in a worker that looks for tasks. The library models the C code under \<^verbatim>\<open>src/kern\<close> and \<^verbatim>\<open>src/lib\<close>.

  \<^bold>\<open>The program.\<close> The boot core enters \<^verbatim>\<open>_start\<close> (\<^verbatim>\<open>main.c\<close>), which calls, in this order:

  \<^item> \<^verbatim>\<open>memory__init\<close> (\<^verbatim>\<open>memory.c\<close>). It sorts the loader's map, moves the identity mapping to the higher half
    (\<^verbatim>\<open>page_tables.c\<close>), takes buffers for its bit sets (\<^verbatim>\<open>bitset.h\<close>) from the free entries, gives the rest to the buddy
    allocator, builds new page tables with pages of this allocator, loads them, gives the loader's tables to
    the allocator, and makes the initial bump allocator (\<^verbatim>\<open>basics.h\<close>);
  \<^item> \<^verbatim>\<open>descriptor__init\<close> (\<^verbatim>\<open>descriptor_tables.c\<close>), which takes its tables from the bump allocator and its stack from
    the page allocator;
  \<^item> \<^verbatim>\<open>tasks__init\<close> and \<^verbatim>\<open>task_begin\<close> (\<^verbatim>\<open>multitasking.c\<close>), which make a queue for every core, load the interrupt table
    (\<^verbatim>\<open>interrupts.c\<close>) and look for tasks in all queues.

  Everything writes to the serial log (\<^verbatim>\<open>__lib_impl__.c\<close>), which formats tagged values (\<^verbatim>\<open>basics.h\<close>, \<^verbatim>\<open>types.h\<close>) under
  a mutex (\<^verbatim>\<open>sync.h\<close>), through the macros of \<^verbatim>\<open>macros.h\<close>.

  \<^bold>\<open>The theories and the code.\<close> A definition has the name of the function, type or macro it models.

  \<^item> \<open>Prelude\<close>: C integers, failures, results, counted loops. \<open>Align\<close>, \<open>Bytes\<close>: arithmetic and byte loops of
    \<^verbatim>\<open>basics.h\<close>. \<open>Loops\<close>: the control macros of \<^verbatim>\<open>macros.h\<close> and \<^verbatim>\<open>CRITICAL\<close> of \<^verbatim>\<open>sync.h\<close> as combinators on
    statements. \<open>Sync\<close>: atomics and mutex of \<^verbatim>\<open>sync.h\<close>.
  \<^item> \<open>Bit_Set\<close>: \<^verbatim>\<open>bitset.h\<close>, as an array of words and a number of bits.
  \<^item> \<open>Free_Lists\<close>, \<open>Buddy\<close>, \<open>Heap\<close>, \<open>Page_Allocator\<close>, \<open>Quads\<close>, \<open>Find_Block\<close>: the page allocator of \<^verbatim>\<open>memory.c\<close>. Its
    state \<open>memory\<close> has the fields of \<^verbatim>\<open>MemGlobals\<close> and the words of physical memory as the kernel's mapping shows them;
    the doubly linked free lists live in the free pages themselves.
  \<^item> \<open>Page_Tables\<close> (the operations), \<open>Page_Walk\<close> (the tree of tables), \<open>Page_Map\<close>, \<open>Page_Destroy\<close>, \<open>Address_Space\<close>,
    \<open>Table_Listing\<close>: \<^verbatim>\<open>page_tables.c\<close>, with its tables in the same memory.
  \<^item> \<open>Memory_Map\<close>, \<open>Heap_Init\<close>, \<open>Memory_Init\<close>: \<^verbatim>\<open>memory__init\<close> and the structures of \<^verbatim>\<open>bootboot.h\<close>.
  \<^item> \<open>Format\<close>, \<open>Format_Spec\<close>: strings and formatting of \<^verbatim>\<open>basics.h\<close> and \<^verbatim>\<open>types.h\<close>. \<open>Logging\<close>: \<^verbatim>\<open>__lib_impl__.c\<close>.
    \<open>Log_Macros\<close>: \<^verbatim>\<open>make_any\<close> and the log macros.
  \<^item> \<open>Bump_Alloc\<close>: the bump allocator of \<^verbatim>\<open>basics.h\<close>, one call and many at once.
  \<^item> \<open>Descriptors\<close>: \<^verbatim>\<open>descriptor_tables.c\<close> and the state \<open>machine\<close> of the initialisation code. \<open>Interrupts\<close>,
    \<open>Idt_Layout\<close>: \<^verbatim>\<open>interrupts.c\<close>.
  \<^item> \<open>Task_Queue\<close>, \<open>Task_Queue_Conc\<close>, \<open>Tasks\<close>: \<^verbatim>\<open>multitasking.c\<close>, the queue used by one core, by any number of cores at
    once, and the workers. \<open>Kernel\<close>: \<^verbatim>\<open>main.c\<close>.

  \<^bold>\<open>Interfaces.\<close> Each locale states what a client relies on and is interpreted on the model of the provider.

  \<^item> \<open>bit_set\<close> (interpreted as \<open>bs\<close> on \<^verbatim>\<open>bitset.h\<close>): a set of numbers below a bound, for the allocator.
  \<^item> \<open>page_allocator\<close> (\<open>pa\<close>, on \<^verbatim>\<open>memory.c\<close>): requests take free pages, releases return them; clients that release
    only what they own are safe.
  \<^item> \<open>tree_release\<close> (\<open>rt\<close> and \<open>bt\<close>, on the two ways to give up a table): a walk that releases a tree while it reads it.
  \<^item> \<open>line_log\<close> (\<open>kl\<close>, on \<^verbatim>\<open>__lib_impl__.c\<close>): every accepted call appends one line.
  \<^item> \<open>bounded_bag\<close> (\<open>tq\<close>, on \<^verbatim>\<open>enqueue_task\<close> and \<^verbatim>\<open>dequeue_task\<close>): what the scheduler needs of a queue.

  \<^bold>\<open>What the theorems show.\<close>

  \<^item> Start: with enough usable memory the boot core reaches the end of \<^verbatim>\<open>task_main\<close> without a panic, and the final
    state and the whole log are as described by \<open>kernel_up\<close>, \<open>runs_in\<close> and \<open>boot_lines\<close> (\<open>kernel_starts\<close>);
    \<^verbatim>\<open>memory__init\<close> panics only when memory is short (\<open>memory__init_correct\<close>).
  \<^item> Page allocator: \<open>heap_ok\<close>, which ties lists, buddy bits, page bits and byte counter to one set of free pages, is
    established by the initialisation and kept by every operation. Requests return free aligned runs and fail only when
    there is none, releases are accepted exactly for pages in use, and merging is complete.
  \<^item> Page tables: \<open>pt_ok\<close> describes a tree without sharing. Mapping, copying and moving change exactly the translations they
    should; destroying a tree frees each table once and reads none after its release.
  \<^item> Concurrency: in every interleaving bump allocations do not overlap, and no task in a queue is lost or duplicated.
    Used by one core at a time, the queues together refine a bag of tasks.
  \<^item> Text: formatting equals a reference formatter with clipping, return values and errors; calls of the log refine a list of
    lines; every C value prints as its value in its own type.
  \<^item> Tables of the processor: the packed descriptors and gates decode to the addresses and selectors given.
  \<^item> Faults of the code, proved of the model: a request of more than 4096 pages reads past the class array, \<^verbatim>\<open>map_page\<close>
    overwrites data under a large page, and a bad call of \<^verbatim>\<open>log_fmt\<close> spins on its own mutex.

  \<^bold>\<open>Conventions and bounds.\<close>

  \<^item> Unsigned C types are words. \<^verbatim>\<open>s64\<close> is \<open>int\<close>, with \<open>s64_chk\<close> where a caller's value may leave its range. A failed
    assertion, an access out of bounds, an overflow, a deadlock and a shutdown are values of \<open>failure\<close>.
  \<^item> A loop that may not end is a partial function whose \<open>None\<close> is a run that never returns. Where such a function is
    claimed to work, the theorem says that it returns. No theorem depends on fuel. The spin on a mutex and the halting loop
    of the other cores are such functions too: \<open>Deadlock\<close> is the result of a call whose spin is proved to go on for ever.
  \<^item> A weak exchange may fail without a reason. In the sequential models the list \<open>tries\<close> says which attempts of a
    call do, and a function that makes many calls takes one list for each call, or one that gives each call its list; all theorems hold for
    every choice. A log call takes the list in \<open>ext__log_tries\<close> and \<open>ext__log_fmt_tries\<close>, which are proved not to depend
    on it, and is used without it elsewhere. In the interleaved models such a failure is a step of its own.
  \<^item> The counters of a task queue (its indices and the next identifier) are \<open>int\<close>s that never wrap: an \<^verbatim>\<open>s64\<close> holds
    the values of any run of fewer than \<open>2 ^ 63\<close> tasks.
  \<^item> \<open>boot_ok\<close> describes the machine that the loader leaves: memory ends at a multiple of 16 MB and of at most 512 GB, as the
    code assumes when it sizes its bit sets and when it moves one entry of the top table; free entries are disjoint and end
    at page boundaries; the loader's tables form a tree outside of free memory.
  \<^item> \<open>enough_memory\<close> bounds the usable memory from below: every request of the initialisation is for one, two or four pages
    and breaks up at most one aligned run of four (\<open>Quads\<close>), a region of any size takes at most \<open>region_cost\<close> requests
    (two for each of its large pages, or three for each 2 MB it enters, \<open>Page_Map\<close>), and every entry of the map loses at
    most two runs at its ends. The bound of 54 cores keeps the array of workers inside the two pages of the initial
    bump allocator beside the descriptor tables.

  \<^bold>\<open>Not modelled.\<close>

  \<^item> The build in Go, make and Docker, and the linker script; the addresses it fixes are the record \<open>symbols\<close>.
  \<^item> Constants of \<^verbatim>\<open>bootboot.h\<close> that no code of the kernel uses, and the parts of the boot structure of other platforms.
  \<^item> The printing of floating point numbers in \<^verbatim>\<open>basics.h\<close>, which is compiled only under a macro that is never defined.
  \<^item> Port, halt and pause instructions and the status of the serial port: the port is the list of characters sent. What
    \<^verbatim>\<open>cpuid\<close> returns is a parameter; loads of control and table registers are fields of the machine.
  \<^item> \<^verbatim>\<open>spin_or\<close> of \<^verbatim>\<open>sync.h\<close>, used nowhere, jumps out of a condition by an extension of the compiler. The macros
    \<^verbatim>\<open>_add_task1\<close> to \<^verbatim>\<open>_add_task3\<close> do not compile. Token pasting and string conversion have no behaviour of their own.
  \<^item> Running a task, which the source does not implement, and interrupts that arrive during the start.
\<close>

end
